(* ===== verification/Ez_Prelude.thy ===== *)
theory Ez_Prelude
  imports Main "HOL-Library.Word"
begin

unbundle bit_operations_syntax

text \<open>
  Shared vocabulary of the development: the machine integer types of the C++ code, C strings
  as byte lists, the outcome of a C++ call (a value, a thrown exception, or undefined
  behaviour), \<open>memcpy\<close> into an array, and the generic list and word lemmas that the
  component theories use.
\<close>

section \<open>Types\<close>

type_synonym u8 = "8 word"
type_synonym u16 = "16 word"
type_synonym u32 = "32 word"
type_synonym u64 = "64 word"
type_synonym bytes = "u8 list"

text \<open>
  A C++ \<open>char\<close> is a byte. Where its sign matters (x86-64: \<open>char\<close> is signed) the code is
  modelled with the signed comparison of words. \<open>ch\<close> reads a character literal and \<open>str\<close>
  a string literal of the source.
\<close>

abbreviation ch :: "char \<Rightarrow> u8" where
  "ch c \<equiv> of_char c"

abbreviation str :: "string \<Rightarrow> bytes" where
  "str s \<equiv> map of_char s"

section \<open>Outcomes of calls\<close>

text \<open>
  Every exception type of the library is a constructor of \<open>exn\<close>; \<open>Undefined\<close> is
  behaviour that C++ leaves undefined (an access outside an array, the use of an
  uninitialised pointer), kept apart from exceptions.
\<close>

datatype exn =
    Runtime_error string
  | Channel_error string
  | Channel_timeout
  | Smp_error string
  | Http_error string

datatype fault = Throw exn | Undefined string

type_synonym 'a res = "fault + 'a"

fun bind_res :: "'a res \<Rightarrow> ('a \<Rightarrow> 'b res) \<Rightarrow> 'b res" where
  "bind_res (Inl e) f = Inl e"
| "bind_res (Inr a) f = f a"

lemma bind_res_Inr_conv [simp]:
  "bind_res m f = Inr b \<longleftrightarrow> (\<exists>a. m = Inr a \<and> f a = Inr b)"
  by (cases m) auto

lemma bind_res_assoc: "bind_res (bind_res m f) g = bind_res m (\<lambda>x. bind_res (f x) g)"
  by (cases m) auto

section \<open>Arrays\<close>

text \<open>\<open>memcpy_at dst off src\<close> is \<open>dst\<close> after \<open>memcpy(dst + off, src, length src)\<close>.\<close>

definition memcpy_at :: "'a list \<Rightarrow> nat \<Rightarrow> 'a list \<Rightarrow> 'a list" where
  "memcpy_at dst off src = take off dst @ src @ drop (off + length src) dst"

lemma length_memcpy_at [simp]:
  "off + length src \<le> length dst \<Longrightarrow> length (memcpy_at dst off src) = length dst"
  by (simp add: memcpy_at_def)

lemma take_memcpy_at:
  "off \<le> length dst \<Longrightarrow> take (off + length src) (memcpy_at dst off src) = take off dst @ src"
  by (simp add: memcpy_at_def)

lemma take_memcpy_at_le:
  "off \<le> length dst \<Longrightarrow> n \<le> off \<Longrightarrow> take n (memcpy_at dst off src) = take n dst"
  by (simp add: memcpy_at_def min_absorb1)

lemma memcpy_at_Nil [simp]: "memcpy_at dst off [] = dst"
  by (simp add: memcpy_at_def)

lemma memcpy_at_full: "length src = length dst \<Longrightarrow> memcpy_at dst 0 src = src"
  by (simp add: memcpy_at_def)

section \<open>Lists cut into blocks\<close>

text \<open>\<open>chunks n xs\<close> cuts a list into pieces of length \<open>n\<close>; the last may be shorter.\<close>

function chunks :: "nat \<Rightarrow> 'a list \<Rightarrow> 'a list list" where
  "chunks n xs = (if n = 0 \<or> xs = [] then [] else take n xs # chunks n (drop n xs))"
  by pat_completeness auto
termination
  by (relation "measure (\<lambda>(n, xs). length xs)") auto

declare chunks.simps [simp del]

lemma chunks_Nil [simp]: "chunks n [] = []"
  by (simp add: chunks.simps)

lemma chunks_step: "0 < n \<Longrightarrow> xs \<noteq> [] \<Longrightarrow> chunks n xs = take n xs # chunks n (drop n xs)"
  by (simp add: chunks.simps [of n xs])

lemma chunks_append:
  assumes "0 < n" and "length b = n"
  shows "chunks n (b @ xs) = b # chunks n xs"
proof -
  have "b \<noteq> []" using assms by auto
  then show ?thesis using assms chunks_step [of n "b @ xs"] by simp
qed

lemma concat_chunks: "0 < n \<Longrightarrow> concat (chunks n xs) = xs"
proof (induction n xs rule: chunks.induct)
  case (1 n xs)
  then show ?case by (cases "xs = []") (simp_all add: chunks_step)
qed

lemma length_chunks_dvd:
  "0 < n \<Longrightarrow> n dvd length xs \<Longrightarrow> b \<in> set (chunks n xs) \<Longrightarrow> length b = n"
proof (induction n xs rule: chunks.induct)
  case (1 n xs)
  show ?case
  proof (cases "xs = []")
    case True
    then show ?thesis using "1.prems" by simp
  next
    case False
    then have "n \<le> length xs" using "1.prems" by (simp add: dvd_imp_le)
    moreover from this have "n dvd length (drop n xs)" using "1.prems" by simp
    ultimately show ?thesis
      using "1.IH" "1.prems" False by (auto simp: chunks_step)
  qed
qed

section \<open>Rounding up\<close>

text \<open>The least multiple of \<open>k\<close> that is not below \<open>n\<close>.\<close>

definition ceil_to :: "nat \<Rightarrow> nat \<Rightarrow> nat" where
  "ceil_to k n = (if n mod k = 0 then n else k * Suc (n div k))"

lemma ceil_to_dvd: "k dvd ceil_to k n"
  by (auto simp: ceil_to_def)

lemma ceil_to_id: "n mod k = 0 \<Longrightarrow> ceil_to k n = n"
  by (simp add: ceil_to_def)

lemma ceil_to_Suc: "n mod k \<noteq> 0 \<Longrightarrow> ceil_to k (Suc n) = ceil_to k n"
proof -
  assume n: "n mod k \<noteq> 0"
  show ?thesis
  proof (cases "Suc n mod k = 0")
    case True
    then have "Suc n = k * (Suc n div k)" by auto
    then show ?thesis using True n by (simp add: ceil_to_def div_Suc)
  next
    case False
    then show ?thesis using n by (simp add: ceil_to_def div_Suc)
  qed
qed

lemma ceil_to_bounds:
  assumes "0 < k"
  shows "n \<le> ceil_to k n" and "ceil_to k n < n + k"
proof -
  have n: "n = k * (n div k) + n mod k" by simp
  have "n mod k < k" using assms by simp
  then show "n \<le> ceil_to k n" unfolding ceil_to_def using n by (metis add_le_cancel_left le_refl less_imp_le mult_Suc_right add.commute)
  show "ceil_to k n < n + k"
  proof (cases "n mod k = 0")
    case False
    then have "ceil_to k n = k * (n div k) + k" by (simp add: ceil_to_def)
    then show ?thesis using False n by linarith
  qed (simp add: ceil_to_def assms)
qed

lemma ceil_to_add: "0 < k \<Longrightarrow> ceil_to k (k + n) = k + ceil_to k n"
  by (auto simp: ceil_to_def div_add_self1)

section \<open>Words\<close>

lemma unat_of_nat_eq: "n < 2 ^ LENGTH('a) \<Longrightarrow> unat (of_nat n :: 'a::len word) = n"
  by (simp add: unat_of_nat take_bit_eq_mod)

lemma take_bit_id: "unat v < 2 ^ k \<Longrightarrow> take_bit k v = (v :: 'a::len word)"
  by (metis take_bit_nat_eq_self unsigned_take_bit_eq unsigned_word_eqI)

lemma bit_below: "unat v < 2 ^ k \<Longrightarrow> bit v n \<Longrightarrow> n < k"
  by (metis bit_take_bit_iff take_bit_id)

lemma or_add_disjoint:
  assumes "\<And>n. bit (a :: 'a::len word) n \<Longrightarrow> bit b n \<Longrightarrow> False"
  shows "a OR b = a + b"
proof -
  have "a AND b = 0" using assms by (auto intro!: bit_word_eqI simp: bit_and_iff)
  then show ?thesis by (simp add: disjunctive_add_eq_or)
qed

lemma push_or_add:
  assumes "unat w < 2 ^ k"
  shows "push_bit k v OR w = 2 ^ k * v + (w :: 'a::len word)"
proof -
  have "push_bit k v OR w = push_bit k v + w"
    using bit_below [OF assms] by (intro or_add_disjoint) (fastforce simp: bit_push_bit_iff)
  then show ?thesis by (simp add: push_bit_eq_mult mult.commute)
qed

lemma unat_inject: "unat a = unat (b :: 'a::len word) \<longleftrightarrow> a = b"
  by (auto intro: unsigned_word_eqI)

text \<open>A property of all bytes can be checked byte by byte.\<close>

lemma byte_exhaust:
  assumes "list_all (\<lambda>n. P (of_nat n)) [0..<256]"
  shows "P (c :: u8)"
proof -
  have "unat c \<in> set [0..<256]" using unsigned_less [of c, where 'a = nat] by simp
  then have "P (of_nat (unat c))" using assms unfolding list_all_iff by blast
  then show ?thesis by simp
qed

text \<open>A bit field read by a mask and a shift, as a number.\<close>

lemma unat_drop_field:
  "unat (drop_bit k (a AND push_bit k (mask j)) :: 'a::len word) = (unat a div 2 ^ k) mod 2 ^ j"
proof -
  have "drop_bit k (a AND push_bit k (mask j)) = take_bit j (drop_bit k a)"
    by (rule bit_word_eqI) (auto simp: bit_simps bit_mask_iff dest: bit_imp_le_length)
  then have "unat (drop_bit k (a AND push_bit k (mask j))) = take_bit j (unat (drop_bit k a))"
    by (simp only: unsigned_take_bit_eq)
  also have "\<dots> = take_bit j (drop_bit k (unat a))"
    by (simp only: unat_drop_bit_eq)
  finally show ?thesis by (simp only: take_bit_eq_mod drop_bit_eq_div)
qed

lemma unat_push_field:
  assumes "j + k \<le> LENGTH('a)"
  shows "unat (push_bit k (a AND mask j) :: 'a::len word) = 2 ^ k * (unat a mod 2 ^ j)"
proof -
  have "2 ^ k * (unat a mod 2 ^ j) < 2 ^ k * (2 :: nat) ^ j" by simp
  also have "\<dots> \<le> 2 ^ LENGTH('a)" using assms by (simp add: flip: power_add)
  finally have "2 ^ k * (unat a mod 2 ^ j) < 2 ^ LENGTH('a)" .
  moreover have "unat (push_bit k (a AND mask j)) =
      take_bit LENGTH('a) (push_bit k (take_bit j (unat a)))"
    by (simp only: unsigned_push_bit_eq unsigned_take_bit_eq flip: take_bit_eq_mask)
  ultimately show ?thesis by (simp add: take_bit_eq_mod push_bit_eq_mult mult.commute)
qed

lemma unat_add_small:
  "unat a + unat b < 2 ^ LENGTH('a) \<Longrightarrow> unat (a + b :: 'a::len word) = unat a + unat b"
  by (simp add: unat_word_ariths)

lemma xor_cancel [simp]: "(x XOR k) XOR k = (x :: 'a::len word)"
  by (simp add: xor.assoc)

end
