(* ===== verification/Ez_Bytes.thy ===== *)
theory Ez_Bytes
  imports Ez_Prelude
begin

text \<open>
  The byte macros of \<open>include/ez/common.hpp\<close>: rotations, shifts, unaligned loads and stores
  of 16 to 64 bit integers in both byte orders, and byte swaps. A load reads a byte array at an
  offset; a store is the list of bytes it writes, in address order. The lemmas show that a load
  reads back what a store wrote, that a store writes back what a load read, and that a byte
  swap is the difference between the two byte orders. \<open>LOAD48LE\<close> (no closing bracket) and
  \<open>STORE48LE\<close> (a trailing comma) do not expand to expressions and have no definition here.
\<close>

section \<open>Rotations and shifts\<close>

text \<open>The operands of every use are already unsigned words of the macro's width.\<close>

definition ROL8 :: "u8 \<Rightarrow> nat \<Rightarrow> u8" where
  "ROL8 a n = push_bit n a OR drop_bit (8 - n) a"

definition ROL16 :: "u16 \<Rightarrow> nat \<Rightarrow> u16" where
  "ROL16 a n = push_bit n a OR drop_bit (16 - n) a"

definition ROL32 :: "u32 \<Rightarrow> nat \<Rightarrow> u32" where
  "ROL32 a n = push_bit n a OR drop_bit (32 - n) a"

definition ROL64 :: "u64 \<Rightarrow> nat \<Rightarrow> u64" where
  "ROL64 a n = push_bit n a OR drop_bit (64 - n) a"

definition ROR8 :: "u8 \<Rightarrow> nat \<Rightarrow> u8" where
  "ROR8 a n = drop_bit n a OR push_bit (8 - n) a"

definition ROR16 :: "u16 \<Rightarrow> nat \<Rightarrow> u16" where
  "ROR16 a n = drop_bit n a OR push_bit (16 - n) a"

definition ROR32 :: "u32 \<Rightarrow> nat \<Rightarrow> u32" where
  "ROR32 a n = drop_bit n a OR push_bit (32 - n) a"

definition ROR64 :: "u64 \<Rightarrow> nat \<Rightarrow> u64" where
  "ROR64 a n = drop_bit n a OR push_bit (64 - n) a"

definition SHR32 :: "u32 \<Rightarrow> nat \<Rightarrow> u32" where
  "SHR32 a n = drop_bit n a"

section \<open>Loads\<close>

definition LOAD16LE :: "bytes \<Rightarrow> nat \<Rightarrow> u16" where
  "LOAD16LE p off =
     push_bit 0 (ucast (p ! off)) OR
     push_bit 8 (ucast (p ! (off + 1)))"

definition LOAD16BE :: "bytes \<Rightarrow> nat \<Rightarrow> u16" where
  "LOAD16BE p off =
     push_bit 8 (ucast (p ! off)) OR
     push_bit 0 (ucast (p ! (off + 1)))"

definition LOAD24LE :: "bytes \<Rightarrow> nat \<Rightarrow> u32" where
  "LOAD24LE p off =
     push_bit 0 (ucast (p ! off)) OR
     push_bit 8 (ucast (p ! (off + 1))) OR
     push_bit 16 (ucast (p ! (off + 2)))"

definition LOAD24BE :: "bytes \<Rightarrow> nat \<Rightarrow> u32" where
  "LOAD24BE p off =
     push_bit 16 (ucast (p ! off)) OR
     push_bit 8 (ucast (p ! (off + 1))) OR
     push_bit 0 (ucast (p ! (off + 2)))"

definition LOAD32LE :: "bytes \<Rightarrow> nat \<Rightarrow> u32" where
  "LOAD32LE p off =
     push_bit 0 (ucast (p ! off)) OR
     push_bit 8 (ucast (p ! (off + 1))) OR
     push_bit 16 (ucast (p ! (off + 2))) OR
     push_bit 24 (ucast (p ! (off + 3)))"

definition LOAD32BE :: "bytes \<Rightarrow> nat \<Rightarrow> u32" where
  "LOAD32BE p off =
     push_bit 24 (ucast (p ! off)) OR
     push_bit 16 (ucast (p ! (off + 1))) OR
     push_bit 8 (ucast (p ! (off + 2))) OR
     push_bit 0 (ucast (p ! (off + 3)))"

definition LOAD48BE :: "bytes \<Rightarrow> nat \<Rightarrow> u64" where
  "LOAD48BE p off =
     push_bit 40 (ucast (p ! off)) OR
     push_bit 32 (ucast (p ! (off + 1))) OR
     push_bit 24 (ucast (p ! (off + 2))) OR
     push_bit 16 (ucast (p ! (off + 3))) OR
     push_bit 8 (ucast (p ! (off + 4))) OR
     push_bit 0 (ucast (p ! (off + 5)))"

definition LOAD64LE :: "bytes \<Rightarrow> nat \<Rightarrow> u64" where
  "LOAD64LE p off =
     push_bit 0 (ucast (p ! off)) OR
     push_bit 8 (ucast (p ! (off + 1))) OR
     push_bit 16 (ucast (p ! (off + 2))) OR
     push_bit 24 (ucast (p ! (off + 3))) OR
     push_bit 32 (ucast (p ! (off + 4))) OR
     push_bit 40 (ucast (p ! (off + 5))) OR
     push_bit 48 (ucast (p ! (off + 6))) OR
     push_bit 56 (ucast (p ! (off + 7)))"

definition LOAD64BE :: "bytes \<Rightarrow> nat \<Rightarrow> u64" where
  "LOAD64BE p off =
     push_bit 56 (ucast (p ! off)) OR
     push_bit 48 (ucast (p ! (off + 1))) OR
     push_bit 40 (ucast (p ! (off + 2))) OR
     push_bit 32 (ucast (p ! (off + 3))) OR
     push_bit 24 (ucast (p ! (off + 4))) OR
     push_bit 16 (ucast (p ! (off + 5))) OR
     push_bit 8 (ucast (p ! (off + 6))) OR
     push_bit 0 (ucast (p ! (off + 7)))"

section \<open>Stores\<close>

definition STORE16LE :: "u16 \<Rightarrow> bytes" where
  "STORE16LE a =
     [ucast (drop_bit 0 a AND 0xFF),
      ucast (drop_bit 8 a AND 0xFF)]"

definition STORE16BE :: "u16 \<Rightarrow> bytes" where
  "STORE16BE a =
     [ucast (drop_bit 8 a AND 0xFF),
      ucast (drop_bit 0 a AND 0xFF)]"

definition STORE24LE :: "u32 \<Rightarrow> bytes" where
  "STORE24LE a =
     [ucast (drop_bit 0 a AND 0xFF),
      ucast (drop_bit 8 a AND 0xFF),
      ucast (drop_bit 16 a AND 0xFF)]"

definition STORE24BE :: "u32 \<Rightarrow> bytes" where
  "STORE24BE a =
     [ucast (drop_bit 16 a AND 0xFF),
      ucast (drop_bit 8 a AND 0xFF),
      ucast (drop_bit 0 a AND 0xFF)]"

definition STORE32LE :: "u32 \<Rightarrow> bytes" where
  "STORE32LE a =
     [ucast (drop_bit 0 a AND 0xFF),
      ucast (drop_bit 8 a AND 0xFF),
      ucast (drop_bit 16 a AND 0xFF),
      ucast (drop_bit 24 a AND 0xFF)]"

definition STORE32BE :: "u32 \<Rightarrow> bytes" where
  "STORE32BE a =
     [ucast (drop_bit 24 a AND 0xFF),
      ucast (drop_bit 16 a AND 0xFF),
      ucast (drop_bit 8 a AND 0xFF),
      ucast (drop_bit 0 a AND 0xFF)]"

definition STORE48BE :: "u64 \<Rightarrow> bytes" where
  "STORE48BE a =
     [ucast (drop_bit 40 a AND 0xFF),
      ucast (drop_bit 32 a AND 0xFF),
      ucast (drop_bit 24 a AND 0xFF),
      ucast (drop_bit 16 a AND 0xFF),
      ucast (drop_bit 8 a AND 0xFF),
      ucast (drop_bit 0 a AND 0xFF)]"

definition STORE64LE :: "u64 \<Rightarrow> bytes" where
  "STORE64LE a =
     [ucast (drop_bit 0 a AND 0xFF),
      ucast (drop_bit 8 a AND 0xFF),
      ucast (drop_bit 16 a AND 0xFF),
      ucast (drop_bit 24 a AND 0xFF),
      ucast (drop_bit 32 a AND 0xFF),
      ucast (drop_bit 40 a AND 0xFF),
      ucast (drop_bit 48 a AND 0xFF),
      ucast (drop_bit 56 a AND 0xFF)]"

definition STORE64BE :: "u64 \<Rightarrow> bytes" where
  "STORE64BE a =
     [ucast (drop_bit 56 a AND 0xFF),
      ucast (drop_bit 48 a AND 0xFF),
      ucast (drop_bit 40 a AND 0xFF),
      ucast (drop_bit 32 a AND 0xFF),
      ucast (drop_bit 24 a AND 0xFF),
      ucast (drop_bit 16 a AND 0xFF),
      ucast (drop_bit 8 a AND 0xFF),
      ucast (drop_bit 0 a AND 0xFF)]"

section \<open>Byte swaps\<close>

definition SWAPINT16 :: "u16 \<Rightarrow> u16" where
  "SWAPINT16 x = push_bit 8 (x AND 0x00FF) OR drop_bit 8 (x AND 0xFF00)"

definition SWAPINT32 :: "u32 \<Rightarrow> u32" where
  "SWAPINT32 x =
     push_bit 24 (x AND 0x000000FF) OR
     push_bit 8 (x AND 0x0000FF00) OR
     drop_bit 8 (x AND 0x00FF0000) OR
     drop_bit 24 (x AND 0xFF000000)"

definition SWAPINT64 :: "u64 \<Rightarrow> u64" where
  "SWAPINT64 x =
     push_bit 56 (x AND 0x00000000000000FF) OR
     push_bit 40 (x AND 0x000000000000FF00) OR
     push_bit 24 (x AND 0x0000000000FF0000) OR
     push_bit 8 (x AND 0x00000000FF000000) OR
     drop_bit 8 (x AND 0x000000FF00000000) OR
     drop_bit 24 (x AND 0x0000FF0000000000) OR
     drop_bit 40 (x AND 0x00FF000000000000) OR
     drop_bit 56 (x AND 0xFF00000000000000)"

section \<open>Bits of loads and stores\<close>

text \<open>A byte of the source array lands in one slot of eight bits of the word.\<close>

named_theorems byte_bits \<comment> \<open>bits of shifted bytes\<close>

lemma mask8_num: "(0xFF :: 'a::len word) = mask 8"
  by (simp add: mask_eq_exp_minus_1)

lemma ucast_and_FF: "(ucast ((x :: 'a::len word) AND 0xFF) :: u8) = ucast x"
  unfolding mask8_num by (rule bit_word_eqI) (auto simp: bit_simps dest: bit_imp_le_length)

lemma bit_byte_slot:
  "bit (push_bit (8 * k) (ucast (b :: u8)) :: 'a::len word) n \<longleftrightarrow>
     n < LENGTH('a) \<and> n div 8 = k \<and> bit b (n mod 8)"
proof (cases "n div 8 = k")
  case True
  then have "n = 8 * k + n mod 8" by presburger
  then obtain m where "n = 8 * k + m" "m < 8" by (metis mod_less_divisor zero_less_numeral)
  then show ?thesis by (auto simp: bit_simps dest: bit_imp_le_length)
next
  case False
  then have "n < 8 * k \<or> 8 \<le> n - 8 * k" by auto
  then have "\<not> (8 * k \<le> n \<and> bit b (n - 8 * k))"
    using bit_imp_le_length [of b "n - 8 * k"] by auto
  then show ?thesis using False by (simp add: bit_push_bit_iff bit_ucast_iff)
qed

lemmas bit_byte_slots [byte_bits] =
  bit_byte_slot [of 0, simplified] bit_byte_slot [of 1, simplified] bit_byte_slot [of 2, simplified]
  bit_byte_slot [of 3, simplified] bit_byte_slot [of 4, simplified] bit_byte_slot [of 5, simplified]
  bit_byte_slot [of 6, simplified] bit_byte_slot [of 7, simplified]

lemma bit_byte_of: "bit (ucast (drop_bit (8 * k) (a :: 'a::len word)) :: u8) n \<longleftrightarrow> n < 8 \<and> bit a (8 * k + n)"
  by (simp add: bit_ucast_iff bit_drop_bit_eq)

lemma bit_LOAD16LE:
  "bit (LOAD16LE p off) n \<longleftrightarrow> n < 16 \<and> bit (p ! (off + n div 8)) (n mod 8)"
proof (cases "n < 16")
  case True
  then have "n div 8 \<in> {0, 1}" by auto
  then show ?thesis using True
    by (elim insertE emptyE; simp add: LOAD16LE_def bit_or_iff byte_bits)
next
  case False
  then have "1 < n div 8" by auto
  then show ?thesis using False by (simp add: LOAD16LE_def bit_or_iff byte_bits)
qed

lemma bit_LOAD16BE:
  "bit (LOAD16BE p off) n \<longleftrightarrow> n < 16 \<and> bit (p ! (off + (1 - n div 8))) (n mod 8)"
proof (cases "n < 16")
  case True
  then have "n div 8 \<in> {0, 1}" by auto
  then show ?thesis using True
    by (elim insertE emptyE; simp add: LOAD16BE_def bit_or_iff byte_bits)
next
  case False
  then have "1 < n div 8" by auto
  then show ?thesis using False by (simp add: LOAD16BE_def bit_or_iff byte_bits)
qed

lemma bit_LOAD24LE:
  "bit (LOAD24LE p off) n \<longleftrightarrow> n < 24 \<and> bit (p ! (off + n div 8)) (n mod 8)"
proof (cases "n < 24")
  case True
  then have "n div 8 \<in> {0, 1, 2}" by auto
  then show ?thesis using True
    by (elim insertE emptyE; simp add: LOAD24LE_def bit_or_iff byte_bits)
next
  case False
  then have "2 < n div 8" by auto
  then show ?thesis using False by (simp add: LOAD24LE_def bit_or_iff byte_bits)
qed

lemma bit_LOAD24BE:
  "bit (LOAD24BE p off) n \<longleftrightarrow> n < 24 \<and> bit (p ! (off + (2 - n div 8))) (n mod 8)"
proof (cases "n < 24")
  case True
  then have "n div 8 \<in> {0, 1, 2}" by auto
  then show ?thesis using True
    by (elim insertE emptyE; simp add: LOAD24BE_def bit_or_iff byte_bits)
next
  case False
  then have "2 < n div 8" by auto
  then show ?thesis using False by (simp add: LOAD24BE_def bit_or_iff byte_bits)
qed

lemma bit_LOAD32LE:
  "bit (LOAD32LE p off) n \<longleftrightarrow> n < 32 \<and> bit (p ! (off + n div 8)) (n mod 8)"
proof (cases "n < 32")
  case True
  then have "n div 8 \<in> {0, 1, 2, 3}" by auto
  then show ?thesis using True
    by (elim insertE emptyE; simp add: LOAD32LE_def bit_or_iff byte_bits)
next
  case False
  then have "3 < n div 8" by auto
  then show ?thesis using False by (simp add: LOAD32LE_def bit_or_iff byte_bits)
qed

lemma bit_LOAD32BE:
  "bit (LOAD32BE p off) n \<longleftrightarrow> n < 32 \<and> bit (p ! (off + (3 - n div 8))) (n mod 8)"
proof (cases "n < 32")
  case True
  then have "n div 8 \<in> {0, 1, 2, 3}" by auto
  then show ?thesis using True
    by (elim insertE emptyE; simp add: LOAD32BE_def bit_or_iff byte_bits)
next
  case False
  then have "3 < n div 8" by auto
  then show ?thesis using False by (simp add: LOAD32BE_def bit_or_iff byte_bits)
qed

lemma bit_LOAD48BE:
  "bit (LOAD48BE p off) n \<longleftrightarrow> n < 48 \<and> bit (p ! (off + (5 - n div 8))) (n mod 8)"
proof (cases "n < 48")
  case True
  then have "n div 8 \<in> {0, 1, 2, 3, 4, 5}" by auto
  then show ?thesis using True
    by (elim insertE emptyE; simp add: LOAD48BE_def bit_or_iff byte_bits)
next
  case False
  then have "5 < n div 8" by auto
  then show ?thesis using False by (simp add: LOAD48BE_def bit_or_iff byte_bits)
qed

lemma bit_LOAD64LE:
  "bit (LOAD64LE p off) n \<longleftrightarrow> n < 64 \<and> bit (p ! (off + n div 8)) (n mod 8)"
proof (cases "n < 64")
  case True
  then have "n div 8 \<in> {0, 1, 2, 3, 4, 5, 6, 7}" by auto
  then show ?thesis using True
    by (elim insertE emptyE; simp add: LOAD64LE_def bit_or_iff byte_bits)
next
  case False
  then have "7 < n div 8" by auto
  then show ?thesis using False by (simp add: LOAD64LE_def bit_or_iff byte_bits)
qed

lemma bit_LOAD64BE:
  "bit (LOAD64BE p off) n \<longleftrightarrow> n < 64 \<and> bit (p ! (off + (7 - n div 8))) (n mod 8)"
proof (cases "n < 64")
  case True
  then have "n div 8 \<in> {0, 1, 2, 3, 4, 5, 6, 7}" by auto
  then show ?thesis using True
    by (elim insertE emptyE; simp add: LOAD64BE_def bit_or_iff byte_bits)
next
  case False
  then have "7 < n div 8" by auto
  then show ?thesis using False by (simp add: LOAD64BE_def bit_or_iff byte_bits)
qed

section \<open>Loads and stores are inverse\<close>

lemma length_STORE16LE [simp]: "length (STORE16LE a) = 2"
  by (simp add: STORE16LE_def)

lemma nth_STORE16LE: "k < 2 \<Longrightarrow> STORE16LE a ! k = ucast (drop_bit (8 * (k)) a)"
proof -
  assume "k < 2"
  then have "k \<in> {0, 1}" by auto
  then show ?thesis by (elim insertE emptyE; simp add: STORE16LE_def ucast_and_FF)
qed

lemma STORE16LE_LOAD16LE: "length p = 2 \<Longrightarrow> STORE16LE (LOAD16LE p 0) = p"
proof (rule nth_equalityI)
  fix k assume "length p = 2" and "k < length (STORE16LE (LOAD16LE p 0))"
  then have k: "k < 2" by simp
  show "STORE16LE (LOAD16LE p 0) ! k = p ! k"
    using k by (intro bit_word_eqI) (auto simp: nth_STORE16LE [OF k] bit_byte_of bit_LOAD16LE)
qed simp

lemma LOAD16LE_STORE16LE: "LOAD16LE (STORE16LE a) 0 = a"
proof (rule bit_word_eqI)
  fix n assume n: "n < LENGTH(16)"
  then have "n div 8 < 2" by auto
  then show "bit (LOAD16LE (STORE16LE a) 0) n = bit a n"
    using n by (simp add: bit_LOAD16LE nth_STORE16LE bit_byte_of)
qed

lemma length_STORE16BE [simp]: "length (STORE16BE a) = 2"
  by (simp add: STORE16BE_def)

lemma nth_STORE16BE: "k < 2 \<Longrightarrow> STORE16BE a ! k = ucast (drop_bit (8 * (1 - k)) a)"
proof -
  assume "k < 2"
  then have "k \<in> {0, 1}" by auto
  then show ?thesis by (elim insertE emptyE; simp add: STORE16BE_def ucast_and_FF)
qed

lemma STORE16BE_LOAD16BE: "length p = 2 \<Longrightarrow> STORE16BE (LOAD16BE p 0) = p"
proof (rule nth_equalityI)
  fix k assume "length p = 2" and "k < length (STORE16BE (LOAD16BE p 0))"
  then have k: "k < 2" by simp
  show "STORE16BE (LOAD16BE p 0) ! k = p ! k"
    using k by (intro bit_word_eqI) (auto simp: nth_STORE16BE [OF k] bit_byte_of bit_LOAD16BE)
qed simp

lemma LOAD16BE_STORE16BE: "LOAD16BE (STORE16BE a) 0 = a"
proof (rule bit_word_eqI)
  fix n assume n: "n < LENGTH(16)"
  then have "n div 8 < 2" by auto
  then show "bit (LOAD16BE (STORE16BE a) 0) n = bit a n"
    using n by (simp add: bit_LOAD16BE nth_STORE16BE bit_byte_of)
qed

lemma length_STORE24LE [simp]: "length (STORE24LE a) = 3"
  by (simp add: STORE24LE_def)

lemma nth_STORE24LE: "k < 3 \<Longrightarrow> STORE24LE a ! k = ucast (drop_bit (8 * (k)) a)"
proof -
  assume "k < 3"
  then have "k \<in> {0, 1, 2}" by auto
  then show ?thesis by (elim insertE emptyE; simp add: STORE24LE_def ucast_and_FF)
qed

lemma STORE24LE_LOAD24LE: "length p = 3 \<Longrightarrow> STORE24LE (LOAD24LE p 0) = p"
proof (rule nth_equalityI)
  fix k assume "length p = 3" and "k < length (STORE24LE (LOAD24LE p 0))"
  then have k: "k < 3" by simp
  show "STORE24LE (LOAD24LE p 0) ! k = p ! k"
    using k by (intro bit_word_eqI) (auto simp: nth_STORE24LE [OF k] bit_byte_of bit_LOAD24LE)
qed simp

lemma LOAD24LE_STORE24LE: "LOAD24LE (STORE24LE a) 0 = a AND 0xFFFFFF"
proof -
  have "(a AND 0xFFFFFF) = take_bit 24 a"
    by (simp add: take_bit_eq_mask mask_eq_exp_minus_1)
  moreover have "LOAD24LE (STORE24LE a) 0 = take_bit 24 a"
  proof (rule bit_word_eqI)
    fix n assume "n < LENGTH(32)"
    have "n div 8 < 3" if "n < 24" using that by auto
    then show "bit (LOAD24LE (STORE24LE a) 0) n = bit (take_bit 24 a) n"
      by (auto simp: bit_LOAD24LE nth_STORE24LE bit_byte_of bit_take_bit_iff)
  qed
  ultimately show ?thesis by simp
qed

lemma length_STORE24BE [simp]: "length (STORE24BE a) = 3"
  by (simp add: STORE24BE_def)

lemma nth_STORE24BE: "k < 3 \<Longrightarrow> STORE24BE a ! k = ucast (drop_bit (8 * (2 - k)) a)"
proof -
  assume "k < 3"
  then have "k \<in> {0, 1, 2}" by auto
  then show ?thesis by (elim insertE emptyE; simp add: STORE24BE_def ucast_and_FF)
qed

lemma STORE24BE_LOAD24BE: "length p = 3 \<Longrightarrow> STORE24BE (LOAD24BE p 0) = p"
proof (rule nth_equalityI)
  fix k assume "length p = 3" and "k < length (STORE24BE (LOAD24BE p 0))"
  then have k: "k < 3" by simp
  show "STORE24BE (LOAD24BE p 0) ! k = p ! k"
    using k by (intro bit_word_eqI) (auto simp: nth_STORE24BE [OF k] bit_byte_of bit_LOAD24BE)
qed simp

lemma LOAD24BE_STORE24BE: "LOAD24BE (STORE24BE a) 0 = a AND 0xFFFFFF"
proof -
  have "(a AND 0xFFFFFF) = take_bit 24 a"
    by (simp add: take_bit_eq_mask mask_eq_exp_minus_1)
  moreover have "LOAD24BE (STORE24BE a) 0 = take_bit 24 a"
  proof (rule bit_word_eqI)
    fix n assume "n < LENGTH(32)"
    have "n div 8 < 3" if "n < 24" using that by auto
    then show "bit (LOAD24BE (STORE24BE a) 0) n = bit (take_bit 24 a) n"
      by (auto simp: bit_LOAD24BE nth_STORE24BE bit_byte_of bit_take_bit_iff)
  qed
  ultimately show ?thesis by simp
qed

lemma length_STORE32LE [simp]: "length (STORE32LE a) = 4"
  by (simp add: STORE32LE_def)

lemma nth_STORE32LE: "k < 4 \<Longrightarrow> STORE32LE a ! k = ucast (drop_bit (8 * (k)) a)"
proof -
  assume "k < 4"
  then have "k \<in> {0, 1, 2, 3}" by auto
  then show ?thesis by (elim insertE emptyE; simp add: STORE32LE_def ucast_and_FF)
qed

lemma STORE32LE_LOAD32LE: "length p = 4 \<Longrightarrow> STORE32LE (LOAD32LE p 0) = p"
proof (rule nth_equalityI)
  fix k assume "length p = 4" and "k < length (STORE32LE (LOAD32LE p 0))"
  then have k: "k < 4" by simp
  show "STORE32LE (LOAD32LE p 0) ! k = p ! k"
    using k by (intro bit_word_eqI) (auto simp: nth_STORE32LE [OF k] bit_byte_of bit_LOAD32LE)
qed simp

lemma LOAD32LE_STORE32LE: "LOAD32LE (STORE32LE a) 0 = a"
proof (rule bit_word_eqI)
  fix n assume n: "n < LENGTH(32)"
  then have "n div 8 < 4" by auto
  then show "bit (LOAD32LE (STORE32LE a) 0) n = bit a n"
    using n by (simp add: bit_LOAD32LE nth_STORE32LE bit_byte_of)
qed

lemma length_STORE32BE [simp]: "length (STORE32BE a) = 4"
  by (simp add: STORE32BE_def)

lemma nth_STORE32BE: "k < 4 \<Longrightarrow> STORE32BE a ! k = ucast (drop_bit (8 * (3 - k)) a)"
proof -
  assume "k < 4"
  then have "k \<in> {0, 1, 2, 3}" by auto
  then show ?thesis by (elim insertE emptyE; simp add: STORE32BE_def ucast_and_FF)
qed

lemma STORE32BE_LOAD32BE: "length p = 4 \<Longrightarrow> STORE32BE (LOAD32BE p 0) = p"
proof (rule nth_equalityI)
  fix k assume "length p = 4" and "k < length (STORE32BE (LOAD32BE p 0))"
  then have k: "k < 4" by simp
  show "STORE32BE (LOAD32BE p 0) ! k = p ! k"
    using k by (intro bit_word_eqI) (auto simp: nth_STORE32BE [OF k] bit_byte_of bit_LOAD32BE)
qed simp

lemma LOAD32BE_STORE32BE: "LOAD32BE (STORE32BE a) 0 = a"
proof (rule bit_word_eqI)
  fix n assume n: "n < LENGTH(32)"
  then have "n div 8 < 4" by auto
  then show "bit (LOAD32BE (STORE32BE a) 0) n = bit a n"
    using n by (simp add: bit_LOAD32BE nth_STORE32BE bit_byte_of)
qed

lemma length_STORE48BE [simp]: "length (STORE48BE a) = 6"
  by (simp add: STORE48BE_def)

lemma nth_STORE48BE: "k < 6 \<Longrightarrow> STORE48BE a ! k = ucast (drop_bit (8 * (5 - k)) a)"
proof -
  assume "k < 6"
  then have "k \<in> {0, 1, 2, 3, 4, 5}" by auto
  then show ?thesis by (elim insertE emptyE; simp add: STORE48BE_def ucast_and_FF)
qed

lemma STORE48BE_LOAD48BE: "length p = 6 \<Longrightarrow> STORE48BE (LOAD48BE p 0) = p"
proof (rule nth_equalityI)
  fix k assume "length p = 6" and "k < length (STORE48BE (LOAD48BE p 0))"
  then have k: "k < 6" by simp
  show "STORE48BE (LOAD48BE p 0) ! k = p ! k"
    using k by (intro bit_word_eqI) (auto simp: nth_STORE48BE [OF k] bit_byte_of bit_LOAD48BE)
qed simp

lemma LOAD48BE_STORE48BE: "LOAD48BE (STORE48BE a) 0 = a AND 0xFFFFFFFFFFFF"
proof -
  have "(a AND 0xFFFFFFFFFFFF) = take_bit 48 a"
    by (simp add: take_bit_eq_mask mask_eq_exp_minus_1)
  moreover have "LOAD48BE (STORE48BE a) 0 = take_bit 48 a"
  proof (rule bit_word_eqI)
    fix n assume "n < LENGTH(64)"
    have "n div 8 < 6" if "n < 48" using that by auto
    then show "bit (LOAD48BE (STORE48BE a) 0) n = bit (take_bit 48 a) n"
      by (auto simp: bit_LOAD48BE nth_STORE48BE bit_byte_of bit_take_bit_iff)
  qed
  ultimately show ?thesis by simp
qed

lemma length_STORE64LE [simp]: "length (STORE64LE a) = 8"
  by (simp add: STORE64LE_def)

lemma nth_STORE64LE: "k < 8 \<Longrightarrow> STORE64LE a ! k = ucast (drop_bit (8 * (k)) a)"
proof -
  assume "k < 8"
  then have "k \<in> {0, 1, 2, 3, 4, 5, 6, 7}" by auto
  then show ?thesis by (elim insertE emptyE; simp add: STORE64LE_def ucast_and_FF)
qed

lemma STORE64LE_LOAD64LE: "length p = 8 \<Longrightarrow> STORE64LE (LOAD64LE p 0) = p"
proof (rule nth_equalityI)
  fix k assume "length p = 8" and "k < length (STORE64LE (LOAD64LE p 0))"
  then have k: "k < 8" by simp
  show "STORE64LE (LOAD64LE p 0) ! k = p ! k"
    using k by (intro bit_word_eqI) (auto simp: nth_STORE64LE [OF k] bit_byte_of bit_LOAD64LE)
qed simp

lemma LOAD64LE_STORE64LE: "LOAD64LE (STORE64LE a) 0 = a"
proof (rule bit_word_eqI)
  fix n assume n: "n < LENGTH(64)"
  then have "n div 8 < 8" by auto
  then show "bit (LOAD64LE (STORE64LE a) 0) n = bit a n"
    using n by (simp add: bit_LOAD64LE nth_STORE64LE bit_byte_of)
qed

lemma length_STORE64BE [simp]: "length (STORE64BE a) = 8"
  by (simp add: STORE64BE_def)

lemma nth_STORE64BE: "k < 8 \<Longrightarrow> STORE64BE a ! k = ucast (drop_bit (8 * (7 - k)) a)"
proof -
  assume "k < 8"
  then have "k \<in> {0, 1, 2, 3, 4, 5, 6, 7}" by auto
  then show ?thesis by (elim insertE emptyE; simp add: STORE64BE_def ucast_and_FF)
qed

lemma STORE64BE_LOAD64BE: "length p = 8 \<Longrightarrow> STORE64BE (LOAD64BE p 0) = p"
proof (rule nth_equalityI)
  fix k assume "length p = 8" and "k < length (STORE64BE (LOAD64BE p 0))"
  then have k: "k < 8" by simp
  show "STORE64BE (LOAD64BE p 0) ! k = p ! k"
    using k by (intro bit_word_eqI) (auto simp: nth_STORE64BE [OF k] bit_byte_of bit_LOAD64BE)
qed simp

lemma LOAD64BE_STORE64BE: "LOAD64BE (STORE64BE a) 0 = a"
proof (rule bit_word_eqI)
  fix n assume n: "n < LENGTH(64)"
  then have "n div 8 < 8" by auto
  then show "bit (LOAD64BE (STORE64BE a) 0) n = bit a n"
    using n by (simp add: bit_LOAD64BE nth_STORE64BE bit_byte_of)
qed

section \<open>A byte swap exchanges the byte orders\<close>

lemma push_bit_and_slot:
  fixes x :: "'a::len word"
  shows "push_bit s (x AND push_bit (8 * k) (mask 8)) =
    push_bit (s + 8 * k) (ucast (ucast (drop_bit (8 * k) x) :: u8))"
  by (rule bit_word_eqI) (auto simp: bit_simps bit_mask_iff)

lemma drop_bit_and_slot:
  fixes x :: "'a::len word"
  shows "d \<le> 8 * k \<Longrightarrow> drop_bit d (x AND push_bit (8 * k) (mask 8)) =
    push_bit (8 * k - d) (ucast (ucast (drop_bit (8 * k) x) :: u8))"
  by (rule bit_word_eqI) (auto simp: bit_simps bit_mask_iff add.commute dest: bit_imp_le_length)

lemma LOAD16BE_rev: "length p = 2 \<Longrightarrow> LOAD16BE p 0 = LOAD16LE (rev p) 0"
  by (simp add: LOAD16BE_def LOAD16LE_def rev_nth ac_simps numeral_2_eq_2)

lemma STORE16BE_rev: "STORE16BE a = rev (STORE16LE a)"
  by (simp add: STORE16BE_def STORE16LE_def)

lemma SWAPINT16_bytes: "SWAPINT16 x = LOAD16LE (rev (STORE16LE x)) 0"
proof -
  have m0: "0x00FF = (push_bit 0 (mask 8) :: u16)"
    by (simp add: mask_eq_exp_minus_1)
  have m1: "0xFF00 = (push_bit 8 (mask 8) :: u16)"
    by (simp add: mask_eq_exp_minus_1)
  have "SWAPINT16 x = LOAD16BE (STORE16LE x) 0"
    unfolding SWAPINT16_def m0 m1
    using push_bit_and_slot [where k = 0 and s = 8 and x = x]
      drop_bit_and_slot [where k = 1 and d = 8 and x = x]
    by (simp add: LOAD16BE_def STORE16LE_def ucast_and_FF)
  then show ?thesis by (simp add: LOAD16BE_rev)
qed

lemma STORE_SWAPINT16: "STORE16LE (SWAPINT16 a) = STORE16BE a"
  by (simp add: SWAPINT16_bytes STORE16LE_LOAD16LE STORE16BE_rev)

lemma SWAPINT16_involution [simp]: "SWAPINT16 (SWAPINT16 a) = a"
  by (simp add: SWAPINT16_bytes STORE16LE_LOAD16LE LOAD16LE_STORE16LE)

lemma SWAPINT16_LOAD: "length p = 2 \<Longrightarrow> SWAPINT16 (LOAD16LE p 0) = LOAD16BE p 0"
  by (simp add: SWAPINT16_bytes STORE16LE_LOAD16LE LOAD16BE_rev)

lemma LOAD32BE_rev: "length p = 4 \<Longrightarrow> LOAD32BE p 0 = LOAD32LE (rev p) 0"
  by (simp add: LOAD32BE_def LOAD32LE_def rev_nth ac_simps numeral_2_eq_2)

lemma STORE32BE_rev: "STORE32BE a = rev (STORE32LE a)"
  by (simp add: STORE32BE_def STORE32LE_def)

lemma SWAPINT32_bytes: "SWAPINT32 x = LOAD32LE (rev (STORE32LE x)) 0"
proof -
  have m0: "0x000000FF = (push_bit 0 (mask 8) :: u32)"
    by (simp add: mask_eq_exp_minus_1)
  have m1: "0x0000FF00 = (push_bit 8 (mask 8) :: u32)"
    by (simp add: mask_eq_exp_minus_1)
  have m2: "0x00FF0000 = (push_bit 16 (mask 8) :: u32)"
    by (simp add: mask_eq_exp_minus_1)
  have m3: "0xFF000000 = (push_bit 24 (mask 8) :: u32)"
    by (simp add: mask_eq_exp_minus_1)
  have "SWAPINT32 x = LOAD32BE (STORE32LE x) 0"
    unfolding SWAPINT32_def m0 m1 m2 m3
    using push_bit_and_slot [where k = 0 and s = 24 and x = x]
      push_bit_and_slot [where k = 1 and s = 8 and x = x]
      drop_bit_and_slot [where k = 2 and d = 8 and x = x]
      drop_bit_and_slot [where k = 3 and d = 24 and x = x]
    by (simp add: LOAD32BE_def STORE32LE_def ucast_and_FF)
  then show ?thesis by (simp add: LOAD32BE_rev)
qed

lemma STORE_SWAPINT32: "STORE32LE (SWAPINT32 a) = STORE32BE a"
  by (simp add: SWAPINT32_bytes STORE32LE_LOAD32LE STORE32BE_rev)

lemma SWAPINT32_involution [simp]: "SWAPINT32 (SWAPINT32 a) = a"
  by (simp add: SWAPINT32_bytes STORE32LE_LOAD32LE LOAD32LE_STORE32LE)

lemma SWAPINT32_LOAD: "length p = 4 \<Longrightarrow> SWAPINT32 (LOAD32LE p 0) = LOAD32BE p 0"
  by (simp add: SWAPINT32_bytes STORE32LE_LOAD32LE LOAD32BE_rev)

lemma LOAD64BE_rev: "length p = 8 \<Longrightarrow> LOAD64BE p 0 = LOAD64LE (rev p) 0"
  by (simp add: LOAD64BE_def LOAD64LE_def rev_nth ac_simps numeral_2_eq_2)

lemma STORE64BE_rev: "STORE64BE a = rev (STORE64LE a)"
  by (simp add: STORE64BE_def STORE64LE_def)

lemma SWAPINT64_bytes: "SWAPINT64 x = LOAD64LE (rev (STORE64LE x)) 0"
proof -
  have m0: "0x00000000000000FF = (push_bit 0 (mask 8) :: u64)"
    by (simp add: mask_eq_exp_minus_1)
  have m1: "0x000000000000FF00 = (push_bit 8 (mask 8) :: u64)"
    by (simp add: mask_eq_exp_minus_1)
  have m2: "0x0000000000FF0000 = (push_bit 16 (mask 8) :: u64)"
    by (simp add: mask_eq_exp_minus_1)
  have m3: "0x00000000FF000000 = (push_bit 24 (mask 8) :: u64)"
    by (simp add: mask_eq_exp_minus_1)
  have m4: "0x000000FF00000000 = (push_bit 32 (mask 8) :: u64)"
    by (simp add: mask_eq_exp_minus_1)
  have m5: "0x0000FF0000000000 = (push_bit 40 (mask 8) :: u64)"
    by (simp add: mask_eq_exp_minus_1)
  have m6: "0x00FF000000000000 = (push_bit 48 (mask 8) :: u64)"
    by (simp add: mask_eq_exp_minus_1)
  have m7: "0xFF00000000000000 = (push_bit 56 (mask 8) :: u64)"
    by (simp add: mask_eq_exp_minus_1)
  have "SWAPINT64 x = LOAD64BE (STORE64LE x) 0"
    unfolding SWAPINT64_def m0 m1 m2 m3 m4 m5 m6 m7
    using push_bit_and_slot [where k = 0 and s = 56 and x = x]
      push_bit_and_slot [where k = 1 and s = 40 and x = x]
      push_bit_and_slot [where k = 2 and s = 24 and x = x]
      push_bit_and_slot [where k = 3 and s = 8 and x = x]
      drop_bit_and_slot [where k = 4 and d = 8 and x = x]
      drop_bit_and_slot [where k = 5 and d = 24 and x = x]
      drop_bit_and_slot [where k = 6 and d = 40 and x = x]
      drop_bit_and_slot [where k = 7 and d = 56 and x = x]
    by (simp add: LOAD64BE_def STORE64LE_def ucast_and_FF)
  then show ?thesis by (simp add: LOAD64BE_rev)
qed

lemma STORE_SWAPINT64: "STORE64LE (SWAPINT64 a) = STORE64BE a"
  by (simp add: SWAPINT64_bytes STORE64LE_LOAD64LE STORE64BE_rev)

lemma SWAPINT64_involution [simp]: "SWAPINT64 (SWAPINT64 a) = a"
  by (simp add: SWAPINT64_bytes STORE64LE_LOAD64LE LOAD64LE_STORE64LE)

lemma SWAPINT64_LOAD: "length p = 8 \<Longrightarrow> SWAPINT64 (LOAD64LE p 0) = LOAD64BE p 0"
  by (simp add: SWAPINT64_bytes STORE64LE_LOAD64LE LOAD64BE_rev)

section \<open>Word arrays seen as bytes\<close>

text \<open>
  \<open>reinterpret_cast<uint8_t*>\<close> of a \<open>uint32_t\<close> array on the little-endian hosts the library is
  built for, and its inverse.
\<close>

definition bytes_of_words :: "u32 list \<Rightarrow> bytes" where
  "bytes_of_words ws = concat (map STORE32LE ws)"

definition words_of_bytes :: "bytes \<Rightarrow> u32 list" where
  "words_of_bytes bs = map (\<lambda>c. LOAD32LE c 0) (chunks 4 bs)"

lemma length_bytes_of_words [simp]: "length (bytes_of_words ws) = 4 * length ws"
  by (induction ws) (simp_all add: bytes_of_words_def)

lemma words_of_bytes_of_words [simp]: "words_of_bytes (bytes_of_words ws) = ws"
  by (induction ws)
    (simp_all add: words_of_bytes_def bytes_of_words_def chunks_append LOAD32LE_STORE32LE)

lemma length_chunks_mult: "0 < n \<Longrightarrow> length xs = n * k \<Longrightarrow> length (chunks n xs) = k"
proof (induction k arbitrary: xs)
  case (Suc k)
  then have "xs \<noteq> []" by auto
  then show ?case using Suc by (simp add: chunks_step)
qed simp

lemma length_words_of_bytes: "length bs = 4 * k \<Longrightarrow> length (words_of_bytes bs) = k"
  by (simp add: words_of_bytes_def length_chunks_mult)

lemma bytes_of_words_of_bytes: "4 dvd length bs \<Longrightarrow> bytes_of_words (words_of_bytes bs) = bs"
proof -
  assume d: "4 dvd length bs"
  have "map (STORE32LE \<circ> (\<lambda>c. LOAD32LE c 0)) (chunks 4 bs) = map (\<lambda>c. c) (chunks 4 bs)"
    using length_chunks_dvd [OF _ d] by (intro map_cong) (simp_all add: STORE32LE_LOAD32LE)
  then show ?thesis
    by (simp add: bytes_of_words_def words_of_bytes_def concat_chunks)
qed

end
