(* ===== verification/Ez_Codec.thy ===== *)
theory Ez_Codec
  imports Ez_Bytes
begin

text \<open>
  The contract shared by the library's text encodings (\<open>ez::hex\<close>, \<open>ez::base64\<close>,
  \<open>ez::url\<close>): decoding gives back what was encoded, the encoder only writes characters of
  its alphabet, and its output fits the size the caller allocates. What every client may
  conclude from the contract is proved here once; the encoders' theories interpret it.
\<close>

locale codec =
  fixes encode :: "bytes \<Rightarrow> bytes"
    and decode :: "bytes \<Rightarrow> bytes res"
    and alphabet :: "u8 set"
    and room :: "nat \<Rightarrow> nat"
  assumes decode_encode: "decode (encode bs) = Inr bs"
    and encode_alphabet: "set (encode bs) \<subseteq> alphabet"
    and encode_room: "length (encode bs) \<le> room (length bs)"
begin

lemma encode_inj: "encode a = encode b \<longleftrightarrow> a = b"
  by (metis decode_encode sum.inject(2))

lemma reencode: "s \<in> range encode \<Longrightarrow> decode s = Inr bs \<Longrightarrow> encode bs = s"
  by (auto simp: decode_encode)

lemma decode_range: "s \<in> range encode \<Longrightarrow> \<exists>bs. decode s = Inr bs \<and> encode bs = s"
  by (auto simp: decode_encode)

lemma foreign_char: "c \<notin> alphabet \<Longrightarrow> c \<notin> set (encode bs)"
  using encode_alphabet by blast

text \<open>
  Fields joined by a character outside the alphabet can be split again: the first occurrence of
  the separator ends the first field.
\<close>

lemma field_takeWhile:
  assumes "sep \<notin> alphabet"
  shows "takeWhile (\<lambda>c. c \<noteq> sep) (encode a @ sep # rest) = encode a"
proof -
  have "\<forall>c \<in> set (encode a). c \<noteq> sep" using foreign_char [OF assms] by metis
  then show ?thesis by (simp add: takeWhile_append)
qed

lemma field_decode:
  assumes "sep \<notin> alphabet"
  shows "decode (takeWhile (\<lambda>c. c \<noteq> sep) (encode a @ sep # rest)) = Inr a"
  by (simp add: field_takeWhile [OF assms] decode_encode)

end

end
