(* ===== verification/Ez_Hex.thy ===== *)
theory Ez_Hex
  imports Ez_Codec
begin

text \<open>
  \<open>ez::hex\<close> (\<open>source/hex.cpp\<close>). The pointer versions write through \<open>_result\<close>; the model
  of the encoder gives the characters written, in order, and the model of the decoder takes the
  bytes that \<open>_result\<close> points to before the call, because a character that is no hex digit
  leaves its half of the old byte in place.
\<close>

section \<open>Encoding\<close>

definition hex_encoded_size :: "u64 \<Rightarrow> u64" where
  "hex_encoded_size src_size = src_size * 2"

definition hex_digits :: bytes where
  "hex_digits = str ''0123456789abcdef''"

definition hex_digits_up :: bytes where
  "hex_digits_up = str ''0123456789ABCDEF''"

fun hex_encode_chars :: "bytes \<Rightarrow> bool \<Rightarrow> bytes" where
  "hex_encode_chars [] upper = []"
| "hex_encode_chars (d # src) upper =
     (if upper then
        [hex_digits_up ! unat (drop_bit 4 (d AND 0xf0)), hex_digits_up ! unat (d AND 0x0f)]
      else
        [hex_digits ! unat (drop_bit 4 (d AND 0xf0)), hex_digits ! unat (d AND 0x0f)])
     @ hex_encode_chars src upper"

text \<open>The string version resizes a string to the encoded size and writes into it.\<close>

definition hex_encode :: "bytes \<Rightarrow> bool \<Rightarrow> bytes" where
  "hex_encode src upper =
     memcpy_at (replicate (length src * 2) 0) 0 (hex_encode_chars src upper)"

section \<open>Decoding\<close>

definition hex_first :: "u8 \<Rightarrow> u8 \<Rightarrow> u8" where
  "hex_first bfr s1 =
     (if ch CHR ''0'' \<le> s1 \<and> s1 \<le> ch CHR ''9'' then push_bit 4 (s1 - ch CHR ''0'')
      else if ch CHR ''a'' \<le> s1 \<and> s1 \<le> ch CHR ''f'' then push_bit 4 (s1 - ch CHR ''a'' + 10)
      else if ch CHR ''A'' \<le> s1 \<and> s1 \<le> ch CHR ''F'' then push_bit 4 (s1 - ch CHR ''A'' + 10)
      else bfr)"

definition hex_second :: "u8 \<Rightarrow> u8 \<Rightarrow> u8" where
  "hex_second bfr s2 =
     (if ch CHR ''0'' \<le> s2 \<and> s2 \<le> ch CHR ''9'' then bfr OR (s2 - ch CHR ''0'')
      else if ch CHR ''a'' \<le> s2 \<and> s2 \<le> ch CHR ''f'' then bfr OR (s2 - ch CHR ''a'' + 10)
      else if ch CHR ''A'' \<le> s2 \<and> s2 \<le> ch CHR ''F'' then bfr OR (s2 - ch CHR ''A'' + 10)
      else bfr)"

text \<open>
  The loop of \<open>decode(const char*, size_t, uint8_t*)\<close>: two characters per byte of the target.
  A target that is too short is written past its end.
\<close>

fun hex_decode_loop :: "bytes \<Rightarrow> bytes \<Rightarrow> bytes res" where
  "hex_decode_loop (s1 # s2 # src) (b # bfr) =
     bind_res (hex_decode_loop src bfr)
       (\<lambda>out. Inr (hex_second (hex_first b s1) s2 # out))"
| "hex_decode_loop (s1 # s2 # src) [] = Inl (Undefined ''hex: write past the end of the result'')"
| "hex_decode_loop [] bfr = Inr bfr"
| "hex_decode_loop [s1] bfr = Inl (Undefined ''hex: read past the end of the source'')"

definition hex_decode_to :: "bytes \<Rightarrow> bytes \<Rightarrow> bytes res" where
  "hex_decode_to src result =
     (if length src mod 2 \<noteq> 0 then Inl (Throw (Runtime_error ''hex: invalid source''))
      else hex_decode_loop src result)"

definition hex_decode :: "bytes \<Rightarrow> bytes res" where
  "hex_decode src =
     (if length src mod 2 \<noteq> 0 then Inl (Throw (Runtime_error ''hex: invalid source''))
      else hex_decode_to src (replicate (length src div 2) 0))"

section \<open>Digits\<close>

text \<open>The value of a hex digit, \<open>None\<close> for any other character.\<close>

definition hex_value :: "u8 \<Rightarrow> u8 option" where
  "hex_value c =
     (if ch CHR ''0'' \<le> c \<and> c \<le> ch CHR ''9'' then Some (c - ch CHR ''0'')
      else if ch CHR ''a'' \<le> c \<and> c \<le> ch CHR ''f'' then Some (c - ch CHR ''a'' + 10)
      else if ch CHR ''A'' \<le> c \<and> c \<le> ch CHR ''F'' then Some (c - ch CHR ''A'' + 10)
      else None)"

lemma hex_first_value: "hex_first b c = (case hex_value c of Some v \<Rightarrow> push_bit 4 v | None \<Rightarrow> b)"
  by (simp add: hex_first_def hex_value_def)

lemma hex_second_value: "hex_second b c = (case hex_value c of Some v \<Rightarrow> b OR v | None \<Rightarrow> b)"
  by (simp add: hex_second_def hex_value_def)

lemma nibbles:
  "unat (drop_bit 4 (d AND 0xf0 :: u8)) < 16" "unat (d AND 0x0f :: u8) < 16"
  "push_bit 4 (drop_bit 4 (d AND 0xf0)) OR (d AND 0x0f) = d"
proof -
  have "(0x0f :: u8) = mask 4" "(0xf0 :: u8) = push_bit 4 (mask 4)"
    by (simp_all add: mask_eq_exp_minus_1)
  note m = this
  have "d AND 0x0f = take_bit 4 d" by (simp add: take_bit_eq_mask m)
  then show "unat (d AND 0x0f) < 16"
    using take_bit_nat_less_exp [of 4 "unat d"] by (simp add: unsigned_take_bit_eq)
  have "drop_bit 4 (d AND 0xf0) = take_bit 4 (drop_bit 4 d)"
    by (rule bit_word_eqI) (auto simp: m bit_simps bit_mask_iff)
  then show "unat (drop_bit 4 (d AND 0xf0)) < 16"
    using take_bit_nat_less_exp [of 4 "unat (drop_bit 4 d)"] by (simp add: unsigned_take_bit_eq)
  show "push_bit 4 (drop_bit 4 (d AND 0xf0)) OR (d AND 0x0f) = d"
    by (rule bit_word_eqI) (auto simp: m bit_simps bit_mask_iff)
qed

lemma hex_value_digits:
  assumes "n < 16"
  shows "hex_value (hex_digits ! n) = Some (of_nat n)"
    and "hex_value (hex_digits_up ! n) = Some (of_nat n)"
proof -
  have "list_all (\<lambda>n. hex_value (hex_digits ! n) = Some (of_nat n) \<and>
    hex_value (hex_digits_up ! n) = Some (of_nat n)) [0..<16]"
    by code_simp
  then show "hex_value (hex_digits ! n) = Some (of_nat n)"
    and "hex_value (hex_digits_up ! n) = Some (of_nat n)"
    using assms by (simp_all add: list_all_iff)
qed

section \<open>What the encoder writes\<close>

lemma length_hex_encode_chars [simp]: "length (hex_encode_chars src u) = 2 * length src"
  by (induction src) auto

lemma hex_encode_chars_eq: "hex_encode src u = hex_encode_chars src u"
  by (simp add: hex_encode_def memcpy_at_full)

definition hex_alphabet :: "bool \<Rightarrow> u8 set" where
  "hex_alphabet u = set (if u then hex_digits_up else hex_digits)"

lemma length_hex_digits [simp]: "length hex_digits = 16" "length hex_digits_up = 16"
  by (simp_all add: hex_digits_def hex_digits_up_def)

lemma hex_encode_chars_alphabet: "set (hex_encode_chars src u) \<subseteq> hex_alphabet u"
  by (induction src) (auto simp: hex_alphabet_def nibbles)

section \<open>The decoder reads back what the encoder wrote\<close>

lemma hex_decode_pair:
  assumes "hex_value s1 = Some (drop_bit 4 (d AND 0xf0))" and "hex_value s2 = Some (d AND 0x0f)"
  shows "hex_second (hex_first b s1) s2 = d"
  unfolding hex_first_value hex_second_value assms option.case by (rule nibbles)

lemma hex_decode_loop_encode:
  "length bfr = length bs \<Longrightarrow> hex_decode_loop (hex_encode_chars bs u) bfr = Inr bs"
proof (induction bs arbitrary: bfr)
  case (Cons d bs)
  then obtain b bfr' where "bfr = b # bfr'" "length bfr' = length bs"
    by (auto simp: length_Suc_conv)
  then show ?case
    using Cons.IH hex_value_digits [OF nibbles(1) [of d]] hex_value_digits [OF nibbles(2) [of d]]
    by (cases u) (simp_all add: hex_decode_pair del: drop_bit_and)
qed simp

lemma hex_decode_encode: "hex_decode (hex_encode bs u) = Inr bs"
  by (simp add: hex_decode_def hex_decode_to_def hex_encode_chars_eq hex_decode_loop_encode)

lemmas hex_codec_laws =
  hex_decode_encode [unfolded hex_encode_chars_eq] hex_encode_chars_eq hex_encode_chars_alphabet

interpretation hex_lower: codec "\<lambda>bs. hex_encode bs False" hex_decode "hex_alphabet False" "\<lambda>n. 2 * n"
  by unfold_locales (simp_all add: hex_codec_laws)

interpretation hex_upper: codec "\<lambda>bs. hex_encode bs True" hex_decode "hex_alphabet True" "\<lambda>n. 2 * n"
  by unfold_locales (simp_all add: hex_codec_laws)

section \<open>What the decoder computes on any text\<close>

text \<open>
  The reference: each pair of characters is a byte, and a character that is no hex digit counts
  as the digit zero.
\<close>

definition hex_digit_or_zero :: "u8 \<Rightarrow> u8" where
  "hex_digit_or_zero c = (case hex_value c of Some v \<Rightarrow> v | None \<Rightarrow> 0)"

fun hex_pairs :: "bytes \<Rightarrow> bytes" where
  "hex_pairs (a # b # s) = (16 * hex_digit_or_zero a + hex_digit_or_zero b) # hex_pairs s"
| "hex_pairs _ = []"

lemma hex_value_less: "hex_value c = Some v \<Longrightarrow> unat v < 16"
  by (auto simp: hex_value_def word_le_nat_alt unat_sub unat_word_ariths split: if_splits)

lemma hex_pair_value:
  "hex_second (hex_first 0 a) b = 16 * hex_digit_or_zero a + hex_digit_or_zero b"
proof -
  have "unat (hex_digit_or_zero b) < 2 ^ 4"
    by (simp add: hex_digit_or_zero_def hex_value_less split: option.split)
  from push_or_add [OF this, of "hex_digit_or_zero a"] show ?thesis
    by (simp add: hex_first_value hex_second_value hex_digit_or_zero_def split: option.splits)
qed

lemma hex_decode_loop_total:
  "even (length src) \<Longrightarrow> hex_decode_loop src (replicate (length src div 2) 0) = Inr (hex_pairs src)"
  by (induction src rule: hex_pairs.induct) (simp_all add: hex_pair_value)

lemma hex_value_alphabet:
  assumes "c \<in> hex_alphabet u"
  obtains n where "n < 16" "hex_value c = Some (of_nat n)"
    "c = (if u then hex_digits_up else hex_digits) ! n"
  using assms hex_value_digits by (auto simp: hex_alphabet_def in_set_conv_nth split: if_splits)

lemma hex_digits_nibbles:
  assumes "m < 16" and "n < 16"
  shows "unat (drop_bit 4 ((16 * of_nat m + of_nat n :: u8) AND 0xf0)) = m"
    and "unat ((16 * of_nat m + of_nat n :: u8) AND 0x0f) = n"
proof -
  have "list_all (\<lambda>m. list_all (\<lambda>n.
      unat (drop_bit 4 ((16 * of_nat m + of_nat n :: u8) AND 0xf0)) = m \<and>
      unat ((16 * of_nat m + of_nat n :: u8) AND 0x0f) = n) [0..<16]) [0..<16]"
    by code_simp
  then show "unat (drop_bit 4 ((16 * of_nat m + of_nat n :: u8) AND 0xf0)) = m"
    and "unat ((16 * of_nat m + of_nat n :: u8) AND 0x0f) = n"
    using assms by (simp_all add: list_all_iff del: drop_bit_and)
qed

lemma hex_encode_pairs:
  "even (length s) \<Longrightarrow> set s \<subseteq> hex_alphabet u \<Longrightarrow> hex_encode_chars (hex_pairs s) u = s"
proof (induction s rule: hex_pairs.induct)
  case (1 a b s)
  from "1.prems" have "a \<in> hex_alphabet u" "b \<in> hex_alphabet u" by auto
  then obtain m n where mn: "m < 16" "n < 16"
    "hex_value a = Some (of_nat m)" "hex_value b = Some (of_nat n)"
    "a = (if u then hex_digits_up else hex_digits) ! m"
    "b = (if u then hex_digits_up else hex_digits) ! n"
    by (metis hex_value_alphabet)
  have "hex_encode_chars (hex_pairs s) u = s" using 1 by simp
  then show ?case
    using mn hex_digits_nibbles [OF mn(1,2)] by (simp add: hex_digit_or_zero_def del: drop_bit_and)
qed auto

section \<open>Properties\<close>

text \<open>decoding the hex text of any bytes, in either letter case, gives the bytes back.\<close>

theorem hex_roundtrip: "hex_decode (hex_encode bs upper) = Inr bs"
  by (rule hex_decode_encode)

text \<open>the decoder throws exactly on texts of odd length. On every other text it returns
  one byte per pair of characters, a character that is no hex digit counting as zero: bad digits
  are never reported.\<close>

theorem hex_decode_behaviour:
  "hex_decode src =
     (if odd (length src) then Inl (Throw (Runtime_error ''hex: invalid source''))
      else Inr (hex_pairs src))"
  using hex_decode_loop_total [of src]
  by (auto simp: hex_decode_def hex_decode_to_def even_iff_mod_2_eq_zero)

text \<open>on canonical text (even length, digits of one letter case) decoding loses nothing:
  it succeeds and encoding the result in that case gives the text back.\<close>

theorem hex_decode_canonical:
  assumes "even (length s)" and "set s \<subseteq> hex_alphabet upper"
  shows "\<exists>bs. hex_decode s = Inr bs \<and> 2 * length bs = length s \<and> hex_encode bs upper = s"
proof (intro exI conjI)
  show "hex_decode s = Inr (hex_pairs s)"
    using assms by (simp add: hex_decode_def hex_decode_to_def hex_decode_loop_total)
  show "hex_encode (hex_pairs s) upper = s"
    using assms by (simp add: hex_encode_chars_eq hex_encode_pairs)
  then show "2 * length (hex_pairs s) = length s"
    by (metis hex_encode_chars_eq length_hex_encode_chars)
qed

theorem hex_decode_canonical_witness:
  "\<exists>bs. hex_decode (str ''0aff'') = Inr bs \<and> 2 * length bs = length (str ''0aff'')
     \<and> hex_encode bs False = str ''0aff''"
  by (rule hex_decode_canonical) (simp_all add: hex_alphabet_def hex_digits_def)

end
