(* ===== verification/Ez_Base64.thy ===== *)
theory Ez_Base64
  imports Ez_Codec
begin

text \<open>
  \<open>ez::base64\<close> (\<open>source/base64.cpp\<close>). The size functions keep \<open>size_t\<close> as 64-bit words; the
  buffer loops index lists, whose lengths stand for sizes of objects in memory. The decoder's
  table has 128 entries and the guard before it is a comparison of signed characters, so a byte
  above 127 reads outside the table: that read is the \<open>Undefined\<close> outcome.
\<close>

section \<open>Sizes\<close>

lemma unat_numeral_3: "unat (3 :: u64) = 3"
  by simp

lemma unat_numeral_4: "unat (4 :: u64) = 4"
  by simp

lemma unat_succ3: "unat n mod 3 \<noteq> 0 \<Longrightarrow> unat (n + 1 :: u64) = Suc (unat n)"
proof -
  assume "unat n mod 3 \<noteq> 0"
  then have "unat n \<noteq> 2 ^ 64 - 1" by auto
  then have "unat n + 1 < 2 ^ 64" using unsigned_less [of n, where ?'a = nat] by simp
  then show ?thesis by (simp add: unat_word_ariths)
qed

lemma unat_succ_mod4: "unat (n + 1 :: u64) mod 4 = Suc (unat n) mod 4"
proof -
  have "(unat n + 1) mod 2 ^ 64 mod 4 = (unat n + 1) mod 4" by (rule mod_mod_cancel) simp
  then show ?thesis by (simp add: unat_word_ariths)
qed

function base64_round3 :: "u64 \<Rightarrow> u64" where
  "base64_round3 ret_size = (if ret_size mod 3 \<noteq> 0 then base64_round3 (ret_size + 1) else ret_size)"
  by pat_completeness auto
termination
proof (relation "measure (\<lambda>n. (3 - unat n mod 3) mod 3)")
  fix n :: u64
  assume "n mod 3 \<noteq> 0"
  then have "unat (n mod 3) \<noteq> 0" by (simp add: unat_eq_zero)
  then have "unat n mod 3 \<noteq> 0" by (simp add: unat_mod)
  moreover from this have "unat (n + 1) = Suc (unat n)" by (rule unat_succ3)
  ultimately show "(n + 1, n) \<in> measure (\<lambda>n. (3 - unat n mod 3) mod 3)"
    by (auto simp: mod_Suc split: if_splits)
qed simp

definition base64_encoded_size :: "u64 \<Rightarrow> u64" where
  "base64_encoded_size src_size = (4 * base64_round3 src_size) div 3"

function base64_round4 :: "u64 \<Rightarrow> u64" where
  "base64_round4 src_size = (if src_size mod 4 \<noteq> 0 then base64_round4 (src_size + 1) else src_size)"
  by pat_completeness auto
termination
proof (relation "measure (\<lambda>n. (4 - unat n mod 4) mod 4)")
  fix n :: u64
  assume "n mod 4 \<noteq> 0"
  then have "unat (n mod 4) \<noteq> 0" by (simp add: unat_eq_zero)
  then have "unat n mod 4 \<noteq> 0" by (simp add: unat_mod)
  then show "(n + 1, n) \<in> measure (\<lambda>n. (4 - unat n mod 4) mod 4)"
    by (auto simp: unat_succ_mod4 mod_Suc split: if_splits)
qed simp

definition base64_decoded_size :: "u64 \<Rightarrow> u64" where
  "base64_decoded_size src_size = (3 * base64_round4 src_size) div 4"

declare base64_round3.simps [simp del] base64_round4.simps [simp del]

section \<open>Encoding\<close>

definition to_base64 :: bytes where
  "to_base64 = str ''ABCDEFGHIJKLMNOPQRSTUVWXYZabcdefghijklmnopqrstuvwxyz0123456789+/'' @ [0]"

text \<open>The rounding loop of the encoder, which also counts the missing bytes.\<close>

function base64_pad :: "nat \<Rightarrow> nat \<Rightarrow> nat \<times> nat" where
  "base64_pad ret_size missing =
     (if ret_size mod 3 \<noteq> 0 then base64_pad (Suc ret_size) (Suc missing) else (ret_size, missing))"
  by pat_completeness auto
termination
  by (relation "measure (\<lambda>(n, m). (3 - n mod 3) mod 3)") (auto simp: mod_Suc split: if_splits)

declare base64_pad.simps [simp del]

text \<open>One iteration of the encoder's loop: three source bytes, zero past the end, to four characters.\<close>

definition base64_quad :: "bytes \<Rightarrow> nat \<Rightarrow> bytes" where
  "base64_quad src i =
     (let index = i * 3;
          b3_0 = (if index + 0 < length src then src ! (index + 0) else 0);
          b3_1 = (if index + 1 < length src then src ! (index + 1) else 0);
          b3_2 = (if index + 2 < length src then src ! (index + 2) else 0);
          b4_0 = drop_bit 2 (b3_0 AND 0xfc);
          b4_1 = push_bit 4 (b3_0 AND 0x03) + drop_bit 4 (b3_1 AND 0xf0);
          b4_2 = push_bit 2 (b3_1 AND 0x0f) + drop_bit 6 (b3_2 AND 0xc0);
          b4_3 = push_bit 0 (b3_2 AND 0x3f)
      in [to_base64 ! unat b4_0, to_base64 ! unat b4_1, to_base64 ! unat b4_2, to_base64 ! unat b4_3])"

text \<open>
  The characters that \<open>encode(src, size, char*)\<close> leaves at \<open>_result\<close>: the quads, then \<open>=\<close> over
  the last \<open>missing\<close> of them.
\<close>

definition base64_encode_chars :: "bytes \<Rightarrow> bytes" where
  "base64_encode_chars src =
     (let (rounded, missing) = base64_pad (length src) 0;
          ret_size = 4 * rounded div 3;
          buf = concat (map (base64_quad src) [0..<ret_size div 4])
      in fold (\<lambda>i result. result[ret_size - i - 1 := ch CHR ''='']) [0..<missing] buf)"

definition base64_encode :: "bytes \<Rightarrow> bytes" where
  "base64_encode src =
     memcpy_at (replicate (unat (base64_encoded_size (of_nat (length src)))) 0) 0 (base64_encode_chars src)"

section \<open>Decoding\<close>

definition from_base64 :: bytes where
  "from_base64 =
    [255, 255, 255, 255, 255, 255, 255, 255, 255, 255, 255, 255, 255, 255, 255, 255,
     255, 255, 255, 255, 255, 255, 255, 255, 255, 255, 255, 255, 255, 255, 255, 255,
     255, 255, 255, 255, 255, 255, 255, 255, 255, 255, 255,  62, 255,  62, 255,  63,
      52,  53,  54,  55,  56,  57,  58,  59,  60,  61, 255, 255,   0, 255, 255, 255,
     255,   0,   1,   2,   3,   4,   5,   6,   7,   8,   9,  10,  11,  12,  13,  14,
      15,  16,  17,  18,  19,  20,  21,  22,  23,  24,  25, 255, 255, 255, 255,  63,
     255,  26,  27,  28,  29,  30,  31,  32,  33,  34,  35,  36,  37,  38,  39,  40,
      41,  42,  43,  44,  45,  46,  47,  48,  49,  50,  51, 255, 255, 255, 255, 255]"

text \<open>\<open>_src[i] <= 'z'\<close> compares signed characters; the table is indexed by the unsigned one.\<close>

definition base64_value :: "u8 \<Rightarrow> u8 res" where
  "base64_value c =
     (if c \<le>s ch CHR ''z''
      then (if unat c < 128 then Inr (from_base64 ! unat c)
            else Inl (Undefined ''base64: read past the end of from_base64''))
      else Inr 0xff)"

definition base64_value_at :: "bytes \<Rightarrow> nat \<Rightarrow> u8 res" where
  "base64_value_at src i = (if i < length src then base64_value (src ! i) else Inr 0xff)"

definition base64_triple :: "u8 \<Rightarrow> u8 \<Rightarrow> u8 \<Rightarrow> u8 \<Rightarrow> bytes" where
  "base64_triple b4_0 b4_1 b4_2 b4_3 =
     (let b3_0 = push_bit 2 (b4_0 AND 0x3f) + drop_bit 4 (b4_1 AND 0x30);
          b3_1 = push_bit 4 (b4_1 AND 0x0f) + drop_bit 2 (b4_2 AND 0x3c);
          b3_2 = push_bit 6 (b4_2 AND 0x03) + drop_bit 0 (b4_3 AND 0x3f)
      in (if b4_1 \<noteq> 0xff then [b3_0] else []) @
         (if b4_2 \<noteq> 0xff then [b3_1] else []) @
         (if b4_3 \<noteq> 0xff then [b3_2] else []))"

text \<open>One iteration of the decoder's loop at source index \<open>i\<close>: the bytes it appends.\<close>

definition base64_step :: "bytes \<Rightarrow> nat \<Rightarrow> bytes res" where
  "base64_step src i =
     bind_res (base64_value (src ! (i + 0))) (\<lambda>b4_0.
     bind_res (base64_value_at src (i + 1)) (\<lambda>b4_1.
     bind_res (base64_value_at src (i + 2)) (\<lambda>b4_2.
     bind_res (base64_value_at src (i + 3)) (\<lambda>b4_3.
       Inr (base64_triple b4_0 b4_1 b4_2 b4_3)))))"

function base64_round_up4 :: "nat \<Rightarrow> nat" where
  "base64_round_up4 n = (if n mod 4 \<noteq> 0 then base64_round_up4 (Suc n) else n)"
  by pat_completeness auto
termination
  by (relation "measure (\<lambda>n. (4 - n mod 4) mod 4)") (auto simp: mod_Suc split: if_splits)

declare base64_round_up4.simps [simp del]

function base64_decode_loop :: "bytes \<Rightarrow> nat \<Rightarrow> nat \<Rightarrow> bytes \<Rightarrow> bytes res" where
  "base64_decode_loop src encoded_size i buf =
     (if i < encoded_size
      then bind_res (base64_step src i) (\<lambda>out. base64_decode_loop src encoded_size (i + 4) (buf @ out))
      else Inr buf)"
  by pat_completeness auto
termination
  by (relation "measure (\<lambda>(src, n, i, buf). n - i)") auto

declare base64_decode_loop.simps [simp del]

text \<open>The bytes that \<open>decode(std::string_view, uint8_t*)\<close> writes from \<open>_result\<close> on.\<close>

definition base64_decode_bytes :: "bytes \<Rightarrow> bytes res" where
  "base64_decode_bytes src = base64_decode_loop src (base64_round_up4 (length src)) 0 []"

text \<open>
  The vector version writes into a vector of \<open>decoded_size\<close> bytes, then shrinks it to the number
  of bytes written. Writing more bytes than it has room for would be undefined.
\<close>

definition base64_decode :: "bytes \<Rightarrow> bytes res" where
  "base64_decode src =
     bind_res (base64_decode_bytes src) (\<lambda>out.
       let room = unat (base64_decoded_size (of_nat (length src))) in
       if length out \<le> room then Inr (take (length out) (memcpy_at (replicate room 0) 0 out))
       else Inl (Undefined ''base64: write past the end of the result''))"

section \<open>Rounding\<close>

lemma unat_base64_round3: "unat (base64_round3 n) = ceil_to 3 (unat n)"
proof (induction n rule: base64_round3.induct)
  case (1 n)
  show ?case
  proof (cases "n mod 3 = 0")
    case True
    then have "unat n mod 3 = 0" by (metis unat_0 unat_mod unat_numeral_3)
    then show ?thesis using True by (subst base64_round3.simps) (simp add: ceil_to_id)
  next
    case False
    then have m: "unat n mod 3 \<noteq> 0" by (metis unat_eq_zero unat_mod unat_numeral_3)
    have "unat (base64_round3 n) = ceil_to 3 (unat (n + 1))"
      using False "1.IH" by (subst base64_round3.simps) simp
    then show ?thesis by (simp only: unat_succ3 [OF m] ceil_to_Suc [OF m])
  qed
qed

lemma base64_encoded_size_exact:
  assumes "unat n < 2 ^ 62 - 2"
  shows "unat (base64_encoded_size n) = 4 * (ceil_to 3 (unat n) div 3)"
proof -
  have d: "3 dvd ceil_to 3 (unat n)" by (rule ceil_to_dvd)
  have "ceil_to 3 (unat n) < 2 ^ 62" using ceil_to_bounds(2) [of 3 "unat n"] assms by simp
  then have "unat (4 * base64_round3 n) = 4 * ceil_to 3 (unat n)"
    by (simp add: unat_word_ariths unat_base64_round3)
  then show ?thesis using d by (simp add: base64_encoded_size_def unat_div div_mult_swap)
qed

lemma base64_pad_eq: "base64_pad n m = (ceil_to 3 n, m + (ceil_to 3 n - n))"
proof (induction n m rule: base64_pad.induct)
  case (1 n m)
  show ?case
  proof (cases "n mod 3 = 0")
    case True
    then show ?thesis by (subst base64_pad.simps) (simp add: ceil_to_id)
  next
    case False
    then have "Suc n \<le> ceil_to 3 n" using ceil_to_bounds(1) [of 3 "Suc n"] by (simp add: ceil_to_Suc)
    then show ?thesis using False 1 by (subst base64_pad.simps) (simp add: ceil_to_Suc)
  qed
qed

lemma base64_round_up4_eq: "base64_round_up4 n = ceil_to 4 n"
proof (induction n rule: base64_round_up4.induct)
  case (1 n)
  then show ?case
    by (cases "n mod 4 = 0"; subst base64_round_up4.simps) (simp_all add: ceil_to_id ceil_to_Suc)
qed

section \<open>The encoder against RFC 4648\<close>

text \<open>
  The reference of RFC 4648, section 4: three bytes are a number of 24 bits, cut into four
  digits of six bits; a last group of one or two bytes is padded.
\<close>

definition base64_group :: "u8 \<Rightarrow> u8 \<Rightarrow> u8 \<Rightarrow> bytes" where
  "base64_group a b c =
     (let n = unat a * 2 ^ 16 + unat b * 2 ^ 8 + unat c in
      [to_base64 ! (n div 2 ^ 18), to_base64 ! (n div 2 ^ 12 mod 64),
       to_base64 ! (n div 2 ^ 6 mod 64), to_base64 ! (n mod 64)])"

fun base64_rfc :: "bytes \<Rightarrow> bytes" where
  "base64_rfc [] = []"
| "base64_rfc [a] = take 2 (base64_group a 0 0) @ [ch CHR ''='', ch CHR ''='']"
| "base64_rfc [a, b] = take 3 (base64_group a b 0) @ [ch CHR ''='']"
| "base64_rfc (a # b # c # src) = base64_group a b c @ base64_rfc src"

lemma base64_masks:
  "(0xfc :: u8) = push_bit 2 (mask 6)" "(0x03 :: u8) = mask 2" "(0xf0 :: u8) = push_bit 4 (mask 4)"
  "(0x0f :: u8) = mask 4" "(0xc0 :: u8) = push_bit 6 (mask 2)" "(0x3f :: u8) = mask 6"
  "(0x30 :: u8) = push_bit 4 (mask 2)" "(0x3c :: u8) = push_bit 2 (mask 4)"
  by (simp_all add: mask_eq_exp_minus_1)

lemma base64_fields:
  "unat (drop_bit 2 (a AND 0xfc :: u8)) = unat a div 4 mod 64"
  "unat (push_bit 4 (a AND 0x03 :: u8)) = 16 * (unat a mod 4)"
  "unat (drop_bit 4 (a AND 0xf0 :: u8)) = unat a div 16 mod 16"
  "unat (push_bit 2 (a AND 0x0f :: u8)) = 4 * (unat a mod 16)"
  "unat (drop_bit 6 (a AND 0xc0 :: u8)) = unat a div 64 mod 4"
  "unat (push_bit 0 (a AND 0x3f :: u8)) = unat a mod 64"
  "unat (push_bit 2 (a AND 0x3f :: u8)) = 4 * (unat a mod 64)"
  "unat (drop_bit 4 (a AND 0x30 :: u8)) = unat a div 16 mod 4"
  "unat (push_bit 4 (a AND 0x0f :: u8)) = 16 * (unat a mod 16)"
  "unat (drop_bit 2 (a AND 0x3c :: u8)) = unat a div 4 mod 16"
  "unat (push_bit 6 (a AND 0x03 :: u8)) = 64 * (unat a mod 4)"
  "unat (drop_bit 0 (a AND 0x3f :: u8)) = unat a mod 64"
  unfolding base64_masks unat_drop_field
  using unat_push_field [of 2 4 a] unat_push_field [of 4 2 a] unat_push_field [of 6 0 a]
    unat_push_field [of 6 2 a] unat_push_field [of 4 4 a] unat_push_field [of 2 6 a]
  by simp_all

lemma base64_digit_mod:
  assumes "64 = k * m" and "r < (k :: nat)" and "0 < m"
  shows "(k * x + r) mod 64 = k * (x mod m) + r"
proof -
  have "k * x + r = k * (x mod m) + r + 64 * (x div m)"
    using assms(1) by (metis (no_types) add.assoc add.commute distrib_left mod_mult_div_eq mult.assoc)
  moreover have "k * (x mod m) + r < 64"
  proof -
    have "x mod m \<le> m - 1" using mod_less_divisor [OF assms(3), of x] by simp
    then have "k * (x mod m) \<le> k * (m - 1)" by (rule mult_le_mono2)
    moreover have "k \<le> 64" using assms by (metis dvd_imp_le dvd_triv_left zero_less_numeral)
    moreover have "k * (m - 1) = 64 - k" using assms(1) by (simp add: diff_mult_distrib2)
    ultimately show ?thesis using assms(2) by linarith
  qed
  ultimately show ?thesis by (simp only: mod_mult_self2 mod_less)
qed

lemma base64_digit2:
  "(b :: nat) < 256 \<Longrightarrow> c < 256 \<Longrightarrow>
     16 * (a mod 4) + b div 16 = (a * 65536 + b * 256 + c) div 4096 mod 64"
proof -
  assume bc: "b < 256" "c < 256"
  have "(b * 256 + c) div 4096 = (b * 256 + c) div 256 div 16" by (simp flip: div_mult2_eq)
  then have "(b * 256 + c) div 4096 = b div 16" using bc by simp
  moreover have "a * 65536 + b * 256 + c = b * 256 + c + 4096 * (16 * a)" by simp
  ultimately have "(a * 65536 + b * 256 + c) div 4096 = 16 * a + b div 16" by simp
  then show ?thesis using base64_digit_mod [of 16 4 "b div 16" a] bc by simp
qed

lemma base64_digit3:
  "(c :: nat) < 256 \<Longrightarrow>
     4 * (b mod 16) + c div 64 = (a * 65536 + b * 256 + c) div 64 mod 64"
proof -
  assume c: "c < 256"
  have "a * 65536 + b * 256 + c = c + 64 * (1024 * a + 4 * b)" by simp
  then have "(a * 65536 + b * 256 + c) div 64 = 4 * (256 * a + b) + c div 64" by simp
  moreover have "(256 * a + b) mod 16 = b mod 16"
    using mod_mult_self2 [of b 16 "16 * a"] by (simp add: add.commute)
  ultimately show ?thesis using base64_digit_mod [of 4 16 "c div 64" "256 * a + b"] c by simp
qed

lemma base64_digits:
  fixes a b c :: u8
  defines "n \<equiv> unat a * 2 ^ 16 + unat b * 2 ^ 8 + unat c"
  shows "n div 2 ^ 18 = unat a div 4"
    and "n div 2 ^ 12 mod 64 = 16 * (unat a mod 4) + unat b div 16"
    and "n div 2 ^ 6 mod 64 = 4 * (unat b mod 16) + unat c div 64"
    and "n mod 64 = unat c mod 64"
proof -
  have abc: "unat a < 256" "unat b < 256" "unat c < 256"
    using unsigned_less [where 'b = 8 and 'a = nat] by simp_all
  show "n div 2 ^ 18 = unat a div 4" using abc by (simp add: n_def)
  show "n div 2 ^ 12 mod 64 = 16 * (unat a mod 4) + unat b div 16"
    using base64_digit2 [OF abc(2,3), of "unat a"] by (simp add: n_def)
  show "n div 2 ^ 6 mod 64 = 4 * (unat b mod 16) + unat c div 64"
    using base64_digit3 [OF abc(3), of "unat b" "unat a"] by (simp add: n_def)
  show "n mod 64 = unat c mod 64"
    using mod_mult_self2 [of "unat c" 64 "1024 * unat a + 4 * unat b"]
    by (simp add: n_def algebra_simps)
qed

lemma base64_sextets:
  fixes a b c :: u8
  defines "n \<equiv> unat a * 2 ^ 16 + unat b * 2 ^ 8 + unat c"
  shows "unat (drop_bit 2 (a AND 0xfc)) = n div 2 ^ 18"
    and "unat (push_bit 4 (a AND 0x03) + drop_bit 4 (b AND 0xf0)) = n div 2 ^ 12 mod 64"
    and "unat (push_bit 2 (b AND 0x0f) + drop_bit 6 (c AND 0xc0)) = n div 2 ^ 6 mod 64"
    and "unat (push_bit 0 (c AND 0x3f)) = n mod 64"
proof -
  have abc: "unat a < 256" "unat b < 256" "unat c < 256"
    using unsigned_less [where 'b = 8 and 'a = nat] by simp_all
  show "unat (drop_bit 2 (a AND 0xfc)) = n div 2 ^ 18"
    using abc by (simp only: base64_fields base64_digits n_def) simp
  show "unat (push_bit 4 (a AND 0x03) + drop_bit 4 (b AND 0xf0)) = n div 2 ^ 12 mod 64"
    using abc by (subst unat_add_small; simp only: base64_fields base64_digits n_def) simp_all
  show "unat (push_bit 2 (b AND 0x0f) + drop_bit 6 (c AND 0xc0)) = n div 2 ^ 6 mod 64"
    using abc by (subst unat_add_small; simp only: base64_fields base64_digits n_def) simp_all
  show "unat (push_bit 0 (c AND 0x3f)) = n mod 64"
    by (simp only: base64_fields base64_digits n_def)
qed

lemma base64_quad_group:
  "base64_quad src i =
     base64_group (if i * 3 < length src then src ! (i * 3) else 0)
       (if i * 3 + 1 < length src then src ! (i * 3 + 1) else 0)
       (if i * 3 + 2 < length src then src ! (i * 3 + 2) else 0)"
  (is "_ = base64_group ?a ?b ?c")
  unfolding base64_quad_def base64_group_def Let_def add_0_right
    base64_sextets(1) [of ?a ?b ?c] base64_sextets(2) [of ?a ?b ?c]
    base64_sextets(3) [of ?b ?c ?a] base64_sextets(4) [of ?c ?a ?b]
  by (rule refl)

lemma length_base64_group [simp]: "length (base64_group a b c) = 4"
  by (simp add: base64_group_def Let_def)

lemma length_base64_quad [simp]: "length (base64_quad src i) = 4"
  by (simp add: base64_quad_group)

definition base64_quads :: "bytes \<Rightarrow> bytes" where
  "base64_quads src = concat (map (base64_quad src) [0..<ceil_to 3 (length src) div 3])"

lemma ceil_to_3: "ceil_to 3 (Suc (Suc (Suc n))) = 3 + ceil_to 3 n"
  using ceil_to_add [of 3 n] by (simp add: numeral_3_eq_3)

lemma ceil_to_3_small [simp]: "ceil_to 3 0 = 0" "ceil_to 3 (Suc 0) = 3" "ceil_to 3 (Suc (Suc 0)) = 3"
  by (simp_all add: ceil_to_def)

lemma base64_quads_step: "base64_quads (a # b # c # src) = base64_group a b c @ base64_quads src"
proof -
  have q: "base64_quad (a # b # c # src) (Suc i) = base64_quad src i" for i
    by (simp add: base64_quad_group)
  have "[0..<Suc n] = 0 # map Suc [0..<n]" for n
    by (simp add: map_Suc_upt upt_conv_Cons del: upt_Suc)
  moreover have "(3 + n) div 3 = Suc (n div 3)" for n :: nat by simp
  ultimately show ?thesis
    by (simp add: base64_quads_def ceil_to_3 q comp_def base64_quad_group [of _ 0] del: upt_Suc)
qed

lemma base64_quads_short:
  "base64_quads [] = []" "base64_quads [a] = base64_group a 0 0"
  "base64_quads [a, b] = base64_group a b 0"
  by (simp_all add: base64_quads_def ceil_to_def base64_quad_group)

lemma length_base64_quads: "length (base64_quads src) = 4 * (ceil_to 3 (length src) div 3)"
proof -
  have "length (base64_quads src) = sum_list (map (\<lambda>i. 4) [0..<ceil_to 3 (length src) div 3])"
    by (simp add: base64_quads_def length_concat comp_def)
  then show ?thesis by (simp add: sum_list_triv)
qed

lemma base64_fill:
  "m \<le> length buf \<Longrightarrow> fold (\<lambda>i r. r[length buf - Suc i := x]) [0..<m] buf
     = take (length buf - m) buf @ replicate m x"
proof (induction m)
  case (Suc m)
  then have "length buf - m = Suc (length buf - Suc m)" by simp
  with Suc show ?case
    by (simp add: list_update_append1 take_Suc_conv_app_nth replicate_append_same
        list_update_append flip: replicate_append_same)
qed simp

lemma base64_encode_chars_eq:
  "base64_encode_chars src =
     (let m = ceil_to 3 (length src) - length src; buf = base64_quads src
      in take (length buf - m) buf @ replicate m (ch CHR ''=''))"
proof -
  have d: "3 dvd ceil_to 3 (length src)" by (rule ceil_to_dvd)
  then have "4 * ceil_to 3 (length src) div 3 = length (base64_quads src)"
    by (auto simp: length_base64_quads elim!: dvdE)
  moreover from d have "length (base64_quads src) div 4 = ceil_to 3 (length src) div 3"
    by (simp add: length_base64_quads)
  moreover have "ceil_to 3 (length src) - length src \<le> length (base64_quads src)"
    using d ceil_to_bounds [of 3 "length src"] by (auto simp: length_base64_quads elim!: dvdE)
  ultimately show ?thesis
    by (simp add: base64_encode_chars_def base64_pad_eq base64_fill Let_def flip: base64_quads_def)
qed

lemma base64_encode_chars_rfc: "base64_encode_chars src = base64_rfc src"
proof (induction src rule: base64_rfc.induct)
  case (4 a b c src)
  have "length (base64_quads (a # b # c # src)) = 4 + length (base64_quads src)"
    by (simp add: base64_quads_step)
  moreover have "ceil_to 3 (length src) - length src \<le> length (base64_quads src)"
    using ceil_to_bounds [of 3 "length src"] ceil_to_dvd [of 3 "length src"]
    by (auto simp: length_base64_quads elim!: dvdE)
  ultimately show ?case
    using 4 by (simp add: base64_encode_chars_eq base64_quads_step ceil_to_3 Let_def)
qed (simp_all add: base64_encode_chars_eq base64_quads_short Let_def numeral_2_eq_2)

lemma length_base64_rfc: "length (base64_rfc src) = 4 * (ceil_to 3 (length src) div 3)"
  by (induction src rule: base64_rfc.induct) (simp_all add: ceil_to_3 div_add_self1)

text \<open>Every allocation in memory is smaller than \<open>2 ^ 62 - 2\<close> bytes, so the string version
  allocates exactly what the pointer version writes.\<close>

lemma base64_encode_rfc:
  "length src < 2 ^ 62 - 2 \<Longrightarrow> base64_encode src = base64_rfc src"
  by (simp add: base64_encode_def base64_encode_chars_rfc memcpy_at_full base64_encoded_size_exact
      unat_of_nat_eq length_base64_rfc)

section \<open>The decoder as a function of the list\<close>

text \<open>The reference decodes the text four characters at a time.\<close>

function base64_groups :: "bytes \<Rightarrow> bytes res" where
  "base64_groups src =
     (if src = [] then Inr []
      else bind_res (base64_step src 0) (\<lambda>out.
           bind_res (base64_groups (drop 4 src)) (\<lambda>rest. Inr (out @ rest))))"
  by pat_completeness auto
termination
  by (relation "measure length") auto

declare base64_groups.simps [simp del]

lemma base64_groups_Nil [simp]: "base64_groups [] = Inr []"
  by (simp add: base64_groups.simps)

lemma base64_step_drop: "i < length src \<Longrightarrow> base64_step src i = base64_step (drop i src) 0"
  by (simp add: base64_step_def base64_value_at_def less_diff_conv add.commute)

lemma bind_res_fun_cong: "(\<And>x. m = Inr x \<Longrightarrow> f x = g x) \<Longrightarrow> bind_res m f = bind_res m g"
  by (cases m) auto

lemma base64_decode_loop_eq:
  "4 dvd i \<Longrightarrow> base64_decode_loop src (ceil_to 4 (length src)) i buf
     = bind_res (base64_groups (drop i src)) (\<lambda>rest. Inr (buf @ rest))"
proof (induction "length src - i" arbitrary: i buf rule: less_induct)
  case less
  have "ceil_to 4 (length src) < length src + 4" "length src \<le> ceil_to 4 (length src)"
    using ceil_to_bounds [of 4 "length src"] by simp_all
  then have iff: "i < ceil_to 4 (length src) \<longleftrightarrow> i < length src"
    using less.prems ceil_to_dvd [of 4 "length src"] by (auto elim!: dvdE)
  show ?case
  proof (cases "i < length src")
    case True
    have IH: "base64_decode_loop src (ceil_to 4 (length src)) (i + 4) b
        = bind_res (base64_groups (drop (i + 4) src)) (\<lambda>rest. Inr (b @ rest))" for b
      by (rule less.hyps) (use True less.prems in auto)
    have "base64_groups (drop i src) = bind_res (base64_step src i) (\<lambda>out.
        bind_res (base64_groups (drop (i + 4) src)) (\<lambda>rest. Inr (out @ rest)))"
      using True base64_groups.simps [of "drop i src"] base64_step_drop [OF True]
      by (simp add: add.commute)
    then show ?thesis
      using True base64_decode_loop.simps [of src "ceil_to 4 (length src)" i buf]
      by (simp add: iff IH bind_res_assoc)
  next
    case False
    then show ?thesis
      using base64_decode_loop.simps [of src "ceil_to 4 (length src)" i buf] by (simp add: iff)
  qed
qed

lemma base64_decode_bytes_eq: "base64_decode_bytes src = base64_groups src"
proof -
  have "bind_res m Inr = m" for m :: "bytes res" by (cases m) auto
  then show ?thesis
    using base64_decode_loop_eq [of 0 src "[]"]
    by (simp add: base64_decode_bytes_def base64_round_up4_eq)
qed

section \<open>The decoder reads back what the encoder wrote\<close>

lemma to_base64_codes:
  "to_base64 =
     [65, 66, 67, 68, 69, 70, 71, 72, 73, 74, 75, 76, 77, 78, 79, 80, 81, 82, 83, 84, 85, 86,
      87, 88, 89, 90, 97, 98, 99, 100, 101, 102, 103, 104, 105, 106, 107, 108, 109, 110, 111,
      112, 113, 114, 115, 116, 117, 118, 119, 120, 121, 122, 48, 49, 50, 51, 52, 53, 54, 55,
      56, 57, 43, 47, 0]"
  by (simp add: to_base64_def)

lemma from_to_base64: "map (\<lambda>c. from_base64 ! unat c) (take 64 to_base64) = map of_nat [0..<64]"
  by (simp add: to_base64_codes from_base64_def upt_rec)

lemma to_base64_low: "list_all (\<lambda>c. c \<le>s ch CHR ''z'' \<and> unat c < 128) (take 64 to_base64)"
  by (simp add: to_base64_codes word_sle_eq)

lemma base64_value_digit:
  assumes "n < 64"
  shows "base64_value (to_base64 ! n) = Inr (of_nat n)"
proof -
  have l: "length (take 64 to_base64) = 64" by (simp add: to_base64_codes)
  have "from_base64 ! unat (to_base64 ! n) = of_nat n"
    using arg_cong [OF from_to_base64, of "\<lambda>xs. xs ! n"] assms l by simp
  moreover have "to_base64 ! n \<le>s ch CHR ''z'' \<and> unat (to_base64 ! n) < 128"
    using to_base64_low assms l by (auto simp: list_all_length)
  ultimately show ?thesis by (simp add: base64_value_def)
qed

lemma base64_value_pad: "base64_value (ch CHR ''='') = Inr 0xff"
  by (simp add: base64_value_def from_base64_def word_sle_eq)

lemma base64_triple_bytes:
  fixes a b c d0 d1 d2 d3 :: u8
  assumes d: "unat d0 = unat a div 4" "unat d1 = 16 * (unat a mod 4) + unat b div 16"
    "unat d2 = 4 * (unat b mod 16) + unat c div 64" "unat d3 = unat c mod 64"
  shows "push_bit 2 (d0 AND 0x3f) + drop_bit 4 (d1 AND 0x30) = a"
    and "push_bit 4 (d1 AND 0x0f) + drop_bit 2 (d2 AND 0x3c) = b"
    and "push_bit 6 (d2 AND 0x03) + drop_bit 0 (d3 AND 0x3f) = c"
proof -
  have abc: "unat a < 256" "unat b < 256" "unat c < 256"
    using unsigned_less [where 'b = 8 and 'a = nat] by simp_all
  have "unat (push_bit 2 (d0 AND 0x3f) + drop_bit 4 (d1 AND 0x30)) = unat a"
    using abc by (subst unat_add_small; simp only: base64_fields d) simp_all
  then show "push_bit 2 (d0 AND 0x3f) + drop_bit 4 (d1 AND 0x30) = a" by (rule unsigned_word_eqI)
  have "unat (push_bit 4 (d1 AND 0x0f) + drop_bit 2 (d2 AND 0x3c)) = unat b"
    using abc by (subst unat_add_small; simp only: base64_fields d) simp_all
  then show "push_bit 4 (d1 AND 0x0f) + drop_bit 2 (d2 AND 0x3c) = b" by (rule unsigned_word_eqI)
  have "unat (push_bit 6 (d2 AND 0x03) + drop_bit 0 (d3 AND 0x3f)) = unat c"
    using abc by (subst unat_add_small; simp only: base64_fields d) simp_all
  then show "push_bit 6 (d2 AND 0x03) + drop_bit 0 (d3 AND 0x3f) = c" by (rule unsigned_word_eqI)
qed

lemma base64_group_values:
  fixes a b c :: u8
  obtains d0 d1 d2 d3 where
    "base64_group a b c = [to_base64 ! unat d0, to_base64 ! unat d1, to_base64 ! unat d2, to_base64 ! unat d3]"
    "\<forall>d \<in> {d0, d1, d2, d3}. base64_value (to_base64 ! unat d) = Inr d \<and> d \<noteq> 0xff"
    "push_bit 2 (d0 AND 0x3f) + drop_bit 4 (d1 AND 0x30) = a"
    "push_bit 4 (d1 AND 0x0f) + drop_bit 2 (d2 AND 0x3c) = b"
    "push_bit 6 (d2 AND 0x03) + drop_bit 0 (d3 AND 0x3f) = c"
proof -
  define n where "n = unat a * 2 ^ 16 + unat b * 2 ^ 8 + unat c"
  have abc: "unat a < 256" "unat b < 256" "unat c < 256"
    using unsigned_less [where 'b = 8 and 'a = nat] by simp_all
  define d :: "nat \<Rightarrow> u8" where "d k = of_nat (n div 2 ^ (18 - 6 * k) mod 64)" for k
  have u: "unat (d k) = n div 2 ^ (18 - 6 * k) mod 64" for k
  proof -
    have "n div 2 ^ (18 - 6 * k) mod 64 < 64" by simp
    then have "n div 2 ^ (18 - 6 * k) mod 64 < 2 ^ LENGTH(8)" by simp
    then show ?thesis unfolding d_def by (rule unat_of_nat_eq)
  qed
  then have lt: "unat (d k) < 64" for k by simp
  have val: "base64_value (to_base64 ! unat (d k)) = Inr (d k) \<and> d k \<noteq> 0xff" for k
    using base64_value_digit [OF lt, of k] lt [of k] by auto
  have u0: "unat (d 0) = unat a div 4"
    using base64_digits(1) [of a b c] abc u [of 0] by (simp add: n_def)
  have u3: "unat (d 1) = 16 * (unat a mod 4) + unat b div 16"
    "unat (d 2) = 4 * (unat b mod 16) + unat c div 64" "unat (d 3) = unat c mod 64"
    using base64_digits(2-4) [of a b c] u [of 1] u [of 2] u [of 3] by (simp_all add: n_def)
  show ?thesis
  proof (rule that)
    show "base64_group a b c = [to_base64 ! unat (d 0), to_base64 ! unat (d 1), to_base64 ! unat (d 2), to_base64 ! unat (d 3)]"
      by (simp only: base64_group_def Let_def base64_digits u0 u3)
    show "\<forall>x \<in> {d 0, d 1, d 2, d 3}. base64_value (to_base64 ! unat x) = Inr x \<and> x \<noteq> 0xff"
      using val by simp
  qed (use base64_triple_bytes [OF u0 u3] in auto)
qed

lemma base64_step_values:
  "base64_step src 0 =
     bind_res (base64_value (src ! 0)) (\<lambda>b4_0.
     bind_res (if 1 < length src then base64_value (src ! 1) else Inr 0xff) (\<lambda>b4_1.
     bind_res (if 2 < length src then base64_value (src ! 2) else Inr 0xff) (\<lambda>b4_2.
     bind_res (if 3 < length src then base64_value (src ! 3) else Inr 0xff) (\<lambda>b4_3.
       Inr (base64_triple b4_0 b4_1 b4_2 b4_3)))))"
  by (simp add: base64_step_def base64_value_at_def numeral_2_eq_2)

lemma base64_groups_rfc: "base64_groups (base64_rfc src) = Inr src"
proof (induction src rule: base64_rfc.induct)
  case (2 a)
  obtain d0 d1 d2 d3 where d: 
    "base64_group a 0 0 = [to_base64 ! unat d0, to_base64 ! unat d1, to_base64 ! unat d2, to_base64 ! unat d3]"
    "\<forall>d \<in> {d0, d1, d2, d3}. base64_value (to_base64 ! unat d) = Inr d \<and> d \<noteq> 0xff"
    "push_bit 2 (d0 AND 0x3f) + drop_bit 4 (d1 AND 0x30) = a"
    using base64_group_values by metis
  then show ?case
    by (subst base64_groups.simps)
      (simp add: base64_step_values base64_value_pad [simplified] base64_triple_def Let_def)
next
  case (3 a b)
  obtain d0 d1 d2 d3 where d: 
    "base64_group a b 0 = [to_base64 ! unat d0, to_base64 ! unat d1, to_base64 ! unat d2, to_base64 ! unat d3]"
    "\<forall>d \<in> {d0, d1, d2, d3}. base64_value (to_base64 ! unat d) = Inr d \<and> d \<noteq> 0xff"
    "push_bit 2 (d0 AND 0x3f) + drop_bit 4 (d1 AND 0x30) = a"
    "push_bit 4 (d1 AND 0x0f) + drop_bit 2 (d2 AND 0x3c) = b"
    using base64_group_values by metis
  then show ?case
    by (subst base64_groups.simps)
      (simp add: base64_step_values base64_value_pad [simplified] base64_triple_def Let_def)
next
  case (4 a b c src)
  obtain d0 d1 d2 d3 where d: 
    "base64_group a b c = [to_base64 ! unat d0, to_base64 ! unat d1, to_base64 ! unat d2, to_base64 ! unat d3]"
    "\<forall>d \<in> {d0, d1, d2, d3}. base64_value (to_base64 ! unat d) = Inr d \<and> d \<noteq> 0xff"
    "push_bit 2 (d0 AND 0x3f) + drop_bit 4 (d1 AND 0x30) = a"
    "push_bit 4 (d1 AND 0x0f) + drop_bit 2 (d2 AND 0x3c) = b"
    "push_bit 6 (d2 AND 0x03) + drop_bit 0 (d3 AND 0x3f) = c"
    using base64_group_values by metis
  then show ?case
    using 4 by (subst base64_groups.simps)
      (simp add: base64_step_values base64_triple_def Let_def)
qed simp

section \<open>When the decoder is defined\<close>

lemma high_byte_negative: "128 \<le> unat (c :: u8) \<Longrightarrow> sint c < 0"
proof -
  assume "128 \<le> unat c"
  moreover have "uint c = int (unat c)" "unat c < 256"
    using unsigned_less [of c, where 'a = nat] by simp_all
  ultimately have "128 \<le> uint c" "uint c < 256" by linarith+
  then have "uint c div 2 ^ 7 = 1" by simp
  then have "bit (uint c) 7" by (simp add: bit_iff_odd)
  then show ?thesis by (simp add: sint_uint signed_take_bit_negative_iff)
qed

abbreviation base64_oob :: fault where
  "base64_oob \<equiv> Undefined ''base64: read past the end of from_base64''"

lemma base64_value_cases:
  "base64_value c = (if unat c < 128 then Inr (if c \<le>s ch CHR ''z'' then from_base64 ! unat c else 0xff)
   else Inl base64_oob)"
proof (cases "unat c < 128")
  case False
  then have "c \<le>s ch CHR ''z''" using high_byte_negative [of c] by (simp add: word_sle_eq)
  with False show ?thesis by (simp add: base64_value_def)
qed (simp add: base64_value_def)

lemma base64_step_cases:
  assumes "src \<noteq> []"
  shows "case base64_step src 0 of
      Inr out \<Rightarrow> \<forall>c \<in> set (take 4 src). unat c < 128
    | Inl e \<Rightarrow> e = base64_oob \<and> (\<exists>c \<in> set (take 4 src). 128 \<le> unat c)"
proof (cases src rule: base64_rfc.cases)
  case (4 a b c r)
  then show ?thesis by (cases r) (auto simp: base64_step_values base64_value_cases)
qed (use assms in \<open>auto simp: base64_step_values base64_value_cases\<close>)

lemma base64_groups_cases:
  "case base64_groups src of
      Inr out \<Rightarrow> \<forall>c \<in> set src. unat c < 128
    | Inl e \<Rightarrow> e = base64_oob \<and> (\<exists>c \<in> set src. 128 \<le> unat c)"
proof (induction "length src" arbitrary: src rule: less_induct)
  case less
  show ?case
  proof (cases "src = []")
    case False
    have "set src = set (take 4 src) \<union> set (drop 4 src)" by (metis append_take_drop_id set_append)
    moreover note base64_step_cases [OF False] less.hyps [of "drop 4 src"]
    ultimately show ?thesis using False base64_groups.simps [of src]
      by (cases "base64_step src 0"; cases "base64_groups (drop 4 src)") auto
  qed simp
qed

lemma length_base64_triple: "length (base64_triple a b c d) \<le> 3"
  by (simp add: base64_triple_def Let_def)

lemma length_base64_groups:
  "base64_groups src = Inr out \<Longrightarrow> length out \<le> 3 * (ceil_to 4 (length src) div 4)"
proof (induction "length src" arbitrary: src out rule: less_induct)
  case less
  show ?case
  proof (cases "src = []")
    case True
    then show ?thesis using less.prems by simp
  next
    case False
    then obtain o1 o2 where o: "base64_step src 0 = Inr o1" "base64_groups (drop 4 src) = Inr o2" "out = o1 @ o2"
      using less.prems base64_groups.simps [of src] by auto
    have "length o1 \<le> 3" using o(1) length_base64_triple by (auto simp: base64_step_def)
    moreover have "length o2 \<le> 3 * (ceil_to 4 (length (drop 4 src)) div 4)"
      using False o(2) by (intro less.hyps) auto
    moreover have "ceil_to 4 (length src) = 4 + ceil_to 4 (length (drop 4 src))"
    proof (cases "4 \<le> length src")
      case True
      then show ?thesis using ceil_to_add [of 4 "length src - 4"] by simp
    next
      case 2: False
      then have "length src mod 4 = length src" "length src \<noteq> 0" using False by auto
      then show ?thesis using 2 by (simp add: ceil_to_def)
    qed
    ultimately show ?thesis using o(3) by (simp add: div_add_self1)
  qed
qed

lemma unat_base64_round4: "unat n + 4 < 2 ^ 64 \<Longrightarrow> unat (base64_round4 n) = ceil_to 4 (unat n)"
proof (induction n rule: base64_round4.induct)
  case (1 n)
  show ?case
  proof (cases "unat n mod 4 = 0")
    case True
    then have "n mod 4 = 0" by (metis unat_eq_zero unat_mod unat_numeral_4)
    then show ?thesis using True by (subst base64_round4.simps) (simp add: ceil_to_id)
  next
    case False
    then have m: "n mod 4 \<noteq> 0" by (metis unat_0 unat_mod unat_numeral_4)
    have s: "unat (n + 1) = Suc (unat n)" using "1.prems" by (simp add: unat_word_ariths)
    have c: "ceil_to 4 (Suc (unat n)) = ceil_to 4 (unat n)" using False by (rule ceil_to_Suc)
    have "unat (base64_round4 n) = ceil_to 4 (unat (n + 1))"
    proof (cases "unat (n + 1) + 4 < 2 ^ 64")
      case True
      then show ?thesis using m "1.IH" by (subst base64_round4.simps) simp
    next
      case 2: False
      then have "unat n = 2 ^ 64 - 5" using "1.prems" s by simp
      then have "(n + 1) mod 4 = 0" using s by (simp add: word_eq_iff_unsigned [where 'a = nat] unat_mod)
      then have "base64_round4 n = n + 1"
        using m base64_round4.simps [of n] base64_round4.simps [of "n + 1"] by simp
      moreover have "Suc (unat n) mod 4 = 0" using \<open>unat n = 2 ^ 64 - 5\<close> by simp
      ultimately show ?thesis using s by (simp add: ceil_to_id)
    qed
    then show ?thesis using s c by simp
  qed
qed

lemma base64_decoded_size_exact:
  assumes "unat n < 2 ^ 62 - 3"
  shows "unat (base64_decoded_size n) = 3 * (ceil_to 4 (unat n) div 4)"
proof -
  have d: "4 dvd ceil_to 4 (unat n)" by (rule ceil_to_dvd)
  have "ceil_to 4 (unat n) < 2 ^ 62" using ceil_to_bounds(2) [of 4 "unat n"] assms by simp
  then have "unat (3 * base64_round4 n) = 3 * ceil_to 4 (unat n)"
    using assms by (simp add: unat_word_ariths unat_base64_round4)
  then show ?thesis using d by (simp add: base64_decoded_size_def unat_div div_mult_swap)
qed

lemma base64_decode_eq:
  assumes "length src < 2 ^ 62 - 3"
  shows "base64_decode src = base64_groups src"
proof -
  have "unat (base64_decoded_size (of_nat (length src))) = 3 * (ceil_to 4 (length src) div 4)"
    using assms by (simp add: base64_decoded_size_exact unat_of_nat_eq)
  then show ?thesis
    using length_base64_groups [of src] base64_decode_bytes_eq [of src]
    by (cases "base64_groups src") (simp_all add: base64_decode_def Let_def memcpy_at_def)
qed

section \<open>The codec contract\<close>

definition base64_alphabet :: "u8 set" where
  "base64_alphabet = insert (ch CHR ''='') (set (take 64 to_base64))"

lemma base64_digit_alphabet: "n < 64 \<Longrightarrow> to_base64 ! n \<in> base64_alphabet"
  by (auto simp: base64_alphabet_def in_set_conv_nth intro!: exI [of _ n]) (simp add: to_base64_def)

lemma base64_group_alphabet: "set (base64_group a b c) \<subseteq> base64_alphabet"
proof -
  have "unat a * 2 ^ 16 + unat b * 2 ^ 8 + unat c < 2 ^ 24"
    using unsigned_less [of a, where 'a = nat] unsigned_less [of b, where 'a = nat]
      unsigned_less [of c, where 'a = nat] by simp
  then show ?thesis by (auto simp: base64_group_def Let_def intro!: base64_digit_alphabet)
qed

lemma base64_rfc_alphabet: "set (base64_rfc src) \<subseteq> base64_alphabet"
proof (induction src rule: base64_rfc.induct)
  case (2 a)
  then show ?case using base64_group_alphabet [of a 0 0] set_take_subset [of 2 "base64_group a 0 0"]
    by (auto simp: base64_alphabet_def)
next
  case (3 a b)
  then show ?case using base64_group_alphabet [of a b 0] set_take_subset [of 3 "base64_group a b 0"]
    by (auto simp: base64_alphabet_def)
qed (use base64_group_alphabet in auto)

interpretation base64: codec base64_encode_chars base64_decode_bytes base64_alphabet
  "\<lambda>n. 4 * (ceil_to 3 n div 3)"
  by unfold_locales
    (simp_all add: base64_encode_chars_rfc base64_decode_bytes_eq base64_groups_rfc
      base64_rfc_alphabet length_base64_rfc)

definition base64_accepted_codes :: "nat list" where
  "base64_accepted_codes =
     [43, 45, 47, 48, 49, 50, 51, 52, 53, 54, 55, 56, 57, 60, 65, 66, 67, 68, 69, 70, 71, 72,
      73, 74, 75, 76, 77, 78, 79, 80, 81, 82, 83, 84, 85, 86, 87, 88, 89, 90, 95, 97, 98, 99,
      100, 101, 102, 103, 104, 105, 106, 107, 108, 109, 110, 111, 112, 113, 114, 115, 116, 117,
      118, 119, 120, 121, 122]"

lemma from_base64_accepted: "map fst (filter (\<lambda>(n, v). v \<noteq> 0xff) (enumerate 0 from_base64)) = base64_accepted_codes"
  by (simp add: from_base64_def base64_accepted_codes_def)

lemma from_base64_digit: "n < 128 \<and> from_base64 ! n \<noteq> 0xff \<longleftrightarrow> n \<in> set base64_accepted_codes"
proof -
  have "length from_base64 = 128" by (simp add: from_base64_def)
  then show ?thesis
    by (force simp: in_set_enumerate_eq simp flip: from_base64_accepted)
qed

lemma base64_accepted_low: "n \<in> set base64_accepted_codes \<Longrightarrow> n \<le> 122"
proof -
  have "list_all (\<lambda>n. n \<le> 122) base64_accepted_codes" by (simp add: base64_accepted_codes_def)
  then show "n \<in> set base64_accepted_codes \<Longrightarrow> n \<le> 122" by (simp add: list_all_iff)
qed

lemma base64_accepted_set:
  "set (map unat (take 64 to_base64 @ str ''-_<'')) = set base64_accepted_codes"
proof -
  define xs where "xs = map unat (take 64 to_base64 @ str ''-_<'')"
  have "list_all (\<lambda>n. n \<in> set base64_accepted_codes) xs"
    by (simp add: xs_def to_base64_codes base64_accepted_codes_def)
  moreover have "list_all (\<lambda>n. n \<in> set xs) base64_accepted_codes"
    by (simp add: xs_def to_base64_codes base64_accepted_codes_def)
  ultimately have "set xs = set base64_accepted_codes" by (auto simp: list_all_iff)
  then show ?thesis by (simp only: xs_def)
qed

lemma base64_value_accepted:
  "(\<exists>v. base64_value c = Inr v \<and> v \<noteq> 0xff) \<longleftrightarrow> unat c \<in> set base64_accepted_codes"
proof -
  have "c \<le>s ch CHR ''z''" if "unat c \<le> 122"
  proof -
    have "uint c = int (unat c)" by simp
    then have "uint c \<le> 122" using that by linarith
    moreover have "- 128 \<le> uint c" by (rule order_trans [of _ 0]) simp_all
    ultimately have "sint c = uint c" by (simp add: sint_uint signed_take_bit_int_eq_self_iff)
    then show ?thesis using \<open>uint c \<le> 122\<close> by (simp add: word_sle_eq)
  qed
  then have "base64_value c = Inr (from_base64 ! unat c)" if "unat c \<in> set base64_accepted_codes"
    using that base64_accepted_low from_base64_digit [of "unat c"] by (simp add: base64_value_cases)
  then show ?thesis
    using from_base64_digit [of "unat c"] by (auto simp: base64_value_cases split: if_splits)
qed

section \<open>Properties\<close>

text \<open>the encoder writes the RFC 4648 encoding, and its size function announces exactly the
  number of characters it writes, for every source a 64-bit process can hold.\<close>

theorem base64_encode_correct:
  assumes "length src < 2 ^ 62 - 2"
  shows "base64_encode src = base64_rfc src \<and>
    length (base64_encode_chars src) = unat (base64_encoded_size (of_nat (length src)))"
  using assms
  by (simp_all add: base64_encode_rfc base64_encode_chars_rfc length_base64_rfc
      base64_encoded_size_exact unat_of_nat_eq)

theorem base64_encode_correct_witness:
  "base64_encode (str ''Ma'') = base64_rfc (str ''Ma'')
   \<and> length (base64_encode_chars (str ''Ma'')) = unat (base64_encoded_size (of_nat (length (str ''Ma''))))"
  using base64_encode_correct [of "str ''Ma''"] by simp

text \<open>C40: decoding an encoded byte string gives the bytes back.\<close>

theorem base64_roundtrip:
  assumes "length src < 2 ^ 61"
  shows "base64_decode (base64_encode src) = Inr src"
proof -
  have "4 * (ceil_to 3 (length src) div 3) < 2 ^ 62 - 3"
    using ceil_to_bounds(2) [of 3 "length src"] assms by simp
  then have "base64_decode (base64_encode src) = base64_decode_bytes (base64_encode_chars src)"
    using assms by (simp add: base64_encode_rfc base64_encode_chars_rfc base64_decode_eq
        base64_decode_bytes_eq length_base64_rfc)
  then show ?thesis by (simp only: base64.decode_encode)
qed

theorem base64_roundtrip_witness:
  "base64_decode (base64_encode (str ''any carnal pleas'')) = Inr (str ''any carnal pleas'')"
  by (rule base64_roundtrip) simp

text \<open>decoding never writes past the vector it allocated, and fails only where it reads past
  its table, which happens exactly when the text has a byte above 127.\<close>

theorem base64_decode_outcome:
  assumes "length src < 2 ^ 62 - 3"
  shows "case base64_decode src of
      Inr out \<Rightarrow> (\<forall>c \<in> set src. unat c < 128)
        \<and> length out \<le> unat (base64_decoded_size (of_nat (length src)))
    | Inl e \<Rightarrow> e = Undefined ''base64: read past the end of from_base64''
        \<and> (\<exists>c \<in> set src. 128 \<le> unat c)"
  using assms base64_groups_cases [of src] length_base64_groups [of src]
  by (cases "base64_groups src")
    (auto simp: base64_decode_eq base64_decoded_size_exact unat_of_nat_eq)

theorem base64_decode_outcome_witness:
  "base64_decode [ch CHR ''T'', 0xC3] = Inl (Undefined ''base64: read past the end of from_base64'')"
  using base64_decode_outcome [of "[ch CHR ''T'', 0xC3]"]
  by (auto split: sum.splits)

text \<open>the characters the decoder takes for digits are the 64 of the alphabet, the URL-safe
  variants of the last two, and the character \<open><\<close>, which decodes like \<open>A\<close>.\<close>

theorem base64_digits_accepted:
  "((\<exists>v. base64_value c = Inr v \<and> v \<noteq> 0xff) \<longleftrightarrow> c \<in> set (take 64 to_base64 @ str ''-_<''))
   \<and> base64_value (ch CHR ''-'') = base64_value (ch CHR ''+'')
   \<and> base64_value (ch CHR ''_'') = base64_value (ch CHR ''/'')
   \<and> base64_value (ch CHR ''<'') = base64_value (ch CHR ''A'')"
proof -
  have "unat c \<in> unat ` set (take 64 to_base64 @ str ''-_<'') \<longleftrightarrow> c \<in> set (take 64 to_base64 @ str ''-_<'')"
    by (rule inj_image_mem_iff) (auto intro: injI unsigned_word_eqI)
  then have "(\<exists>v. base64_value c = Inr v \<and> v \<noteq> 0xff) \<longleftrightarrow> c \<in> set (take 64 to_base64 @ str ''-_<'')"
    unfolding base64_value_accepted base64_accepted_set [symmetric] set_map .
  moreover have "base64_value (ch CHR ''-'') = base64_value (ch CHR ''+'')"
    "base64_value (ch CHR ''_'') = base64_value (ch CHR ''/'')"
    "base64_value (ch CHR ''<'') = base64_value (ch CHR ''A'')"
    by (simp_all add: base64_value_def from_base64_def word_sle_eq)
  ultimately show ?thesis by blast
qed

end
