(* ===== verification/Ez_Url.thy ===== *)
theory Ez_Url
  imports Ez_Hex
begin

text \<open>
  \<open>ez::url\<close> (\<open>source/url.cpp\<close>): percent encoding, built on \<open>ez::hex\<close>. The loops give the
  characters written from \<open>_result\<close> on, with the size they count. The decoder hands the two
  characters after a \<open>%\<close> to \<open>hex::decode\<close> without looking whether the source has them:
  reading past the source is the \<open>Undefined\<close> outcome.
\<close>

section \<open>Encoding\<close>

definition url_plain :: "u8 \<Rightarrow> bool" where
  "url_plain c \<longleftrightarrow>
     (ch CHR ''0'' \<le> c \<and> c \<le> ch CHR ''9'') \<or> (ch CHR ''a'' \<le> c \<and> c \<le> ch CHR ''z'') \<or>
     (ch CHR ''A'' \<le> c \<and> c \<le> ch CHR ''Z'') \<or>
     c = ch CHR ''-'' \<or> c = ch CHR ''_'' \<or> c = ch CHR ''.'' \<or> c = ch CHR ''!'' \<or> c = ch CHR ''~'' \<or>
     c = ch CHR ''*'' \<or> c = 0x27 \<or> c = ch CHR ''('' \<or> c = ch CHR '')''"

fun url_encode_loop :: "bytes \<Rightarrow> bytes \<times> nat" where
  "url_encode_loop [] = ([], 0)"
| "url_encode_loop (c # src) =
     (let (buf, size) = url_encode_loop src in
      if url_plain c then (c # buf, size + 1)
      else if c = ch CHR '' '' then (ch CHR ''+'' # buf, size + 1)
      else (ch CHR ''%'' # hex_encode_chars [c] True @ buf, size + 3))"

definition url_encode :: "bytes \<Rightarrow> bytes" where
  "url_encode src =
     (let (buf, size) = url_encode_loop src
      in take size (memcpy_at (replicate (length src * 3) 0) 0 buf))"

section \<open>Decoding\<close>

fun url_decode_loop :: "bytes \<Rightarrow> bytes \<Rightarrow> (bytes \<times> nat) res" where
  "url_decode_loop [] result = Inr ([], 0)"
| "url_decode_loop (c # data) [] = Inl (Undefined ''url: write past the end of the result'')"
| "url_decode_loop (c # data) (b # result) =
     (if c = ch CHR ''%'' then
        (case data of
           s1 # s2 # rest \<Rightarrow>
             bind_res (hex_decode_to [s1, s2] [b]) (\<lambda>d.
             bind_res (url_decode_loop rest result) (\<lambda>(buf, size). Inr (d @ buf, size + 1)))
         | _ \<Rightarrow> Inl (Undefined ''url: read past the end of the source''))
      else if c = ch CHR ''+'' then
        bind_res (url_decode_loop data result) (\<lambda>(buf, size). Inr (ch CHR '' '' # buf, size + 1))
      else
        bind_res (url_decode_loop data result) (\<lambda>(buf, size). Inr (c # buf, size + 1)))"

definition url_decode :: "bytes \<Rightarrow> bytes res" where
  "url_decode src =
     (let result = replicate (length src) 0 in
      bind_res (url_decode_loop src result) (\<lambda>(buf, size). Inr (take size (memcpy_at result 0 buf))))"

section \<open>What the encoder writes\<close>

text \<open>The reference encodes character by character.\<close>

definition url_escape :: "u8 \<Rightarrow> bytes" where
  "url_escape c =
     (if url_plain c then [c] else if c = ch CHR '' '' then [ch CHR ''+'']
      else ch CHR ''%'' # hex_encode_chars [c] True)"

lemma url_encode_loop_eq:
  "url_encode_loop src = (concat (map url_escape src), length (concat (map url_escape src)))"
  by (induction src) (simp_all add: url_escape_def)

lemma url_escape_length: "length (url_escape c) \<le> 3"
  by (simp add: url_escape_def)

lemma url_escapes_length: "length (concat (map url_escape src)) \<le> 3 * length src"
proof (induction src)
  case (Cons c src)
  then show ?case using url_escape_length [of c] by simp
qed simp

lemma url_encode_eq: "url_encode src = concat (map url_escape src)"
  by (simp add: url_encode_def url_encode_loop_eq memcpy_at_def)

section \<open>What the decoder computes\<close>

text \<open>
  The reference: a \<open>%\<close> with two characters after it is the byte those stand for, with a
  character that is no hex digit read as zero. \<open>url_complete\<close> says that every escape has its two
  characters.
\<close>

fun url_complete :: "bytes \<Rightarrow> bool" where
  "url_complete [] \<longleftrightarrow> True"
| "url_complete (c # data) \<longleftrightarrow>
     (if c = ch CHR ''%'' then (case data of s1 # s2 # rest \<Rightarrow> url_complete rest | _ \<Rightarrow> False)
      else url_complete data)"

fun url_unescape :: "bytes \<Rightarrow> bytes" where
  "url_unescape [] = []"
| "url_unescape (c # data) =
     (if c = ch CHR ''%'' then
        (case data of
           s1 # s2 # rest \<Rightarrow> (16 * hex_digit_or_zero s1 + hex_digit_or_zero s2) # url_unescape rest
         | _ \<Rightarrow> [])
      else (if c = ch CHR ''+'' then ch CHR '' '' else c) # url_unescape data)"

lemma url_decode_loop_eq:
  "length src \<le> n \<Longrightarrow> url_decode_loop src (replicate n 0) =
     (if url_complete src then Inr (url_unescape src, length (url_unescape src))
      else Inl (Undefined ''url: read past the end of the source''))"
proof (induction src arbitrary: n rule: url_unescape.induct)
  case (2 c data)
  from "2.prems" obtain m where m: "n = Suc m" "length data \<le> m" by (cases n) auto
  show ?case
  proof (cases "c = ch CHR ''%''")
    case True
    show ?thesis
    proof (cases data rule: hex_pairs.cases)
      case (1 s1 s2 rest)
      then show ?thesis using True m "2.IH"(1) [of s1 "s2 # rest" s2 rest m]
        by (simp add: hex_decode_to_def hex_pair_value)
    qed (use True m in simp_all)
  next
    case False
    then show ?thesis using m "2.IH"(2) [of m] by simp
  qed
qed simp

lemma url_unescape_length: "length (url_unescape src) \<le> length src"
  by (induction src rule: url_unescape.induct) (auto split: list.split intro!: le_SucI)

lemma url_decode_eq:
  "url_decode src = (if url_complete src then Inr (url_unescape src)
     else Inl (Undefined ''url: read past the end of the source''))"
  using url_unescape_length [of src]
  by (simp add: url_decode_def Let_def url_decode_loop_eq memcpy_at_def)

section \<open>The codec contract\<close>

lemma url_plain_neq: "url_plain c \<Longrightarrow> c \<noteq> ch CHR ''%'' \<and> c \<noteq> ch CHR ''+''"
  by (auto simp: url_plain_def)

lemma url_unescape_escape:
  "url_complete (url_escape c @ s) = url_complete s"
  "url_unescape (url_escape c @ s) = c # url_unescape s"
proof -
  have "16 * hex_digit_or_zero (hex_digits_up ! unat (drop_bit 4 (c AND 0xf0)))
      + hex_digit_or_zero (hex_digits_up ! unat (c AND 0x0f)) = c"
    using hex_value_digits(2) [OF nibbles(1) [of c]] hex_value_digits(2) [OF nibbles(2) [of c]]
      hex_pair_value [of "hex_digits_up ! unat (drop_bit 4 (c AND 0xf0))"] hex_decode_pair
    by (metis of_nat_unat ucast_id)
  then show "url_complete (url_escape c @ s) = url_complete s"
    and "url_unescape (url_escape c @ s) = c # url_unescape s"
    using url_plain_neq [of c] by (simp_all add: url_escape_def del: drop_bit_and)
qed

lemma url_decode_encode: "url_decode (url_encode src) = Inr src"
proof -
  have "url_complete (concat (map url_escape src)) \<and> url_unescape (concat (map url_escape src)) = src"
    by (induction src) (simp_all add: url_unescape_escape)
  then show ?thesis by (simp add: url_decode_eq url_encode_eq)
qed

definition url_alphabet :: "u8 set" where
  "url_alphabet = {c. url_plain c} \<union> {ch CHR ''+'', ch CHR ''%''} \<union> hex_alphabet True"

lemma url_escape_alphabet: "set (url_escape c) \<subseteq> url_alphabet"
  using hex_encode_chars_alphabet [of "[c]" True] by (auto simp: url_escape_def url_alphabet_def)

interpretation url: codec url_encode url_decode url_alphabet "\<lambda>n. 3 * n"
proof unfold_locales
  show "set (url_encode bs) \<subseteq> url_alphabet" for bs
    using url_escape_alphabet by (auto simp: url_encode_eq)
  show "length (url_encode bs) \<le> 3 * length bs" for bs
    using url_escapes_length by (simp add: url_encode_eq)
qed (rule url_decode_encode)

section \<open>Properties\<close>

text \<open>decoding an encoded string gives the string back, for every byte string.\<close>

theorem url_roundtrip: "url_decode (url_encode src) = Inr src"
  by (rule url_decode_encode)

text \<open>an encoded string has no separator of a query: a field that is cut off at the next
  ampersand decodes to the value that was put in.\<close>

theorem url_query_field:
  "url_decode (takeWhile (\<lambda>c. c \<noteq> ch CHR ''&'') (url_encode v @ ch CHR ''&'' # rest)) = Inr v"
proof (rule url.field_decode)
  show "ch CHR ''&'' \<notin> url_alphabet"
    by (simp add: url_alphabet_def url_plain_def hex_alphabet_def hex_digits_up_def)
qed

text \<open>the decoder is defined exactly on the texts in which every percent sign is followed by
  two characters; it then gives their reference meaning and never writes past its result. On any
  other text it reads past the end of the source.\<close>

theorem url_decode_outcome:
  "url_decode src =
     (if url_complete src then Inr (url_unescape src)
      else Inl (Undefined ''url: read past the end of the source''))"
  by (rule url_decode_eq)

end
