(* ===== verification/Ez_Ip.thy ===== *)
theory Ez_Ip
  imports Ez_Bytes
begin

text \<open>
  \<open>ez::ipv4_t\<close> (\<open>include/ez/ip.hpp\<close>, \<open>source/ip.cpp\<close>): the address record and the parser of
  dotted decimal text. The parser's index \<open>string_index\<close> is a \<open>uint8_t\<close> compared with a
  \<open>size_t\<close> length, so it wraps at 256 and the loop need not end: the loop is a partial function
  into \<open>option\<close>, where \<open>None\<close> is a parser that does not return.
\<close>

section \<open>The address\<close>

text \<open>The union of four bytes and one word, on a little-endian host.\<close>

record ipv4_t =
  s_b1 :: u8
  s_b2 :: u8
  s_b3 :: u8
  s_b4 :: u8

definition ipv4_of_bytes :: "u8 \<Rightarrow> u8 \<Rightarrow> u8 \<Rightarrow> u8 \<Rightarrow> ipv4_t" where
  "ipv4_of_bytes b1 b2 b3 b4 = \<lparr>s_b1 = b1, s_b2 = b2, s_b3 = b3, s_b4 = b4\<rparr>"

definition ipv4_of_addr :: "u32 \<Rightarrow> ipv4_t" where
  "ipv4_of_addr a = \<lparr>s_b1 = ucast a, s_b2 = ucast (drop_bit 8 a),
     s_b3 = ucast (drop_bit 16 a), s_b4 = ucast (drop_bit 24 a)\<rparr>"

definition S_addr :: "ipv4_t \<Rightarrow> u32" where
  "S_addr ip = ucast (s_b1 ip) OR push_bit 8 (ucast (s_b2 ip)) OR
     push_bit 16 (ucast (s_b3 ip)) OR push_bit 24 (ucast (s_b4 ip))"

text \<open>\<open>resolve\<close> has its body commented out: it ignores the name and returns the zero address.\<close>

definition resolve :: "bytes \<Rightarrow> ipv4_t" where
  "resolve name = ipv4_of_bytes 0 0 0 0"

section \<open>The parser\<close>

text \<open>
  The parser's variables but for \<open>string_index\<close>; \<open>result\<close> is the storage of the address, whose
  old content is unspecified.
\<close>

record ip_vars =
  at_least_one_symbol :: bool
  result_index :: u8
  ip_data :: u16
  ip_result :: bytes

abbreviation ip_throw :: "string \<Rightarrow> fault" where
  "ip_throw msg \<equiv> Throw (Runtime_error msg)"

text \<open>The loop body for the symbol under the index.\<close>

definition ip_symbol :: "u8 \<Rightarrow> ip_vars \<Rightarrow> ip_vars res" where
  "ip_symbol symbol v =
     (if ch CHR ''0'' \<le> symbol \<and> symbol \<le> ch CHR ''9'' then
        (let data = ip_data v * 10 + ucast (symbol - ch CHR ''0'') in
         if data > 255 then Inl (ip_throw ''ERROR_IPV4_DATA_OVERFLOW'')
         else Inr (v\<lparr>ip_data := data, at_least_one_symbol := True\<rparr>))
      else if symbol = ch CHR ''.'' then
        (if result_index v < 3 then
           (if at_least_one_symbol v then
              Inr (v\<lparr>ip_result := (ip_result v)[unat (result_index v) := ucast (ip_data v)],
                     ip_data := 0, result_index := result_index v + 1, at_least_one_symbol := False\<rparr>)
            else Inl (ip_throw ''ERROR_IPV4_NO_SYMBOL''))
         else Inl (ip_throw ''ERROR_IPV4_INPUT_OVERFLOW''))
      else Inl (ip_throw ''ERROR_IPV4_INVALID_SYMBOL''))"

partial_function (option) ip_loop :: "bytes \<Rightarrow> u8 \<Rightarrow> ip_vars \<Rightarrow> ip_vars res option" where
  "ip_loop string string_index v =
     (if unat string_index < length string then
        (case ip_symbol (string ! unat string_index) v of
           Inl e \<Rightarrow> Some (Inl e)
         | Inr v' \<Rightarrow> ip_loop string (string_index + 1) v')
      else Some (Inr v))"

text \<open>What follows the loop.\<close>

definition ip_finish :: "ip_vars \<Rightarrow> bytes res" where
  "ip_finish v =
     (if result_index v = 3 then
        (if at_least_one_symbol v
         then Inr ((ip_result v)[unat (result_index v) := ucast (ip_data v)])
         else Inl (ip_throw ''ERROR_IPV4_NOT_ENOUGH_INPUT''))
      else Inl (ip_throw ''ERROR_IPV4_NOT_ENOUGH_INPUT''))"

definition ip_init :: "bytes \<Rightarrow> ip_vars" where
  "ip_init old = \<lparr>at_least_one_symbol = False, result_index = 0, ip_data = 0, ip_result = old\<rparr>"

definition ipv4_parse :: "bytes \<Rightarrow> bytes \<Rightarrow> bytes res option" where
  "ipv4_parse source old =
     map_option (\<lambda>r. bind_res r ip_finish) (ip_loop source 0 (ip_init old))"

section \<open>The address word\<close>

lemma low_byte_mask: "ucast (v AND 0xFF :: u32) = (ucast v :: u8)"
proof -
  have m: "(0xFF :: u32) = mask 8" by (simp add: mask_eq_exp_minus_1)
  show ?thesis unfolding m by (rule bit_word_eqI) (auto simp: bit_simps)
qed

lemma S_addr_of_addr: "S_addr (ipv4_of_addr a) = a"
proof -
  have "S_addr (ipv4_of_addr a) = LOAD32LE (STORE32LE a) 0"
    by (simp add: S_addr_def ipv4_of_addr_def LOAD32LE_def STORE32LE_def low_byte_mask numeral_2_eq_2
      numeral_3_eq_3 or.assoc)
  then show ?thesis by (simp add: LOAD32LE_STORE32LE)
qed

section \<open>The loop on texts shorter than 256 characters\<close>

fun ip_symbols :: "bytes \<Rightarrow> ip_vars \<Rightarrow> ip_vars res" where
  "ip_symbols [] v = Inr v"
| "ip_symbols (c # s) v = bind_res (ip_symbol c v) (ip_symbols s)"

lemma ip_loop_short:
  assumes "length s < 256" and "unat i \<le> length s"
  shows "ip_loop s i v = Some (ip_symbols (drop (unat i) s) v)"
  using assms
proof (induction "length s - unat i" arbitrary: i v rule: less_induct)
  case less
  show ?case
  proof (cases "unat i < length s")
    case False
    then show ?thesis by (subst ip_loop.simps) simp
  next
    case True
    then have i: "unat (i + 1) = Suc (unat i)" using less.prems by (simp add: unat_word_ariths)
    have "ip_loop s (i + 1) v' = Some (ip_symbols (drop (Suc (unat i)) s) v')" for v'
      using less.hyps [of "i + 1" v'] True less.prems by (simp add: i)
    then show ?thesis
      using True by (subst ip_loop.simps) (simp add: Cons_nth_drop_Suc [symmetric] split: sum.split)
  qed
qed

lemma ipv4_parse_short:
  "length s < 256 \<Longrightarrow> ipv4_parse s old = Some (bind_res (ip_symbols s (ip_init old)) ip_finish)"
  by (simp add: ipv4_parse_def ip_loop_short)

section \<open>Dotted decimal text\<close>

definition is_digit :: "u8 \<Rightarrow> bool" where
  "is_digit c \<longleftrightarrow> ch CHR ''0'' \<le> c \<and> c \<le> ch CHR ''9''"

definition digit_val :: "u8 \<Rightarrow> nat" where
  "digit_val c = unat (c - ch CHR ''0'')"

definition decimal_from :: "nat \<Rightarrow> bytes \<Rightarrow> nat" where
  "decimal_from = foldl (\<lambda>n c. n * 10 + digit_val c)"

definition octet_text :: "bytes \<Rightarrow> bool" where
  "octet_text f \<longleftrightarrow> f \<noteq> [] \<and> list_all is_digit f \<and> decimal_from 0 f \<le> 255"

text \<open>The fields of a text between its dots.\<close>

fun dot_fields :: "bytes \<Rightarrow> bytes list" where
  "dot_fields [] = [[]]"
| "dot_fields (c # s) =
     (if c = ch CHR ''.'' then [] # dot_fields s
      else (case dot_fields s of f # fs \<Rightarrow> (c # f) # fs | [] \<Rightarrow> [[c]]))"

lemma dot_fields_nonempty: "dot_fields s \<noteq> []"
  by (cases s) (auto split: list.split)

lemma decimal_from_Nil [simp]: "decimal_from n [] = n"
  by (simp add: decimal_from_def)

lemma decimal_from_Cons [simp]: "decimal_from n (c # f) = decimal_from (n * 10 + digit_val c) f"
  by (simp add: decimal_from_def)

lemma decimal_from_ge: "n \<le> decimal_from n f"
proof (induction f arbitrary: n)
  case (Cons c f)
  have "n \<le> n * 10 + digit_val c" by simp
  also have "\<dots> \<le> decimal_from (n * 10 + digit_val c) f" by (rule Cons.IH)
  finally show ?case by simp
qed simp

lemma digit_val_less: "is_digit c \<Longrightarrow> digit_val c < 10"
proof -
  assume "is_digit c"
  then have c: "48 \<le> c" "48 \<le> unat c" "unat c \<le> 57" by (simp_all add: is_digit_def word_le_nat_alt)
  have "unat (c - 48) = unat c - 48" using c(1) by (simp add: unat_sub)
  then show ?thesis using c(2,3) by (simp add: digit_val_def)
qed

section \<open>What the loop accepts\<close>

text \<open>What is left of the field that the state \<open>v\<close> is in the middle of.\<close>

definition rest_of_octet :: "ip_vars \<Rightarrow> bytes \<Rightarrow> bool" where
  "rest_of_octet v f \<longleftrightarrow> (at_least_one_symbol v \<or> f \<noteq> []) \<and> list_all is_digit f \<and>
     decimal_from (unat (ip_data v)) f \<le> 255"

lemma unat_ip_data_step:
  assumes "unat (d :: u16) \<le> 255" and "is_digit c"
  shows "unat (d * 10 + ucast (c - ch CHR ''0'')) = unat d * 10 + digit_val c"
proof -
  have v: "unat (c - ch CHR ''0'') < 10" using digit_val_less [OF assms(2)] by (simp add: digit_val_def)
  have m: "unat (d * 10) = unat d * 10" using assms(1) by (simp add: unat_word_ariths)
  have u: "unat (ucast (c - ch CHR ''0'') :: u16) = digit_val c"
    using v unfolding digit_val_def by (simp add: unsigned_ucast_eq take_bit_nat_eq_self)
  have "unat (d * 10) + unat (ucast (c - ch CHR ''0'') :: u16) < 2 ^ LENGTH(16)"
    using v assms(1) unfolding m u digit_val_def by simp
  from unat_add_small [OF this] show ?thesis unfolding m u .
qed

lemma ip_symbol_digit:
  assumes "is_digit c" and "unat (ip_data v) \<le> 255"
  shows "ip_symbol c v =
    (if unat (ip_data v) * 10 + digit_val c \<le> 255
     then Inr (v\<lparr>ip_data := ip_data v * 10 + ucast (c - ch CHR ''0''), at_least_one_symbol := True\<rparr>)
     else Inl (ip_throw ''ERROR_IPV4_DATA_OVERFLOW''))"
  using assms(1) unat_ip_data_step [OF assms(2,1)]
  by (simp add: ip_symbol_def is_digit_def Let_def word_less_nat_alt not_le)

lemma not_digit_dot: "\<not> is_digit (ch CHR ''.'')"
  by (simp add: is_digit_def)

lemma ip_symbol_dot:
  "ip_symbol (ch CHR ''.'') v =
    (if result_index v < 3 then
       if at_least_one_symbol v then
         Inr (v\<lparr>ip_result := (ip_result v)[unat (result_index v) := ucast (ip_data v)],
                ip_data := 0, result_index := result_index v + 1, at_least_one_symbol := False\<rparr>)
       else Inl (ip_throw ''ERROR_IPV4_NO_SYMBOL'')
     else Inl (ip_throw ''ERROR_IPV4_INPUT_OVERFLOW''))"
  by (simp add: ip_symbol_def)

lemma ip_symbol_other:
  "\<not> is_digit c \<Longrightarrow> c \<noteq> ch CHR ''.'' \<Longrightarrow> ip_symbol c v = Inl (ip_throw ''ERROR_IPV4_INVALID_SYMBOL'')"
  unfolding ip_symbol_def is_digit_def by (simp only: if_False)

lemma take_Suc_update: "i < length xs \<Longrightarrow> take (Suc i) (xs[i := y]) = take i xs @ [y]"
  by (simp add: take_Suc_conv_app_nth)

definition ip_accepts :: "bytes \<Rightarrow> ip_vars \<Rightarrow> bytes \<Rightarrow> bool" where
  "ip_accepts s v out \<longleftrightarrow>
     (case dot_fields s of [] \<Rightarrow> False
      | f # fs \<Rightarrow> unat (result_index v) + length fs = 3 \<and> rest_of_octet v f \<and> list_all octet_text fs \<and>
          out = take (unat (result_index v)) (ip_result v) @
            of_nat (decimal_from (unat (ip_data v)) f) # map (\<lambda>g. of_nat (decimal_from 0 g)) fs)"

definition ip_ok :: "ip_vars \<Rightarrow> bool" where
  "ip_ok v \<longleftrightarrow> length (ip_result v) = 4 \<and> unat (result_index v) \<le> 3 \<and> unat (ip_data v) \<le> 255"

lemma ip_accepts_end:
  assumes "ip_ok v"
  shows "ip_finish v = Inr out \<longleftrightarrow> ip_accepts [] v out"
proof -
  have i: "result_index v = 3 \<longleftrightarrow> unat (result_index v) = 3"
    
  proof
    assume "unat (result_index v) = 3"
    then have "unat (result_index v) = unat (3 :: u8)" by simp
    then show "result_index v = 3" by (rule unsigned_word_eqI)
  qed simp
  have t: "length r = 4 \<Longrightarrow> r[3 := x] = take 3 r @ [x]" for r :: bytes and x
    using take_Suc_update [of 3 r x] by simp
  show ?thesis
    using assms by (auto simp: ip_ok_def ip_finish_def ip_accepts_def i rest_of_octet_def t)
qed

lemma ip_accepts_digit:
  assumes "ip_ok v" and "is_digit c"
  shows "ip_accepts (c # s) v out \<longleftrightarrow> unat (ip_data v) * 10 + digit_val c \<le> 255 \<and>
    ip_accepts s (v\<lparr>ip_data := ip_data v * 10 + ucast (c - ch CHR ''0''), at_least_one_symbol := True\<rparr>) out"
proof -
  have c: "c \<noteq> ch CHR ''.''" using assms(2) not_digit_dot by auto
  have "unat (ip_data v * 10 + ucast (c - ch CHR ''0'')) = unat (ip_data v) * 10 + digit_val c"
    using assms by (intro unat_ip_data_step) (simp_all add: ip_ok_def)
  then have d: "unat (ip_data v * 10 + ucast (c - 48)) = unat (ip_data v) * 10 + digit_val c" by simp
  obtain f fs where "dot_fields s = f # fs" using dot_fields_nonempty [of s] by (cases "dot_fields s") auto
  moreover have "unat (ip_data v) * 10 + digit_val c \<le> decimal_from (unat (ip_data v) * 10 + digit_val c) f"
    by (rule decimal_from_ge)
  ultimately show ?thesis
    using c assms(2) by (auto simp: ip_accepts_def rest_of_octet_def d)
qed

lemma ip_accepts_dot:
  assumes "ip_ok v"
  shows "ip_accepts (ch CHR ''.'' # s) v out \<longleftrightarrow> result_index v < 3 \<and> at_least_one_symbol v \<and>
    ip_accepts s (v\<lparr>ip_result := (ip_result v)[unat (result_index v) := ucast (ip_data v)],
      ip_data := 0, result_index := result_index v + 1, at_least_one_symbol := False\<rparr>) out"
proof -
  obtain f fs where f: "dot_fields s = f # fs"
    using dot_fields_nonempty [of s] by (cases "dot_fields s") auto
  have i: "unat (result_index v + 1) = Suc (unat (result_index v))"
    using assms by (simp add: ip_ok_def unat_word_ariths)
  have l: "result_index v < 3 \<longleftrightarrow> unat (result_index v) < 3" by (simp add: word_less_nat_alt)
  have u: "ucast (ip_data v) = (of_nat (unat (ip_data v)) :: u8)" by simp
  show ?thesis
    using assms by (auto simp: ip_accepts_def f rest_of_octet_def i l u octet_text_def ip_ok_def
      take_Suc_update simp del: of_nat_unat)
qed

lemma ip_accepts_other:
  assumes "\<not> is_digit c" and "c \<noteq> ch CHR ''.''"
  shows "\<not> ip_accepts (c # s) v out"
  using assms dot_fields_nonempty [of s]
  by (auto simp: ip_accepts_def rest_of_octet_def split: list.splits)

lemma ip_run:
  "ip_ok v \<Longrightarrow> bind_res (ip_symbols s v) ip_finish = Inr out \<longleftrightarrow> ip_accepts s v out"
proof (induction s arbitrary: v)
  case Nil
  then show ?case using ip_accepts_end by simp
next
  case (Cons c s)
  consider (digit) "is_digit c" | (dot) "c = ch CHR ''.''" | (other) "\<not> is_digit c" "c \<noteq> ch CHR ''.''"
    by blast
  then show ?case
  proof cases
    case digit
    show ?thesis
    proof (cases "unat (ip_data v) * 10 + digit_val c \<le> 255")
      case True
      let ?v = "v\<lparr>ip_data := ip_data v * 10 + ucast (c - ch CHR ''0''), at_least_one_symbol := True\<rparr>"
      have "ip_ok ?v" using Cons.prems digit True unat_ip_data_step [of "ip_data v" c] by (simp add: ip_ok_def)
      then have "bind_res (ip_symbols s ?v) ip_finish = Inr out \<longleftrightarrow> ip_accepts s ?v out" by (rule Cons.IH)
      then show ?thesis
        using Cons.prems digit True by (simp add: ip_symbol_digit ip_ok_def ip_accepts_digit [OF Cons.prems digit])
    next
      case False
      then show ?thesis
        using Cons.prems digit by (simp add: ip_symbol_digit ip_ok_def ip_accepts_digit [OF Cons.prems digit])
    qed
  next
    case dot
    let ?v = "v\<lparr>ip_result := (ip_result v)[unat (result_index v) := ucast (ip_data v)],
      ip_data := 0, result_index := result_index v + 1, at_least_one_symbol := False\<rparr>"
    have "bind_res (ip_symbols s ?v) ip_finish = Inr out \<longleftrightarrow> ip_accepts s ?v out" if "result_index v < 3"
      using Cons.prems that
      by (intro Cons.IH) (simp add: ip_ok_def unat_word_ariths word_less_nat_alt)
    then show ?thesis
      unfolding dot ip_symbols.simps ip_symbol_dot ip_accepts_dot [OF Cons.prems] by auto
  next
    case other
    then show ?thesis using ip_accepts_other by (simp add: ip_symbol_other)
  qed
qed

section \<open>Properties of the parser\<close>

text \<open>C37: A text shorter than 256 characters is always parsed to an end, and it is accepted exactly
  when it is four decimal octets separated by dots (each a non-empty run of digits with a value of
  at most 255, leading zeros allowed); the address stored is then these four values, in order,
  whatever the storage held before.\<close>

theorem ipv4_parse_correct:
  assumes "length s < 256" and "length old = 4"
  shows "ipv4_parse s old \<noteq> None \<and>
    (\<forall>out. ipv4_parse s old = Some (Inr out) \<longleftrightarrow>
       length (dot_fields s) = 4 \<and> list_all octet_text (dot_fields s) \<and>
       out = map (\<lambda>f. of_nat (decimal_from 0 f)) (dot_fields s))"
proof -
  have ok: "ip_ok (ip_init old)" using assms(2) by (simp add: ip_ok_def ip_init_def)
  have "ip_accepts s (ip_init old) out \<longleftrightarrow> length (dot_fields s) = 4 \<and>
    list_all octet_text (dot_fields s) \<and> out = map (\<lambda>f. of_nat (decimal_from 0 f)) (dot_fields s)" for out
    by (auto simp: ip_accepts_def ip_init_def rest_of_octet_def octet_text_def split: list.splits)
  then show ?thesis unfolding ipv4_parse_short [OF assms(1)] option.inject ip_run [OF ok] by simp
qed

theorem ipv4_parse_correct_witness:
  "ipv4_parse (str ''10.0.200.7'') [0, 0, 0, 0] = Some (Inr [10, 0, 200, 7])"
  using ipv4_parse_correct [of "str ''10.0.200.7''" "[0, 0, 0, 0]"]
  by (simp add: octet_text_def is_digit_def digit_val_def)

text \<open>The decimal text of an octet, as a printer writes it.\<close>

definition octet_digits :: "nat \<Rightarrow> bytes" where
  "octet_digits n =
     (if n < 10 then [48 + of_nat n]
      else if n < 100 then [48 + of_nat (n div 10), 48 + of_nat (n mod 10)]
      else [48 + of_nat (n div 100), 48 + of_nat (n div 10 mod 10), 48 + of_nat (n mod 10)])"

definition dotted :: "ipv4_t \<Rightarrow> bytes" where
  "dotted ip = octet_digits (unat (s_b1 ip)) @ ch CHR ''.'' # octet_digits (unat (s_b2 ip)) @
     ch CHR ''.'' # octet_digits (unat (s_b3 ip)) @ ch CHR ''.'' # octet_digits (unat (s_b4 ip))"

lemma digit_char:
  assumes "d < 10"
  shows "is_digit (48 + of_nat d)" and "digit_val (48 + of_nat d) = d"
proof -
  have "unat (48 + of_nat d :: u8) = 48 + d"
    using assms by (subst unat_add_small) (simp_all add: unat_of_nat_eq)
  then show "is_digit (48 + of_nat d)" using assms by (simp add: is_digit_def word_le_nat_alt)
  show "digit_val (48 + of_nat d) = d" using assms by (simp add: digit_val_def unat_of_nat_eq)
qed

lemma octet_digits_correct:
  assumes "n \<le> 255"
  shows "octet_text (octet_digits n) \<and> decimal_from 0 (octet_digits n) = n"
proof -
  have "n div 100 = n div 10 div 10" by (simp add: div_mult2_eq [of n 10 10, simplified])
  then have "n div 10 mod 10 + n div 100 * 10 = n div 10" by (simp only: mod_div_mult_eq)
  then have "n div 100 * 100 + (n div 10 mod 10 * 10 + n mod 10) = n" using mod_div_mult_eq [of n 10] by linarith
  then show ?thesis
    using assms by (auto simp: octet_digits_def octet_text_def digit_char digit_char [unfolded add.commute [of 48]] algebra_simps)
qed

lemma length_octet_digits: "length (octet_digits n) \<le> 3"
  by (simp add: octet_digits_def)

lemma dot_fields_digits:
  "list_all is_digit f \<Longrightarrow> dot_fields (f @ ch CHR ''.'' # s) = f # dot_fields s"
  "list_all is_digit f \<Longrightarrow> dot_fields f = [f]"
  using not_digit_dot by (induction f) auto

text \<open>Printing an address in dotted decimal and parsing it back gives its four bytes.\<close>

theorem ipv4_parse_dotted:
  assumes "length old = 4"
  shows "ipv4_parse (dotted ip) old = Some (Inr [s_b1 ip, s_b2 ip, s_b3 ip, s_b4 ip])"
proof -
  have o: "octet_text (octet_digits (unat b))" "decimal_from 0 (octet_digits (unat b)) = unat b"
    "list_all is_digit (octet_digits (unat b))" for b :: u8
    using octet_digits_correct [of "unat b"] unsigned_less [of b, where 'a = nat] by (auto simp: octet_text_def)
  have "dot_fields (dotted ip) = map octet_digits [unat (s_b1 ip), unat (s_b2 ip), unat (s_b3 ip), unat (s_b4 ip)]"
    unfolding dotted_def by (simp only: dot_fields_digits o list.map)
  moreover have "length (dotted ip) < 256"
    using length_octet_digits [of "unat (s_b1 ip)"] length_octet_digits [of "unat (s_b2 ip)"]
      length_octet_digits [of "unat (s_b3 ip)"] length_octet_digits [of "unat (s_b4 ip)"]
    by (simp add: dotted_def)
  ultimately show ?thesis
    using ipv4_parse_correct [of "dotted ip" old] assms by (simp add: o)
qed

section \<open>The wrapping index\<close>

text \<open>
  On a text of at least 256 characters the 8-bit index returns to 0 after 255 and the loop reads
  the first 256 characters again. When they are all zeros, no branch ever stops it. Approximations
  of the loop are all undefined there, by the step equation read backwards.
\<close>

lemma ip_zero_symbol:
  "ip_data v = 0 \<Longrightarrow> ip_symbol 48 v = Inr (v\<lparr>ip_data := 0, at_least_one_symbol := True\<rparr>)"
  by (simp add: ip_symbol_def)

lemma ip_loop_zeros:
  assumes "ip_loop s i v = Some y" and "\<forall>j < 256. s ! j = 48" and "256 \<le> length s"
  shows "ip_data v \<noteq> 0"
proof -
  have "(\<forall>j < 256. s ! j = 48) \<and> 256 \<le> length s \<longrightarrow> ip_data v \<noteq> 0"
  proof (rule ip_loop.raw_induct [of "\<lambda>s i v y. (\<forall>j < 256. s ! j = 48) \<and> 256 \<le> length s \<longrightarrow> ip_data v \<noteq> 0",
        OF _ assms(1)])
    fix step :: "bytes \<Rightarrow> u8 \<Rightarrow> ip_vars \<Rightarrow> ip_vars res option" and s i v y
    assume IH: "\<And>s i v y. step s i v = Some y \<Longrightarrow> (\<forall>j < 256. s ! j = 48) \<and> 256 \<le> length s \<longrightarrow> ip_data v \<noteq> 0"
      and y: "(if unat i < length s
        then case ip_symbol (s ! unat i) v of Inl e \<Rightarrow> Some (Inl e) | Inr v' \<Rightarrow> step s (i + 1) v'
        else Some (Inr v)) = Some y"
    have i: "unat i < 256" using unsigned_less [of i, where 'a = nat] by simp
    show "(\<forall>j < 256. s ! j = 48) \<and> 256 \<le> length s \<longrightarrow> ip_data v \<noteq> 0"
    proof (intro impI notI)
      assume s: "(\<forall>j < 256. s ! j = 48) \<and> 256 \<le> length s" and d: "ip_data v = 0"
      then have "step s (i + 1) (v\<lparr>ip_data := 0, at_least_one_symbol := True\<rparr>) = Some y"
        using y i by (simp add: ip_zero_symbol)
      from IH [OF this] s show False by simp
    qed
  qed
  then show ?thesis using assms by blast
qed

text \<open>On a text of 256 or more characters that begins with 256 zeros the parser never returns:
  its 8-bit index wraps to 0 before it reaches the end of the text.\<close>

theorem ipv4_parse_diverges:
  assumes "256 \<le> length s" and "take 256 s = replicate 256 (ch CHR ''0'')"
  shows "ipv4_parse s old = None"
proof -
  have "\<forall>j < 256. s ! j = 48"
  proof (intro allI impI)
    fix j :: nat assume "j < 256"
    then have "s ! j = take 256 s ! j" by simp
    then show "s ! j = 48" using assms(2) \<open>j < 256\<close> by simp
  qed
  then have "ip_loop s 0 (ip_init old) \<noteq> Some y" for y
    using ip_loop_zeros [of s 0 "ip_init old" y] assms(1) by (auto simp: ip_init_def)
  then show ?thesis by (simp add: ipv4_parse_def) (metis not_None_eq)
qed

theorem ipv4_parse_diverges_witness:
  "ipv4_parse (replicate 300 (ch CHR ''0'')) [0, 0, 0, 0] = None"
  by (rule ipv4_parse_diverges) simp_all

theorem ipv4_parse_dotted_witness:
  "ipv4_parse (str ''127.0.0.1'') [9, 9, 9, 9] = Some (Inr [127, 0, 0, 1])"
  using ipv4_parse_dotted [of "[9, 9, 9, 9]" "ipv4_of_bytes 127 0 0 1"]
  by (simp add: dotted_def octet_digits_def ipv4_of_bytes_def)

end
