(* ===== verification/Ez_Block.thy ===== *)
theory Ez_Block
  imports Ez_Bytes
begin

text \<open>
  What the block-wise hash functions share: the reading of a byte stream in blocks with a pending
  rest (\<open>absorb\<close>), the interface of the \<open>update\<close> loops of \<open>sha1\<close>, \<open>sha2_256\<close> and \<open>poly1305\<close>
  (locale \<open>block_feeder\<close>), the padding of FIPS 180-4, and the circular 16-word message schedule.
\<close>

section \<open>Reading a stream in blocks\<close>

function absorb :: "nat \<Rightarrow> ('c \<Rightarrow> bytes \<Rightarrow> 'c) \<Rightarrow> 'c \<Rightarrow> bytes \<Rightarrow> 'c \<times> bytes" where
  "absorb B compress c xs =
     (if B = 0 \<or> length xs < B then (c, xs) else absorb B compress (compress c (take B xs)) (drop B xs))"
  by pat_completeness auto
termination
  by (relation "measure (\<lambda>(B, compress, c, xs). length xs)") auto

declare absorb.simps [simp del]

lemma absorb_short: "length xs < B \<Longrightarrow> absorb B compress c xs = (c, xs)"
  by (simp add: absorb.simps)

lemma absorb_block: "0 < B \<Longrightarrow> length b = B \<Longrightarrow> absorb B compress c (b @ xs) = absorb B compress (compress c b) xs"
  by (subst absorb.simps) simp

lemma absorb_append:
  "0 < B \<Longrightarrow> absorb B compress c (xs @ ys) =
    absorb B compress (fst (absorb B compress c xs)) (snd (absorb B compress c xs) @ ys)"
proof (induction B compress c xs rule: absorb.induct)
  case (1 B compress c xs)
  show ?case
  proof (cases "length xs < B")
    case True
    then show ?thesis by (simp add: absorb_short)
  next
    case False
    then have "absorb B compress c (xs @ ys) = absorb B compress (compress c (take B xs)) (drop B xs @ ys)"
      using 1(2) absorb_block [of B "take B xs" compress c "drop B xs @ ys"]
      by (simp add: append_assoc [symmetric] del: append_assoc)
    also have "\<dots> = absorb B compress (fst (absorb B compress (compress c (take B xs)) (drop B xs)))
        (snd (absorb B compress (compress c (take B xs)) (drop B xs)) @ ys)"
      using 1 False by simp
    also have "absorb B compress (compress c (take B xs)) (drop B xs) = absorb B compress c xs"
      using False 1(2) absorb_block [of B "take B xs" compress c "drop B xs"] by simp
    finally show ?thesis .
  qed
qed

lemma absorb_continue:
  assumes "0 < B" and "absorb B compress c xs = (c', r)"
  shows "absorb B compress c (xs @ ys) = absorb B compress c' (r @ ys)"
  using absorb_append [OF assms(1), of compress c xs ys] unfolding assms(2) fst_conv snd_conv .

lemma absorb_rest:
  "0 < B \<Longrightarrow> length (snd (absorb B compress c xs)) = length xs mod B"
proof (induction B compress c xs rule: absorb.induct)
  case (1 B compress c xs)
  show ?case
  proof (cases "length xs < B")
    case False
    then have "absorb B compress c xs = absorb B compress (compress c (take B xs)) (drop B xs)"
      using 1(2) absorb_block [of B "take B xs" compress c "drop B xs"] by simp
    then show ?thesis using 1 False by (simp add: le_mod_geq not_less)
  qed (simp add: absorb_short)
qed

lemma absorb_chunks:
  "0 < B \<Longrightarrow> B dvd length xs \<Longrightarrow> absorb B compress c xs = (foldl compress c (chunks B xs), [])"
proof (induction B compress c xs rule: absorb.induct)
  case (1 B compress c xs)
  show ?case
  proof (cases "xs = []")
    case True
    then show ?thesis using "1.prems"(1) by (simp add: absorb_short)
  next
    case False
    then have l: "B \<le> length xs" using "1.prems" by (simp add: dvd_imp_le)
    then have "absorb B compress c xs = absorb B compress (compress c (take B xs)) (drop B xs)"
      using 1(2) absorb_block [of B "take B xs" compress c "drop B xs"] by simp
    moreover have "B dvd length (drop B xs)" using l "1.prems" by simp
    ultimately show ?thesis using 1 l False by (simp add: chunks_step)
  qed
qed

lemma foldl_chunks_absorb:
  "0 < B \<Longrightarrow> foldl compress c (chunks B xs) =
    (if snd (absorb B compress c xs) = [] then fst (absorb B compress c xs)
     else compress (fst (absorb B compress c xs)) (snd (absorb B compress c xs)))"
proof (induction B compress c xs rule: absorb.induct)
  case (1 B compress c xs)
  show ?case
  proof (cases "length xs < B")
    case True
    then show ?thesis using "1.prems" by (cases "xs = []") (simp_all add: absorb_short chunks_step)
  next
    case False
    then have "absorb B compress c xs = absorb B compress (compress c (take B xs)) (drop B xs)"
      using 1(2) absorb_block [of B "take B xs" compress c "drop B xs"] by simp
    moreover have "xs \<noteq> []" using False 1(2) by auto
    ultimately show ?thesis using 1 False by (simp add: chunks_step)
  qed
qed

section \<open>The interface of the update loops\<close>

text \<open>
  A feeder holds a core (what the compression function works on) and fewer than \<open>B\<close> pending bytes.
  Its loop takes as many bytes as still fit into the block and gives them to \<open>body\<close>, the body of the
  loop, until no data is left.
\<close>

locale block_feeder =
  fixes B :: nat
    and ok :: "'s \<Rightarrow> bool"
    and core :: "'s \<Rightarrow> 'c"
    and pending :: "'s \<Rightarrow> bytes"
    and compress :: "'c \<Rightarrow> bytes \<Rightarrow> 'c"
    and body :: "'s \<Rightarrow> bytes \<Rightarrow> 's"
    and update :: "'s \<Rightarrow> bytes \<Rightarrow> 's"
  assumes B_pos: "0 < B"
    and pending_less: "ok s \<Longrightarrow> length (pending s) < B"
    and update_nil: "update s [] = s"
    and update_loop: "ok s \<Longrightarrow> d \<noteq> [] \<Longrightarrow> n = min (length d) (B - length (pending s)) \<Longrightarrow>
      update s d = update (body s (take n d)) (drop n d)"
    and body_ok: "ok s \<Longrightarrow> length (pending s) + length d \<le> B \<Longrightarrow> ok (body s d)"
    and body_absorb: "ok s \<Longrightarrow> length (pending s) + length d \<le> B \<Longrightarrow>
      (core (body s d), pending (body s d)) = absorb B compress (core s) (pending s @ d)"
begin

lemma update_absorb:
  "ok s \<Longrightarrow> ok (update s d) \<and>
     (core (update s d), pending (update s d)) = absorb B compress (core s) (pending s @ d)"
proof (induction "length d" arbitrary: s d rule: less_induct)
  case less
  show ?case
  proof (cases "d = []")
    case True
    then show ?thesis using less.prems pending_less by (simp add: update_nil absorb_short)
  next
    case False
    define n where "n = min (length d) (B - length (pending s))"
    have n: "0 < n" "n \<le> length d" "length (pending s) + n \<le> B"
      using False pending_less [OF less.prems] by (auto simp: n_def)
    let ?s = "body s (take n d)"
    have b: "(core ?s, pending ?s) = absorb B compress (core s) (pending s @ take n d)" "ok ?s"
      using n less.prems body_absorb [of s "take n d"] body_ok [of s "take n d"] by simp_all
    have u: "ok (update ?s (drop n d)) \<and> (core (update ?s (drop n d)), pending (update ?s (drop n d))) =
        absorb B compress (core ?s) (pending ?s @ drop n d)"
      using less.hyps [of "drop n d" ?s] n b(2) False by auto
    then have "(core (update ?s (drop n d)), pending (update ?s (drop n d))) =
        absorb B compress (core ?s) (pending ?s @ drop n d)" ..
    also have "absorb B compress (core ?s) (pending ?s @ drop n d) = absorb B compress (core s) (pending s @ d)"
      using absorb_append [OF B_pos, of compress "core s" "pending s @ take n d" "drop n d"] b(1)
      by (simp add: prod_eq_iff)
    finally show ?thesis using u update_loop [OF less.prems False n_def] by simp
  qed
qed

lemmas update_ok = update_absorb [THEN conjunct1]
lemmas update_view = update_absorb [THEN conjunct2]

text \<open>Several updates are one update with all the data.\<close>

lemma updates_absorb:
  "ok s \<Longrightarrow> ok (foldl update s ds) \<and>
     (core (foldl update s ds), pending (foldl update s ds)) = absorb B compress (core s) (pending s @ concat ds)"
proof (induction ds arbitrary: s)
  case Nil
  then show ?case using pending_less by (simp add: absorb_short)
next
  case (Cons d ds)
  then show ?case
    using update_absorb [of s d] absorb_append [OF B_pos, of compress "core s" "pending s @ d" "concat ds"]
    by (auto simp: prod_eq_iff)
qed

end

text \<open>A core that counts the bytes of its blocks, as the two hash functions do.\<close>

definition counted :: "('h \<Rightarrow> bytes \<Rightarrow> 'h) \<Rightarrow> 'h \<times> u64 \<Rightarrow> bytes \<Rightarrow> 'h \<times> u64" where
  "counted compress c b = (compress (fst c) b, snd c + 64)"

lemma fst_foldl_counted: "fst (foldl (counted compress) c bs) = foldl compress (fst c) bs"
  by (induction bs arbitrary: c) (simp_all add: counted_def)

lemma absorb_counted:
  "snd (fst (absorb 64 (counted compress) c xs)) + of_nat (length (snd (absorb 64 (counted compress) c xs))) =
    snd c + of_nat (length xs)"
proof (induction "length xs" arbitrary: c xs rule: less_induct)
  case less
  show ?case
  proof (cases "length xs < 64")
    case False
    then have "absorb 64 (counted compress) c xs =
        absorb 64 (counted compress) (counted compress c (take 64 xs)) (drop 64 xs)"
      using absorb_block [of 64 "take 64 xs" "counted compress" c "drop 64 xs"] by simp
    moreover have "(of_nat (length xs) :: u64) = 64 + of_nat (length xs - 64)"
      using False by simp
    ultimately show ?thesis
      using less [of "drop 64 xs" "counted compress c (take 64 xs)"] False by (simp add: counted_def)
  qed (simp add: absorb_short)
qed

section \<open>Padding to whole blocks\<close>

text \<open>The table \<open>padding\<close> of \<open>sha1.cpp\<close> and \<open>sha2.cpp\<close>.\<close>

definition padding :: bytes where
  "padding = 0x80 # replicate 63 0"

text \<open>FIPS 180-4, 5.1.1: a one bit, zeros up to 8 bytes before the end of a block, and the length in
  bits as a 64-bit big-endian number.\<close>

definition md_pad :: "nat \<Rightarrow> bytes" where
  "md_pad len = 0x80 # replicate ((119 - len mod 64) mod 64) 0 @ STORE64BE (of_nat (8 * len))"

lemma length_STORE64BE8 [simp]: "length (STORE64BE a) = 8"
  by (simp add: STORE64BE_def)

lemma md_pad_take:
  assumes "p = len mod 64" and "ps = (if p < 56 then 56 - p else 120 - p)"
  shows "md_pad len = take ps padding @ STORE64BE (of_nat (8 * len))" and "(p + ps) mod 64 = 56" and "ps \<le> 64"
proof -
  have p: "p < 64" using assms(1) by simp
  have "ps = Suc ((119 - p) mod 64)"
  proof (cases "p < 56")
    case True
    then have "119 - p = 64 + (55 - p)" by simp
    then have "(119 - p) mod 64 = (64 + (55 - p)) mod 64" by (rule arg_cong)
    also have "\<dots> = 55 - p" unfolding mod_add_self1 using True by simp
    finally show ?thesis using True assms(2) by simp
  next
    case False
    then show ?thesis using p assms(2) by simp
  qed
  then show "md_pad len = take ps padding @ STORE64BE (of_nat (8 * len))"
    by (simp add: md_pad_def padding_def assms(1))
  have "p + ps = (if p < 56 then 56 else 120)" using p assms(2) by simp
  then show "(p + ps) mod 64 = 56" by simp
  show "ps \<le> 64" using p assms(2) by (cases "p < 56") simp_all
qed

lemma md_pad_dvd: "64 dvd length (msg @ md_pad (length msg))"
proof -
  define p where "p = length msg mod 64"
  define ps where "ps = (if p < 56 then 56 - p else 120 - p)"
  note l = md_pad_take [OF p_def ps_def]
  have "length (msg @ md_pad (length msg)) mod 64 = (length msg + ps + 8) mod 64"
    using l by (simp add: padding_def add.assoc)
  also have "\<dots> = ((p + ps) mod 64 + 8) mod 64" unfolding p_def by (simp add: mod_simps)
  also have "\<dots> = 0" using l(2) by simp
  finally show ?thesis by (simp add: dvd_eq_mod_eq_0)
qed

text \<open>The two length words that \<open>complete\<close> swaps and stores are the big-endian length.\<close>

lemma STORE64BE_halves: "STORE32BE (ucast (drop_bit 32 t)) @ STORE32BE (ucast t) = STORE64BE t"
proof (rule nth_equalityI)
  fix i assume "i < length (STORE32BE (ucast (drop_bit 32 t)) @ STORE32BE (ucast t))"
  then have i: "i < 8" by simp
  show "(STORE32BE (ucast (drop_bit 32 t)) @ STORE32BE (ucast t)) ! i = STORE64BE t ! i"
  proof (cases "i < 4")
    case True
    have e: "8 * (7 - i) = 32 + 8 * (3 - i)" using True by simp
    have "ucast (drop_bit (8 * (3 - i)) (ucast (drop_bit 32 t) :: u32)) = (ucast (drop_bit (8 * (7 - i)) t) :: u8)"
      unfolding e by (rule bit_word_eqI) (auto simp: bit_simps ac_simps)
    then show ?thesis using True i by (simp add: nth_append nth_STORE32BE nth_STORE64BE)
  next
    case False
    then have "ucast (drop_bit (8 * (7 - i)) (ucast t :: u32)) = (ucast (drop_bit (8 * (7 - i)) t) :: u8)"
      by (intro bit_word_eqI) (auto simp: bit_simps)
    then show ?thesis using False i by (simp add: nth_append nth_STORE32BE nth_STORE64BE)
  qed
qed simp

lemma swapped_words:
  "map SWAPINT32 ws = map (\<lambda>c. LOAD32BE c 0) (chunks 4 (bytes_of_words ws))"
proof -
  have "map SWAPINT32 ws = map SWAPINT32 (words_of_bytes (bytes_of_words ws))"
    by (simp add: words_of_bytes_of_words)
  also have "\<dots> = map (\<lambda>c. LOAD32BE c 0) (chunks 4 (bytes_of_words ws))"
    by (auto simp: words_of_bytes_def intro!: SWAPINT32_LOAD length_chunks_dvd)
  finally show ?thesis .
qed

lemma bytes_of_swapped: "bytes_of_words (map SWAPINT32 ws) = concat (map STORE32BE ws)"
  by (induction ws) (simp_all add: bytes_of_words_def STORE_SWAPINT32)

lemma length_concat_STORE32BE: "length (concat (map STORE32BE ws)) = 4 * length ws"
  by (induction ws) simp_all

lemma bytes_of_words_append: "bytes_of_words (xs @ ys) = bytes_of_words xs @ bytes_of_words ys"
  by (simp add: bytes_of_words_def)

lemma bytes_of_words_tail:
  assumes "length ws = 16" and "q = take 56 (bytes_of_words ws)"
  shows "bytes_of_words (ws[14 := SWAPINT32 (ucast (drop_bit 32 t)), 15 := SWAPINT32 (ucast t)]) = q @ STORE64BE t"
proof -
  have "ws[14 := a, 15 := b] = take 14 ws @ [a, b]" for a b
    using assms(1) by (simp add: list_eq_iff_nth_eq nth_append nth_list_update nth_Cons' less_Suc_eq numeral_eq_Suc)
  moreover have "bytes_of_words (take 14 ws @ drop 14 ws) = bytes_of_words (take 14 ws) @ bytes_of_words (drop 14 ws)"
    by (rule bytes_of_words_append)
  then have "take 56 (bytes_of_words ws) = bytes_of_words (take 14 ws)" using assms(1) by simp
  ultimately show ?thesis
    by (simp add: assms(2) bytes_of_words_append) (simp add: bytes_of_words_def STORE_SWAPINT32 STORE64BE_halves)
qed

section \<open>The circular message schedule\<close>

text \<open>
  \<open>w\<close> holds the last 16 words of the schedule \<open>s\<close> before round \<open>n\<close> (the first 16 while \<open>n\<close> is
  below 16), word \<open>j\<close> in slot \<open>j mod 16\<close>.
\<close>

definition circular :: "u32 list \<Rightarrow> (nat \<Rightarrow> u32) \<Rightarrow> nat \<Rightarrow> bool" where
  "circular w s n \<longleftrightarrow> length w = 16 \<and> (\<forall>j. n \<le> j + 16 \<longrightarrow> j < max n 16 \<longrightarrow> w ! (j mod 16) = s j)"

lemma circular_start: "length w = 16 \<Longrightarrow> (\<And>j. j < 16 \<Longrightarrow> s j = w ! j) \<Longrightarrow> circular w s 0"
  by (simp add: circular_def)

lemma circular_keep: "circular w s n \<Longrightarrow> n < 16 \<Longrightarrow> circular w s (Suc n)"
  by (auto simp: circular_def)

lemma circular_next:
  assumes "circular w s n" and "16 \<le> n"
  shows "circular (w[n mod 16 := s n]) s (Suc n)"
  unfolding circular_def
proof (intro conjI allI impI)
  show "length (w[n mod 16 := s n]) = 16" using assms(1) by (simp add: circular_def)
  fix j assume j: "Suc n \<le> j + 16" "j < max (Suc n) 16"
  show "w[n mod 16 := s n] ! (j mod 16) = s j"
  proof (cases "j = n")
    case True
    then show ?thesis using assms(1) by (simp add: circular_def)
  next
    case False
    then have lt: "j < n" "n - j < 16" using j assms(2) by auto
    have "j mod 16 \<noteq> n mod 16"
    proof
      assume "j mod 16 = n mod 16"
      then have "16 dvd n - j" using mod_eq_dvd_iff_nat [of j n 16] lt(1) by simp
      then show False using lt by (auto dest: dvd_imp_le)
    qed
    then show ?thesis using assms(1) lt j by (simp add: circular_def)
  qed
qed

text \<open>The macro \<open>W(t)\<close> reads slot \<open>t & 0x0F\<close>; \<open>t + k\<close> there is \<open>t - (16 - k)\<close>.\<close>

lemma circular_back:
  assumes "circular w s n" and "16 \<le> n" and "k < 16"
  shows "w ! ((n + k) mod 16) = s (n + k - 16)"
proof -
  have "(n + k) mod 16 = (n + k - 16) mod 16" using assms(2) by (simp add: le_mod_geq)
  then show ?thesis using assms by (simp add: circular_def)
qed

lemma circular_now: "circular w s n \<Longrightarrow> n < 16 \<Longrightarrow> w ! (n mod 16) = s n"
  by (simp add: circular_def)

end
