(* ===== verification/Ez_Sha1.thy ===== *)
theory Ez_Sha1
  imports Ez_Block
begin

text \<open>
  \<open>ez::sha1\<close> (\<open>include/ez/sha1.hpp\<close>, \<open>source/sha1.cpp\<close>). The buffer of 16 words is also written
  byte by byte through a cast pointer: \<open>bytes_of_words\<close> and \<open>words_of_bytes\<close> are the two views on a
  little-endian host. \<open>m_size\<close> is a \<open>size_t\<close>, so \<open>block_size - m_size\<close> is 64-bit subtraction. The
  reference is the hash of FIPS 180-4, with its 80-word message schedule.
\<close>

section \<open>State\<close>

record sha1 =
  m_digest :: "u32 list"
  m_buffer :: "u32 list"
  m_size :: u64
  m_total_size :: u64

definition sha1_reset :: "sha1 \<Rightarrow> sha1" where
  "sha1_reset st = st\<lparr>m_size := 0, m_total_size := 0,
     m_digest := [0x67452301, 0xefcdab89, 0x98badcfe, 0x10325476, 0xc3d2e1f0]\<rparr>"

text \<open>The constructor: the arrays that \<open>new impl\<close> leaves uninitialised are parameters.\<close>

definition sha1_new :: "u32 list \<Rightarrow> sha1" where
  "sha1_new junk = sha1_reset \<lparr>m_digest = [], m_buffer = junk, m_size = 0, m_total_size = 0\<rparr>"

section \<open>The compression function\<close>

definition CH :: "u32 \<Rightarrow> u32 \<Rightarrow> u32 \<Rightarrow> u32" where
  "CH x y z = (x AND y) OR (NOT x AND z)"

definition PARITY :: "u32 \<Rightarrow> u32 \<Rightarrow> u32 \<Rightarrow> u32" where
  "PARITY x y z = x XOR y XOR z"

definition MAJ :: "u32 \<Rightarrow> u32 \<Rightarrow> u32 \<Rightarrow> u32" where
  "MAJ x y z = (x AND y) OR (x AND z) OR (y AND z)"

definition sha1_k :: "u32 list" where
  "sha1_k = [0x5A827999, 0x6ED9EBA1, 0x8F1BBCDC, 0xCA62C1D6]"

text \<open>The locals \<open>a\<close> to \<open>e\<close>.\<close>

type_synonym sha1_regs = "u32 \<times> u32 \<times> u32 \<times> u32 \<times> u32"

text \<open>The body of the round loop. The macro \<open>W(t)\<close> is slot \<open>t & 0x0F\<close>.\<close>

definition sha1_round :: "sha1_regs \<times> u32 list \<Rightarrow> nat \<Rightarrow> sha1_regs \<times> u32 list" where
  "sha1_round s i =
     (case s of ((a, b, c, d, e), w) \<Rightarrow>
       let w = (if i \<ge> 16 then
                  w[i mod 16 := ROL32 (w ! ((i + 13) mod 16) XOR w ! ((i + 8) mod 16) XOR
                                       w ! ((i + 2) mod 16) XOR w ! (i mod 16)) 1]
                else w);
           temp = (if i < 20 then ROL32 a 5 + CH b c d + e + w ! (i mod 16) + sha1_k ! 0
                   else if i < 40 then ROL32 a 5 + PARITY b c d + e + w ! (i mod 16) + sha1_k ! 1
                   else if i < 60 then ROL32 a 5 + MAJ b c d + e + w ! (i mod 16) + sha1_k ! 2
                   else ROL32 a 5 + PARITY b c d + e + w ! (i mod 16) + sha1_k ! 3)
       in ((temp, a, ROL32 b 30, c, d), w))"

definition sha1_transform :: "sha1 \<Rightarrow> sha1" where
  "sha1_transform st =
     (let w = map SWAPINT32 (m_buffer st);
          ((a, b, c, d, e), w) = foldl sha1_round
            ((m_digest st ! 0, m_digest st ! 1, m_digest st ! 2, m_digest st ! 3, m_digest st ! 4), w) [0..<80]
      in st\<lparr>m_buffer := w,
            m_digest := [m_digest st ! 0 + a, m_digest st ! 1 + b, m_digest st ! 2 + c,
                         m_digest st ! 3 + d, m_digest st ! 4 + e]\<rparr>)"

section \<open>Update and completion\<close>

text \<open>The body of the loop of \<open>impl::update\<close> on the \<open>n\<close> bytes it copies.\<close>

definition sha1_update_body :: "sha1 \<Rightarrow> bytes \<Rightarrow> sha1" where
  "sha1_update_body st data =
     (let st = st\<lparr>m_buffer := words_of_bytes (memcpy_at (bytes_of_words (m_buffer st)) (unat (m_size st)) data),
                  m_size := m_size st + of_nat (length data),
                  m_total_size := m_total_size st + of_nat (length data)\<rparr>
      in if m_size st = 64 then (sha1_transform st)\<lparr>m_size := 0\<rparr> else st)"

lemma sha1_transform_size [simp]: "m_size (sha1_transform st) = m_size st"
  by (simp add: sha1_transform_def Let_def split: prod.split)

function sha1_update :: "sha1 \<Rightarrow> bytes \<Rightarrow> sha1" where
  "sha1_update st data =
     (if data = [] then st
      else let n = min (length data) (unat (64 - m_size st))
           in sha1_update (sha1_update_body st (take n data)) (drop n data))"
  by pat_completeness auto
termination
proof (relation "measure (\<lambda>(st, data). 2 * length data + (if m_size st = 64 then 1 else 0))", goal_cases)
  case (2 st data n)
  show ?case
  proof (cases "n = 0")
    case True
    then have "64 - m_size st = 0" using 2 by (simp add: min_def unat_eq_0 split: if_splits)
    then have "m_size st = 64" by simp
    then show ?thesis using True 2 by (simp add: sha1_update_body_def Let_def)
  next
    case False
    moreover have "0 < length data" using 2 by simp
    ultimately have "length data - n < length data" by (intro diff_less) simp_all
    then show ?thesis by simp
  qed
qed simp

declare sha1_update.simps [simp del]

definition sha1_complete :: "sha1 \<Rightarrow> sha1" where
  "sha1_complete st =
     (let padding_size = (if m_size st < 56 then 56 - m_size st else 64 + 56 - m_size st);
          total_size = m_total_size st * 8;
          st = sha1_update st (take (unat padding_size) padding);
          st = st\<lparr>m_buffer := (m_buffer st)[14 := SWAPINT32 (ucast (drop_bit 32 total_size))]\<rparr>;
          st = st\<lparr>m_buffer := (m_buffer st)[15 := SWAPINT32 (ucast total_size)]\<rparr>;
          st = sha1_transform st
      in st\<lparr>m_digest := map SWAPINT32 (m_digest st)\<rparr>)"

definition sha1_calculate :: "sha1 \<Rightarrow> bytes \<Rightarrow> sha1" where
  "sha1_calculate st data = sha1_complete (sha1_update st data)"

definition sha1_get :: "sha1 \<Rightarrow> bytes" where
  "sha1_get st = take 20 (bytes_of_words (m_digest st))"

definition sha1_compare_with :: "sha1 \<Rightarrow> bytes \<Rightarrow> bool" where
  "sha1_compare_with st data \<longleftrightarrow> take 20 (bytes_of_words (m_digest st)) = take 20 data"

section \<open>FIPS 180-4\<close>

definition f1 :: "nat \<Rightarrow> u32 \<Rightarrow> u32 \<Rightarrow> u32 \<Rightarrow> u32" where
  "f1 t x y z =
     (if t < 20 then (x AND y) XOR (NOT x AND z)
      else if 40 \<le> t \<and> t < 60 then (x AND y) XOR (x AND z) XOR (y AND z)
      else x XOR y XOR z)"

definition K1 :: "nat \<Rightarrow> u32" where
  "K1 t = (if t < 20 then 0x5A827999 else if t < 40 then 0x6ED9EBA1
           else if t < 60 then 0x8F1BBCDC else 0xCA62C1D6)"

fun schedule1 :: "u32 list \<Rightarrow> nat \<Rightarrow> u32" where
  "schedule1 M t =
     (if t < 16 then M ! t
      else ROL32 (schedule1 M (t - 3) XOR schedule1 M (t - 8) XOR schedule1 M (t - 14) XOR schedule1 M (t - 16)) 1)"

declare schedule1.simps [simp del]

definition round1 :: "(nat \<Rightarrow> u32) \<Rightarrow> sha1_regs \<Rightarrow> nat \<Rightarrow> sha1_regs" where
  "round1 W r t = (case r of (a, b, c, d, e) \<Rightarrow>
     (ROL32 a 5 + f1 t b c d + e + K1 t + W t, a, ROL32 b 30, c, d))"

definition compress1 :: "u32 list \<Rightarrow> bytes \<Rightarrow> u32 list" where
  "compress1 H b =
     (let M = map (\<lambda>c. LOAD32BE c 0) (chunks 4 b) in
      case foldl (round1 (schedule1 M)) (H ! 0, H ! 1, H ! 2, H ! 3, H ! 4) [0..<80] of (a, b, c, d, e) \<Rightarrow>
        [H ! 0 + a, H ! 1 + b, H ! 2 + c, H ! 3 + d, H ! 4 + e])"

definition SHA1 :: "bytes \<Rightarrow> bytes" where
  "SHA1 msg = concat (map STORE32BE
     (foldl compress1 [0x67452301, 0xefcdab89, 0x98badcfe, 0x10325476, 0xc3d2e1f0]
       (chunks 64 (msg @ md_pad (length msg)))))"

section \<open>The compression function is that of FIPS 180-4\<close>

lemma CH_f1: "CH x y z = (x AND y) XOR (NOT x AND z)"
  unfolding CH_def by (rule bit_word_eqI) (auto simp: bit_simps)

lemma MAJ_f1: "MAJ x y z = (x AND y) XOR (x AND z) XOR (y AND z)"
  unfolding MAJ_def by (rule bit_word_eqI) (auto simp: bit_simps)

lemma sha1_round_circular:
  assumes "circular w (schedule1 M) n"
  shows "\<exists>w'. sha1_round (r, w) n = (round1 (schedule1 M) r n, w') \<and> circular w' (schedule1 M) (Suc n)"
proof -
  obtain a b c d e where r: "r = (a, b, c, d, e)" by (cases r)
  define w' where "w' = (if n \<ge> 16 then w[n mod 16 := schedule1 M n] else w)"
  have w: "(if n \<ge> 16 then w[n mod 16 := ROL32 (w ! ((n + 13) mod 16) XOR w ! ((n + 8) mod 16) XOR
      w ! ((n + 2) mod 16) XOR w ! (n mod 16)) 1] else w) = w'"
    using circular_back [OF assms, of 13] circular_back [OF assms, of 8] circular_back [OF assms, of 2]
      circular_back [OF assms, of 0]
    by (simp add: w'_def schedule1.simps [of M n])
  have c: "circular w' (schedule1 M) (Suc n)"
    using assms circular_next circular_keep by (simp add: w'_def)
  have n: "w' ! (n mod 16) = schedule1 M n"
    using assms circular_now [OF assms] by (simp add: w'_def circular_def)
  have "sha1_round (r, w) n = (round1 (schedule1 M) r n, w')"
    unfolding r sha1_round_def prod.case w Let_def n
    by (simp add: round1_def f1_def K1_def sha1_k_def CH_f1 MAJ_f1 PARITY_def)
  then show ?thesis using c by blast
qed

lemma sha1_rounds:
  assumes "circular w (schedule1 M) 0"
  shows "\<exists>w'. foldl sha1_round (r, w) [0..<n] = (foldl (round1 (schedule1 M)) r [0..<n], w') \<and>
    circular w' (schedule1 M) n"
proof (induction n)
  case (Suc n)
  then obtain w' where w': "foldl sha1_round (r, w) [0..<n] = (foldl (round1 (schedule1 M)) r [0..<n], w')"
    and c: "circular w' (schedule1 M) n" by blast
  show ?case using sha1_round_circular [OF c, of "foldl (round1 (schedule1 M)) r [0..<n]"] w' by simp
qed (use assms in simp)

definition sha1_ok :: "sha1 \<Rightarrow> bool" where
  "sha1_ok st \<longleftrightarrow> length (m_buffer st) = 16 \<and> length (m_digest st) = 5 \<and> unat (m_size st) < 64"

lemma sha1_transform_correct:
  assumes "length (m_buffer st) = 16"
  shows "m_digest (sha1_transform st) = compress1 (m_digest st) (bytes_of_words (m_buffer st))"
    and "length (m_buffer (sha1_transform st)) = 16"
    and "m_total_size (sha1_transform st) = m_total_size st"
proof -
  let ?M = "map (\<lambda>c. LOAD32BE c 0) (chunks 4 (bytes_of_words (m_buffer st)))"
  let ?r = "(m_digest st ! 0, m_digest st ! 1, m_digest st ! 2, m_digest st ! 3, m_digest st ! 4)"
  have "length ?M = 16" using assms by (simp flip: swapped_words)
  then have "circular ?M (schedule1 ?M) 0" by (intro circular_start) (simp_all add: schedule1.simps)
  from sha1_rounds [OF this, of ?r 80] obtain w'
    where "foldl sha1_round (?r, ?M) [0..<80] = (foldl (round1 (schedule1 ?M)) ?r [0..<80], w')"
      and "circular w' (schedule1 ?M) 80" by blast
  then show "m_digest (sha1_transform st) = compress1 (m_digest st) (bytes_of_words (m_buffer st))"
    and "length (m_buffer (sha1_transform st)) = 16"
    and "m_total_size (sha1_transform st) = m_total_size st"
    unfolding sha1_transform_def swapped_words compress1_def
    by (simp_all add: Let_def circular_def split: prod.split)
qed

section \<open>The update loop is a block feeder\<close>

definition sha1_core :: "sha1 \<Rightarrow> u32 list \<times> u64" where
  "sha1_core st = (m_digest st, m_total_size st - m_size st)"

definition sha1_pending :: "sha1 \<Rightarrow> bytes" where
  "sha1_pending st = take (unat (m_size st)) (bytes_of_words (m_buffer st))"

lemma length_compress1 [simp]: "length (compress1 H b) = 5"
  by (simp add: compress1_def Let_def split: prod.split)

lemma length_sha1_pending: "sha1_ok st \<Longrightarrow> length (sha1_pending st) = unat (m_size st)"
  by (simp add: sha1_ok_def sha1_pending_def)

lemma sha1_body_absorb:
  assumes ok: "sha1_ok st" and d: "length (sha1_pending st) + length d \<le> 64"
  shows "sha1_ok (sha1_update_body st d) \<and>
    (sha1_core (sha1_update_body st d), sha1_pending (sha1_update_body st d)) =
      absorb 64 (counted compress1) (sha1_core st) (sha1_pending st @ d)"
proof -
  let ?bs = "memcpy_at (bytes_of_words (m_buffer st)) (unat (m_size st)) d"
  have le: "unat (m_size st) + length d \<le> 64" using d length_sha1_pending [OF ok] by simp
  have l: "length ?bs = 64" using ok le by (simp add: sha1_ok_def)
  then have w: "length (words_of_bytes ?bs) = 16" "bytes_of_words (words_of_bytes ?bs) = ?bs"
    by (simp_all add: length_words_of_bytes bytes_of_words_of_bytes)
  have sz: "unat (m_size st + of_nat (length d)) = unat (m_size st) + length d"
    using le by (subst unat_add_small) (simp_all add: unat_of_nat_eq)
  have p: "take (unat (m_size st) + length d) ?bs = sha1_pending st @ d"
    using ok by (simp add: sha1_pending_def sha1_ok_def take_memcpy_at)
  let ?st = "st\<lparr>m_buffer := words_of_bytes ?bs, m_size := m_size st + of_nat (length d),
    m_total_size := m_total_size st + of_nat (length d)\<rparr>"
  show ?thesis
  proof (cases "unat (m_size st) + length d = 64")
    case True
    then have full: "m_size st + of_nat (length d) = 64"
      using sz by (simp flip: unat_inject)
    have b: "?bs = sha1_pending st @ d" using p l True by simp
    note t = sha1_transform_correct [of ?st, simplified, OF w(1)]
    have u: "sha1_update_body st d = (sha1_transform ?st)\<lparr>m_size := 0\<rparr>"
      using full by (simp add: sha1_update_body_def)
    have e: "of_nat (length d) = 64 - m_size st" using full by (simp add: algebra_simps)
    have "absorb 64 (counted compress1) (sha1_core st) (sha1_pending st @ d) = (counted compress1 (sha1_core st) (sha1_pending st @ d), [])"
      using absorb_block [of 64 "sha1_pending st @ d" "counted compress1" "sha1_core st" "[]"] True length_sha1_pending [OF ok]
      by (simp add: absorb_short)
    then show ?thesis
      using t w b e unfolding u
      by (simp add: sha1_ok_def sha1_core_def sha1_pending_def counted_def)
  next
    case False
    then have lt: "unat (m_size st) + length d < 64" using le by simp
    then have "m_size st + of_nat (length d) \<noteq> 64" using sz by (auto simp flip: unat_inject)
    then have u: "sha1_update_body st d = ?st" by (simp add: sha1_update_body_def)
    have "absorb 64 (counted compress1) (sha1_core st) (sha1_pending st @ d) = (sha1_core st, sha1_pending st @ d)"
      using lt length_sha1_pending [OF ok] by (simp add: absorb_short)
    then show ?thesis
      using ok w p lt sz unfolding u by (simp add: sha1_ok_def sha1_core_def sha1_pending_def)
  qed
qed

lemma sha1_update_loop:
  assumes "sha1_ok st" and "d \<noteq> []" and "n = min (length d) (64 - length (sha1_pending st))"
  shows "sha1_update st d = sha1_update (sha1_update_body st (take n d)) (drop n d)"
proof -
  have "unat (64 - m_size st) = 64 - unat (m_size st)"
    using assms(1) by (subst unat_sub) (simp_all add: sha1_ok_def word_le_nat_alt)
  then show ?thesis
    using assms length_sha1_pending [OF assms(1)] by (subst sha1_update.simps) (simp add: Let_def)
qed

interpretation sha1_feeder: block_feeder 64 sha1_ok sha1_core sha1_pending "counted compress1" sha1_update_body sha1_update
proof unfold_locales
  show "sha1_ok st \<Longrightarrow> length (sha1_pending st) < 64" for st
    by (simp add: length_sha1_pending) (simp add: sha1_ok_def)
  show "sha1_update st [] = st" for st by (simp add: sha1_update.simps)
qed (use sha1_body_absorb sha1_update_loop in simp_all)

section \<open>Completion\<close>

lemma sha1_complete_correct:
  assumes ok: "sha1_ok st" and v: "(sha1_core st, sha1_pending st) = absorb 64 (counted compress1) (H, 0) msg"
    and t: "m_total_size st = of_nat (length msg)"
  shows "m_digest (sha1_complete st) =
    map SWAPINT32 (foldl compress1 H (chunks 64 (msg @ md_pad (length msg))))"
proof -
  define p where "p = length msg mod 64"
  define ps where "ps = (if p < 56 then 56 - p else 120 - p)"
  note pad = md_pad_take [OF p_def ps_def]
  have p: "unat (m_size st) = p" "p < 64"
    using absorb_rest [of 64 "counted compress1" "(H, 0)" msg] v [symmetric] length_sha1_pending [OF ok] by (simp_all add: p_def)
  have ps: "unat (if m_size st < 56 then 56 - m_size st else 64 + 56 - m_size st) = ps"
    using p by (auto simp: ps_def word_less_nat_alt unat_sub word_le_nat_alt)
  define st1 where "st1 = sha1_update st (take ps padding)"
  have u: "(sha1_core st1, sha1_pending st1) = absorb 64 (counted compress1) (H, 0) (msg @ take ps padding)"
    using sha1_feeder.update_view [OF ok, of "take ps padding"] absorb_continue [OF _ v [symmetric], of "take ps padding"]
    by (simp add: st1_def)
  have ok1: "sha1_ok st1" using sha1_feeder.update_ok [OF ok] by (simp add: st1_def)
  have "length (msg @ take ps padding) mod 64 = (p + ps) mod 64"
    using pad(3) by (simp add: padding_def p_def mod_simps)
  then have l: "length (sha1_pending st1) = 56"
    using absorb_rest [of 64 "counted compress1" "(H, 0)" "msg @ take ps padding"] u [symmetric] pad(2) by simp
  let ?t = "m_total_size st * 8"
  let ?ws = "(m_buffer st1)[14 := SWAPINT32 (ucast (drop_bit 32 ?t)), 15 := SWAPINT32 (ucast ?t)]"
  have b: "bytes_of_words ?ws = sha1_pending st1 @ STORE64BE ?t"
    using ok1 l by (intro bytes_of_words_tail) (simp_all add: sha1_ok_def sha1_pending_def)
  have "m_digest (sha1_transform (st1\<lparr>m_buffer := ?ws\<rparr>)) =
      compress1 (m_digest st1) (sha1_pending st1 @ STORE64BE ?t)"
    using sha1_transform_correct(1) [of "st1\<lparr>m_buffer := ?ws\<rparr>"] ok1 b by (simp add: sha1_ok_def)
  also have "\<dots> = fst (counted compress1 (sha1_core st1) (sha1_pending st1 @ STORE64BE ?t))"
    by (simp add: counted_def sha1_core_def)
  also have "counted compress1 (sha1_core st1) (sha1_pending st1 @ STORE64BE ?t) =
      fst (absorb 64 (counted compress1) (H, 0) (msg @ md_pad (length msg)))"
    using absorb_continue [OF _ u [symmetric], of "STORE64BE ?t"] l
      absorb_block [of 64 "sha1_pending st1 @ STORE64BE ?t" "counted compress1" "sha1_core st1" "[]"]
    by (simp add: pad(1) t absorb_short mult.commute)
  also have "\<dots> = foldl (counted compress1) (H, 0) (chunks 64 (msg @ md_pad (length msg)))"
    by (simp only: absorb_chunks [OF _ md_pad_dvd] zero_less_numeral fst_conv)
  also have "fst \<dots> = foldl compress1 H (chunks 64 (msg @ md_pad (length msg)))"
    by (simp add: fst_foldl_counted)
  finally show ?thesis
    unfolding sha1_complete_def Let_def ps by (simp add: st1_def)
qed

lemma sha1_reset_ok:
  assumes "length (m_buffer st) = 16"
  shows "sha1_ok (sha1_reset st)" and "sha1_core (sha1_reset st) = (m_digest (sha1_reset st), 0)"
    and "sha1_pending (sha1_reset st) = []"
  using assms by (simp_all add: sha1_ok_def sha1_reset_def sha1_core_def sha1_pending_def)

lemma length_foldl_compress1: "length H = 5 \<Longrightarrow> length (foldl compress1 H bs) = 5"
  by (induction bs arbitrary: H) simp_all

text \<open>\<open>sha1_fed st msg\<close>: since the last \<open>reset\<close> the object has been fed exactly \<open>msg\<close>.\<close>

definition sha1_fed :: "sha1 \<Rightarrow> bytes \<Rightarrow> bool" where
  "sha1_fed st msg \<longleftrightarrow> sha1_ok st \<and> m_total_size st = of_nat (length msg) \<and>
     (sha1_core st, sha1_pending st) = absorb 64 (counted compress1) (m_digest (sha1_reset st), 0) msg"

lemma sha1_reset_fed: "length (m_buffer st) = 16 \<Longrightarrow> sha1_fed (sha1_reset st) []"
  using sha1_reset_ok [of st] by (simp add: sha1_fed_def absorb_short) (simp add: sha1_reset_def)

lemma sha1_fed_total:
  assumes "sha1_ok st" and "(sha1_core st, sha1_pending st) = absorb 64 (counted compress1) (H, 0) msg"
  shows "m_total_size st = of_nat (length msg)"
proof -
  have "snd (sha1_core st) + of_nat (length (sha1_pending st)) = of_nat (length msg)"
    using absorb_counted [of compress1 "(H, 0)" msg] assms(2) by (metis add_0 fst_conv snd_conv)
  then show ?thesis using length_sha1_pending [OF assms(1)] by (simp add: sha1_core_def)
qed

lemma sha1_update_fed: "sha1_fed st msg \<Longrightarrow> sha1_fed (sha1_update st d) (msg @ d)"
proof -
  assume f: "sha1_fed st msg"
  then have o: "sha1_ok (sha1_update st d)" using sha1_feeder.update_ok by (simp add: sha1_fed_def)
  have "(sha1_core (sha1_update st d), sha1_pending (sha1_update st d)) =
      absorb 64 (counted compress1) (m_digest (sha1_reset st), 0) (msg @ d)"
    using f sha1_feeder.update_view [of st d]
      absorb_continue [of 64 "counted compress1" "(m_digest (sha1_reset st), 0)" msg "sha1_core st" "sha1_pending st" d]
    by (simp add: sha1_fed_def)
  then show ?thesis
    using sha1_fed_total [OF o, of "m_digest (sha1_reset st)" "msg @ d"] o by (simp add: sha1_fed_def sha1_reset_def)
qed

lemma sha1_complete_ready: "sha1_ok st \<Longrightarrow> length (m_buffer (sha1_complete st)) = 16"
  using sha1_feeder.update_ok [of st]
  by (simp add: sha1_complete_def Let_def sha1_transform_correct(2) sha1_ok_def)

lemma sha1_complete_fed: "sha1_fed st msg \<Longrightarrow> sha1_get (sha1_complete st) = SHA1 msg"
  using sha1_complete_correct [of st "m_digest (sha1_reset st)" msg]
  unfolding sha1_fed_def sha1_get_def SHA1_def
  by (simp only: bytes_of_swapped)
    (simp add: length_concat_STORE32BE length_foldl_compress1 sha1_reset_def)

lemma sha1_fed_ready: "sha1_fed st msg \<Longrightarrow> length (m_buffer st) = 16"
  by (simp add: sha1_fed_def sha1_ok_def)

lemma sha1_fed_complete_ready: "sha1_fed st msg \<Longrightarrow> length (m_buffer (sha1_complete st)) = 16"
  by (simp add: sha1_fed_def sha1_complete_ready)

lemma sha1_pieces:
  assumes "length (m_buffer st) = 16"
  shows "sha1_get (sha1_complete (foldl sha1_update (sha1_reset st) pieces)) = SHA1 (concat pieces)"
proof -
  have "sha1_fed s m \<Longrightarrow> sha1_fed (foldl sha1_update s pieces) (m @ concat pieces)" for s m
    by (induction pieces arbitrary: s m) (simp_all add: sha1_update_fed flip: append_assoc)
  then show ?thesis using sha1_reset_fed [OF assms] sha1_complete_fed by fastforce
qed

lemma length_SHA1: "length (SHA1 msg) = 20"
  by (simp add: SHA1_def length_concat_STORE32BE length_foldl_compress1)

text \<open>C8: The hash computed by \<open>reset\<close>, any number of \<open>update\<close> calls and \<open>complete\<close> is the SHA-1 of
  FIPS 180-4 of the concatenated data, for every way to cut the data into calls and whatever the
  object hashed before; the circular 16-word schedule, the byte swaps in place and the two padding
  cases of the code compute what the standard's 80-word schedule and padding define.\<close>

theorem sha1_is_SHA1:
  assumes "length (m_buffer st) = 16"
  shows "sha1_get (sha1_complete (foldl sha1_update (sha1_reset st) pieces)) = SHA1 (concat pieces)"
  using assms by (rule sha1_pieces)

text \<open>\<open>calculate\<close> on a fresh object gives the SHA-1 of the data, 20 bytes long, and
  \<open>compare_with\<close> accepts exactly that digest.\<close>

theorem sha1_calculate_correct:
  assumes "length junk = 16"
  shows "sha1_get (sha1_calculate (sha1_new junk) msg) = SHA1 msg \<and> length (SHA1 msg) = 20 \<and>
    (length d = 20 \<longrightarrow> (sha1_compare_with (sha1_calculate (sha1_new junk) msg) d \<longleftrightarrow> d = SHA1 msg))"
proof -
  let ?st = "\<lparr>m_digest = [], m_buffer = junk, m_size = 0, m_total_size = 0\<rparr> :: sha1"
  have "sha1_get (sha1_complete (foldl sha1_update (sha1_reset ?st) [msg])) = SHA1 (concat [msg])"
    by (rule sha1_pieces) (simp add: assms)
  then have "sha1_get (sha1_calculate (sha1_new junk) msg) = SHA1 msg"
    by (simp add: sha1_calculate_def sha1_new_def)
  moreover note length_SHA1 [of msg]
  ultimately show ?thesis
    by (auto simp: sha1_compare_with_def simp flip: sha1_get_def)
qed

theorem sha1_is_SHA1_witness:
  "sha1_get (sha1_complete (sha1_update (sha1_update (sha1_reset
     \<lparr>m_digest = [1], m_buffer = replicate 16 7, m_size = 9, m_total_size = 9\<rparr>) (str ''a'')) (str ''bc''))) =
   SHA1 (str ''abc'')"
  using sha1_is_SHA1 [of "\<lparr>m_digest = [1], m_buffer = replicate 16 7, m_size = 9, m_total_size = 9\<rparr>"
    "[str ''a'', str ''bc'']"] by simp

theorem sha1_calculate_correct_witness:
  "sha1_get (sha1_calculate (sha1_new (replicate 16 0)) (str ''abc'')) = SHA1 (str ''abc'') \<and>
   sha1_compare_with (sha1_calculate (sha1_new (replicate 16 0)) (str ''abc'')) (SHA1 (str ''abc''))"
  using sha1_calculate_correct [of "replicate 16 0" "str ''abc''" "SHA1 (str ''abc'')"]
  by (simp del: list.map)

end
