(* ===== verification/Ez_Sha2.thy ===== *)
theory Ez_Sha2
  imports Ez_Block
begin

text \<open>
  \<open>ez::sha2_256\<close> (\<open>include/ez/sha2.hpp\<close>, \<open>source/sha2.cpp\<close>). The state, the update loop and the
  completion have the shape of \<open>sha1\<close>; the reference is SHA-256 of FIPS 180-4, with its 64-word
  message schedule.
\<close>

section \<open>State\<close>

record sha2_256 =
  m_digest :: "u32 list"
  m_buffer :: "u32 list"
  m_size :: u64
  m_total_size :: u64

definition sha2_256_reset :: "sha2_256 \<Rightarrow> sha2_256" where
  "sha2_256_reset st = st\<lparr>m_size := 0, m_total_size := 0,
     m_digest := [0x6A09E667, 0xBB67AE85, 0x3C6EF372, 0xA54FF53A,
     0x510E527F, 0x9B05688C, 0x1F83D9AB, 0x5BE0CD19]\<rparr>"

text \<open>The constructor: the arrays that \<open>new impl\<close> leaves uninitialised are parameters.\<close>

definition sha2_256_new :: "u32 list \<Rightarrow> sha2_256" where
  "sha2_256_new junk = sha2_256_reset \<lparr>m_digest = [], m_buffer = junk, m_size = 0, m_total_size = 0\<rparr>"

section \<open>The compression function\<close>

definition CH :: "u32 \<Rightarrow> u32 \<Rightarrow> u32 \<Rightarrow> u32" where
  "CH x y z = (x AND y) OR (NOT x AND z)"

definition MAJ :: "u32 \<Rightarrow> u32 \<Rightarrow> u32 \<Rightarrow> u32" where
  "MAJ x y z = (x AND y) OR (x AND z) OR (y AND z)"

definition SIGMA1 :: "u32 \<Rightarrow> u32" where
  "SIGMA1 x = ROR32 x 2 XOR ROR32 x 13 XOR ROR32 x 22"

definition SIGMA2 :: "u32 \<Rightarrow> u32" where
  "SIGMA2 x = ROR32 x 6 XOR ROR32 x 11 XOR ROR32 x 25"

definition SIGMA3 :: "u32 \<Rightarrow> u32" where
  "SIGMA3 x = ROR32 x 7 XOR ROR32 x 18 XOR SHR32 x 3"

definition SIGMA4 :: "u32 \<Rightarrow> u32" where
  "SIGMA4 x = ROR32 x 17 XOR ROR32 x 19 XOR SHR32 x 10"

definition sha2_256_k :: "u32 list" where
  "sha2_256_k =
    [0x428A2F98, 0x71374491, 0xB5C0FBCF, 0xE9B5DBA5, 0x3956C25B, 0x59F111F1, 0x923F82A4, 0xAB1C5ED5,
     0xD807AA98, 0x12835B01, 0x243185BE, 0x550C7DC3, 0x72BE5D74, 0x80DEB1FE, 0x9BDC06A7, 0xC19BF174,
     0xE49B69C1, 0xEFBE4786, 0x0FC19DC6, 0x240CA1CC, 0x2DE92C6F, 0x4A7484AA, 0x5CB0A9DC, 0x76F988DA,
     0x983E5152, 0xA831C66D, 0xB00327C8, 0xBF597FC7, 0xC6E00BF3, 0xD5A79147, 0x06CA6351, 0x14292967,
     0x27B70A85, 0x2E1B2138, 0x4D2C6DFC, 0x53380D13, 0x650A7354, 0x766A0ABB, 0x81C2C92E, 0x92722C85,
     0xA2BFE8A1, 0xA81A664B, 0xC24B8B70, 0xC76C51A3, 0xD192E819, 0xD6990624, 0xF40E3585, 0x106AA070,
     0x19A4C116, 0x1E376C08, 0x2748774C, 0x34B0BCB5, 0x391C0CB3, 0x4ED8AA4A, 0x5B9CCA4F, 0x682E6FF3,
     0x748F82EE, 0x78A5636F, 0x84C87814, 0x8CC70208, 0x90BEFFFA, 0xA4506CEB, 0xBEF9A3F7, 0xC67178F2]"

text \<open>The locals \<open>a\<close> to \<open>h\<close>.\<close>

type_synonym sha2_256_regs = "u32 \<times> u32 \<times> u32 \<times> u32 \<times> u32 \<times> u32 \<times> u32 \<times> u32"

text \<open>The body of the round loop. The macro \<open>W(t)\<close> is slot \<open>t & 0x0F\<close>.\<close>

definition sha2_256_round :: "sha2_256_regs \<times> u32 list \<Rightarrow> nat \<Rightarrow> sha2_256_regs \<times> u32 list" where
  "sha2_256_round s t =
     (case s of ((a, b, c, d, e, f, g, h), w) \<Rightarrow>
       let w = (if t \<ge> 16 then
                  w[t mod 16 := w ! (t mod 16) +
                    (SIGMA4 (w ! ((t + 14) mod 16)) + w ! ((t + 9) mod 16) + SIGMA3 (w ! ((t + 1) mod 16)))]
                else w);
           temp1 = h + SIGMA2 e + CH e f g + sha2_256_k ! t + w ! (t mod 16);
           temp2 = SIGMA1 a + MAJ a b c
       in ((temp1 + temp2, a, b, c, d + temp1, e, f, g), w))"

definition sha2_256_transform :: "sha2_256 \<Rightarrow> sha2_256" where
  "sha2_256_transform st =
     (let w = map SWAPINT32 (m_buffer st);
          ((a, b, c, d, e, f, g, h), w) = foldl sha2_256_round
            ((m_digest st ! 0, m_digest st ! 1, m_digest st ! 2, m_digest st ! 3,
              m_digest st ! 4, m_digest st ! 5, m_digest st ! 6, m_digest st ! 7), w) [0..<64]
      in st\<lparr>m_buffer := w,
            m_digest := [m_digest st ! 0 + a, m_digest st ! 1 + b, m_digest st ! 2 + c, m_digest st ! 3 + d,
                         m_digest st ! 4 + e, m_digest st ! 5 + f, m_digest st ! 6 + g, m_digest st ! 7 + h]\<rparr>)"

section \<open>Update and completion\<close>

text \<open>The body of the loop of \<open>impl::update\<close> on the \<open>n\<close> bytes it copies.\<close>

definition sha2_256_update_body :: "sha2_256 \<Rightarrow> bytes \<Rightarrow> sha2_256" where
  "sha2_256_update_body st data =
     (let st = st\<lparr>m_buffer := words_of_bytes (memcpy_at (bytes_of_words (m_buffer st)) (unat (m_size st)) data),
                  m_size := m_size st + of_nat (length data),
                  m_total_size := m_total_size st + of_nat (length data)\<rparr>
      in if m_size st = 64 then (sha2_256_transform st)\<lparr>m_size := 0\<rparr> else st)"

lemma sha2_256_transform_size [simp]: "m_size (sha2_256_transform st) = m_size st"
  by (simp add: sha2_256_transform_def Let_def split: prod.split)

function sha2_256_update :: "sha2_256 \<Rightarrow> bytes \<Rightarrow> sha2_256" where
  "sha2_256_update st data =
     (if data = [] then st
      else let n = min (length data) (unat (64 - m_size st))
           in sha2_256_update (sha2_256_update_body st (take n data)) (drop n data))"
  by pat_completeness auto
termination
proof (relation "measure (\<lambda>(st, data). 2 * length data + (if m_size st = 64 then 1 else 0))", goal_cases)
  case (2 st data n)
  show ?case
  proof (cases "n = 0")
    case True
    then have "64 - m_size st = 0" using 2 by (simp add: min_def unat_eq_0 split: if_splits)
    then have "m_size st = 64" by simp
    then show ?thesis using True 2 by (simp add: sha2_256_update_body_def Let_def)
  next
    case False
    moreover have "0 < length data" using 2 by simp
    ultimately have "length data - n < length data" by (intro diff_less) simp_all
    then show ?thesis by simp
  qed
qed simp

declare sha2_256_update.simps [simp del]

definition sha2_256_complete :: "sha2_256 \<Rightarrow> sha2_256" where
  "sha2_256_complete st =
     (let padding_size = (if m_size st < 56 then 56 - m_size st else 64 + 56 - m_size st);
          total_size = m_total_size st * 8;
          st = sha2_256_update st (take (unat padding_size) padding);
          st = st\<lparr>m_buffer := (m_buffer st)[14 := SWAPINT32 (ucast (drop_bit 32 total_size))]\<rparr>;
          st = st\<lparr>m_buffer := (m_buffer st)[15 := SWAPINT32 (ucast total_size)]\<rparr>;
          st = sha2_256_transform st
      in st\<lparr>m_digest := map SWAPINT32 (m_digest st)\<rparr>)"

definition sha2_256_calculate :: "sha2_256 \<Rightarrow> bytes \<Rightarrow> sha2_256" where
  "sha2_256_calculate st data = sha2_256_complete (sha2_256_update st data)"

definition sha2_256_get :: "sha2_256 \<Rightarrow> bytes" where
  "sha2_256_get st = take 32 (bytes_of_words (m_digest st))"

definition sha2_256_compare_with :: "sha2_256 \<Rightarrow> bytes \<Rightarrow> bool" where
  "sha2_256_compare_with st data \<longleftrightarrow> take 32 (bytes_of_words (m_digest st)) = take 32 data"

section \<open>FIPS 180-4\<close>

definition Ch2 :: "u32 \<Rightarrow> u32 \<Rightarrow> u32 \<Rightarrow> u32" where
  "Ch2 x y z = (x AND y) XOR (NOT x AND z)"

definition Maj2 :: "u32 \<Rightarrow> u32 \<Rightarrow> u32 \<Rightarrow> u32" where
  "Maj2 x y z = (x AND y) XOR (x AND z) XOR (y AND z)"

text \<open>The functions written with rotations of the word, 4.1.2.\<close>

definition Sigma0 :: "u32 \<Rightarrow> u32" where
  "Sigma0 x = word_rotr 2 x XOR word_rotr 13 x XOR word_rotr 22 x"

definition Sigma1 :: "u32 \<Rightarrow> u32" where
  "Sigma1 x = word_rotr 6 x XOR word_rotr 11 x XOR word_rotr 25 x"

definition sigma0 :: "u32 \<Rightarrow> u32" where
  "sigma0 x = word_rotr 7 x XOR word_rotr 18 x XOR drop_bit 3 x"

definition sigma1 :: "u32 \<Rightarrow> u32" where
  "sigma1 x = word_rotr 17 x XOR word_rotr 19 x XOR drop_bit 10 x"

fun schedule2 :: "u32 list \<Rightarrow> nat \<Rightarrow> u32" where
  "schedule2 M t =
     (if t < 16 then M ! t
      else sigma1 (schedule2 M (t - 2)) + schedule2 M (t - 7) + sigma0 (schedule2 M (t - 15)) + schedule2 M (t - 16))"

declare schedule2.simps [simp del]

definition round2 :: "(nat \<Rightarrow> u32) \<Rightarrow> sha2_256_regs \<Rightarrow> nat \<Rightarrow> sha2_256_regs" where
  "round2 W r t = (case r of (a, b, c, d, e, f, g, h) \<Rightarrow>
     let T1 = h + Sigma1 e + Ch2 e f g + sha2_256_k ! t + W t;
         T2 = Sigma0 a + Maj2 a b c
     in (T1 + T2, a, b, c, d + T1, e, f, g))"

definition compress2 :: "u32 list \<Rightarrow> bytes \<Rightarrow> u32 list" where
  "compress2 H b =
     (let M = map (\<lambda>c. LOAD32BE c 0) (chunks 4 b) in
      case foldl (round2 (schedule2 M)) (H ! 0, H ! 1, H ! 2, H ! 3, H ! 4, H ! 5, H ! 6, H ! 7) [0..<64]
      of (a, b, c, d, e, f, g, h) \<Rightarrow>
        [H ! 0 + a, H ! 1 + b, H ! 2 + c, H ! 3 + d, H ! 4 + e, H ! 5 + f, H ! 6 + g, H ! 7 + h])"

definition SHA256 :: "bytes \<Rightarrow> bytes" where
  "SHA256 msg = concat (map STORE32BE
     (foldl compress2 [0x6A09E667, 0xBB67AE85, 0x3C6EF372, 0xA54FF53A,
     0x510E527F, 0x9B05688C, 0x1F83D9AB, 0x5BE0CD19]
       (chunks 64 (msg @ md_pad (length msg)))))"

section \<open>The constants\<close>

text \<open>\<open>k\<close> is the fraction of the \<open>e\<close>-th root of \<open>p\<close>, to 32 bits.\<close>

definition root_fraction :: "nat \<Rightarrow> nat \<Rightarrow> u32 \<Rightarrow> bool" where
  "root_fraction e p k \<longleftrightarrow>
     (let n = length (filter (\<lambda>a. a ^ e \<le> p) [1, 2, 3, 4, 5, 6]) * 2 ^ 32 + unat k in
      n ^ e \<le> p * 2 ^ (32 * e) \<and> p * 2 ^ (32 * e) < (n + 1) ^ e)"

definition first_primes :: "nat list" where
  "first_primes =
    [2, 3, 5, 7, 11, 13, 17, 19, 23, 29, 31, 37, 41, 43, 47, 53, 59, 61, 67, 71, 73, 79, 83, 89, 97, 101, 103,
     107, 109, 113, 127, 131, 137, 139, 149, 151, 157, 163, 167, 173, 179, 181, 191, 193, 197, 199, 211, 223,
     227, 229, 233, 239, 241, 251, 257, 263, 269, 271, 277, 281, 283, 293, 307, 311]"

text \<open>The 64 round constants of the code are the first 32 bits of the fractions of the cube roots of
  the first 64 primes, and the initial digest that \<open>reset\<close> stores is the same for the square roots of
  the first eight, as FIPS 180-4 defines them.\<close>

theorem sha2_256_constants:
  "list_all2 (root_fraction 3) first_primes sha2_256_k \<and>
   list_all2 (root_fraction 2) (take 8 first_primes) (m_digest (sha2_256_reset st))"
  by (simp add: first_primes_def root_fraction_def sha2_256_k_def sha2_256_reset_def)

section \<open>The compression function is that of FIPS 180-4\<close>

lemma CH_Ch2: "CH x y z = Ch2 x y z"
  unfolding CH_def Ch2_def by (rule bit_word_eqI) (auto simp: bit_simps)

lemma MAJ_Maj2: "MAJ x y z = Maj2 x y z"
  unfolding MAJ_def Maj2_def by (rule bit_word_eqI) (auto simp: bit_simps)

lemma ROR32_rotr: "0 < n \<Longrightarrow> n < 32 \<Longrightarrow> ROR32 x n = word_rotr n x"
proof (rule bit_word_eqI)
  fix i assume n: "0 < n" "n < 32" and "i < LENGTH(32)"
  then have i: "i < 32" by simp
  show "bit (ROR32 x n) i = bit (word_rotr n x) i"
  proof (cases "i + n < 32")
    case True
    then show ?thesis using n i by (auto simp: ROR32_def bit_simps add.commute)
  next
    case False
    then have e: "(i + n) mod 32 = i - (32 - n)" using n i by (simp add: le_mod_geq)
    show ?thesis using False n i unfolding ROR32_def bit_word_rotr_iff
      by (auto simp: e bit_simps dest: bit_imp_le_length)
  qed
qed

lemma SIGMAs: "SIGMA1 x = Sigma0 x" "SIGMA2 x = Sigma1 x" "SIGMA3 x = sigma0 x" "SIGMA4 x = sigma1 x"
  by (simp_all add: SIGMA1_def SIGMA2_def SIGMA3_def SIGMA4_def Sigma0_def Sigma1_def sigma0_def sigma1_def
    ROR32_rotr SHR32_def)

lemma sha2_256_round_circular:
  assumes "circular w (schedule2 M) n"
  shows "\<exists>w'. sha2_256_round (r, w) n = (round2 (schedule2 M) r n, w') \<and> circular w' (schedule2 M) (Suc n)"
proof -
  obtain a b c d e f g h where r: "r = (a, b, c, d, e, f, g, h)" by (metis surj_pair)
  define w' where "w' = (if n \<ge> 16 then w[n mod 16 := schedule2 M n] else w)"
  have w: "(if n \<ge> 16 then w[n mod 16 := w ! (n mod 16) + (SIGMA4 (w ! ((n + 14) mod 16)) +
      w ! ((n + 9) mod 16) + SIGMA3 (w ! ((n + 1) mod 16)))] else w) = w'"
    using circular_back [OF assms, of 14] circular_back [OF assms, of 9] circular_back [OF assms, of 1]
      circular_back [OF assms, of 0]
    by (simp add: w'_def schedule2.simps [of M n] SIGMAs ac_simps numeral_2_eq_2)
  have c: "circular w' (schedule2 M) (Suc n)"
    using assms circular_next circular_keep by (simp add: w'_def)
  have n: "w' ! (n mod 16) = schedule2 M n"
    using assms circular_now [OF assms] by (simp add: w'_def circular_def)
  have "sha2_256_round (r, w) n = (round2 (schedule2 M) r n, w')"
    unfolding r sha2_256_round_def prod.case w Let_def n
    by (simp add: round2_def CH_Ch2 MAJ_Maj2 SIGMAs Let_def)
  then show ?thesis using c by blast
qed

lemma sha2_256_rounds:
  assumes "circular w (schedule2 M) 0"
  shows "\<exists>w'. foldl sha2_256_round (r, w) [0..<n] = (foldl (round2 (schedule2 M)) r [0..<n], w') \<and>
    circular w' (schedule2 M) n"
proof (induction n)
  case (Suc n)
  then obtain w' where w': "foldl sha2_256_round (r, w) [0..<n] = (foldl (round2 (schedule2 M)) r [0..<n], w')"
    and c: "circular w' (schedule2 M) n" by blast
  show ?case using sha2_256_round_circular [OF c, of "foldl (round2 (schedule2 M)) r [0..<n]"] w' by simp
qed (use assms in simp)

definition sha2_256_ok :: "sha2_256 \<Rightarrow> bool" where
  "sha2_256_ok st \<longleftrightarrow> length (m_buffer st) = 16 \<and> length (m_digest st) = 8 \<and> unat (m_size st) < 64"

lemma sha2_256_transform_correct:
  assumes "length (m_buffer st) = 16"
  shows "m_digest (sha2_256_transform st) = compress2 (m_digest st) (bytes_of_words (m_buffer st))"
    and "length (m_buffer (sha2_256_transform st)) = 16"
    and "m_total_size (sha2_256_transform st) = m_total_size st"
proof -
  let ?M = "map (\<lambda>c. LOAD32BE c 0) (chunks 4 (bytes_of_words (m_buffer st)))"
  let ?r = "(m_digest st ! 0, m_digest st ! 1, m_digest st ! 2, m_digest st ! 3,
    m_digest st ! 4, m_digest st ! 5, m_digest st ! 6, m_digest st ! 7)"
  have "length ?M = 16" using assms by (simp flip: swapped_words)
  then have "circular ?M (schedule2 ?M) 0" by (intro circular_start) (simp_all add: schedule2.simps)
  from sha2_256_rounds [OF this, of ?r 64] obtain w'
    where "foldl sha2_256_round (?r, ?M) [0..<64] = (foldl (round2 (schedule2 ?M)) ?r [0..<64], w')"
      and "circular w' (schedule2 ?M) 64" by blast
  then show "m_digest (sha2_256_transform st) = compress2 (m_digest st) (bytes_of_words (m_buffer st))"
    and "length (m_buffer (sha2_256_transform st)) = 16"
    and "m_total_size (sha2_256_transform st) = m_total_size st"
    unfolding sha2_256_transform_def swapped_words compress2_def
    by (simp_all add: Let_def circular_def split: prod.split)
qed

section \<open>The update loop is a block feeder\<close>

definition sha2_256_core :: "sha2_256 \<Rightarrow> u32 list \<times> u64" where
  "sha2_256_core st = (m_digest st, m_total_size st - m_size st)"

definition sha2_256_pending :: "sha2_256 \<Rightarrow> bytes" where
  "sha2_256_pending st = take (unat (m_size st)) (bytes_of_words (m_buffer st))"

lemma length_compress2 [simp]: "length (compress2 H b) = 8"
  by (simp add: compress2_def Let_def split: prod.split)

lemma length_sha2_256_pending: "sha2_256_ok st \<Longrightarrow> length (sha2_256_pending st) = unat (m_size st)"
  by (simp add: sha2_256_ok_def sha2_256_pending_def)

lemma sha2_256_body_absorb:
  assumes ok: "sha2_256_ok st" and d: "length (sha2_256_pending st) + length d \<le> 64"
  shows "sha2_256_ok (sha2_256_update_body st d) \<and>
    (sha2_256_core (sha2_256_update_body st d), sha2_256_pending (sha2_256_update_body st d)) =
      absorb 64 (counted compress2) (sha2_256_core st) (sha2_256_pending st @ d)"
proof -
  let ?bs = "memcpy_at (bytes_of_words (m_buffer st)) (unat (m_size st)) d"
  have le: "unat (m_size st) + length d \<le> 64" using d length_sha2_256_pending [OF ok] by simp
  have l: "length ?bs = 64" using ok le by (simp add: sha2_256_ok_def)
  then have w: "length (words_of_bytes ?bs) = 16" "bytes_of_words (words_of_bytes ?bs) = ?bs"
    by (simp_all add: length_words_of_bytes bytes_of_words_of_bytes)
  have sz: "unat (m_size st + of_nat (length d)) = unat (m_size st) + length d"
    using le by (subst unat_add_small) (simp_all add: unat_of_nat_eq)
  have p: "take (unat (m_size st) + length d) ?bs = sha2_256_pending st @ d"
    using ok by (simp add: sha2_256_pending_def sha2_256_ok_def take_memcpy_at)
  let ?st = "st\<lparr>m_buffer := words_of_bytes ?bs, m_size := m_size st + of_nat (length d),
    m_total_size := m_total_size st + of_nat (length d)\<rparr>"
  show ?thesis
  proof (cases "unat (m_size st) + length d = 64")
    case True
    then have full: "m_size st + of_nat (length d) = 64"
      using sz by (simp flip: unat_inject)
    have b: "?bs = sha2_256_pending st @ d" using p l True by simp
    note t = sha2_256_transform_correct [of ?st, simplified, OF w(1)]
    have u: "sha2_256_update_body st d = (sha2_256_transform ?st)\<lparr>m_size := 0\<rparr>"
      using full by (simp add: sha2_256_update_body_def)
    have e: "of_nat (length d) = 64 - m_size st" using full by (simp add: algebra_simps)
    have "absorb 64 (counted compress2) (sha2_256_core st) (sha2_256_pending st @ d) = (counted compress2 (sha2_256_core st) (sha2_256_pending st @ d), [])"
      using absorb_block [of 64 "sha2_256_pending st @ d" "counted compress2" "sha2_256_core st" "[]"] True length_sha2_256_pending [OF ok]
      by (simp add: absorb_short)
    then show ?thesis
      using t w b e unfolding u
      by (simp add: sha2_256_ok_def sha2_256_core_def sha2_256_pending_def counted_def)
  next
    case False
    then have lt: "unat (m_size st) + length d < 64" using le by simp
    then have "m_size st + of_nat (length d) \<noteq> 64" using sz by (auto simp flip: unat_inject)
    then have u: "sha2_256_update_body st d = ?st" by (simp add: sha2_256_update_body_def)
    have "absorb 64 (counted compress2) (sha2_256_core st) (sha2_256_pending st @ d) = (sha2_256_core st, sha2_256_pending st @ d)"
      using lt length_sha2_256_pending [OF ok] by (simp add: absorb_short)
    then show ?thesis
      using ok w p lt sz unfolding u by (simp add: sha2_256_ok_def sha2_256_core_def sha2_256_pending_def)
  qed
qed

lemma sha2_256_update_loop:
  assumes "sha2_256_ok st" and "d \<noteq> []" and "n = min (length d) (64 - length (sha2_256_pending st))"
  shows "sha2_256_update st d = sha2_256_update (sha2_256_update_body st (take n d)) (drop n d)"
proof -
  have "unat (64 - m_size st) = 64 - unat (m_size st)"
    using assms(1) by (subst unat_sub) (simp_all add: sha2_256_ok_def word_le_nat_alt)
  then show ?thesis
    using assms length_sha2_256_pending [OF assms(1)] by (subst sha2_256_update.simps) (simp add: Let_def)
qed

interpretation sha2_256_feeder: block_feeder 64 sha2_256_ok sha2_256_core sha2_256_pending "counted compress2" sha2_256_update_body sha2_256_update
proof unfold_locales
  show "sha2_256_ok st \<Longrightarrow> length (sha2_256_pending st) < 64" for st
    by (simp add: length_sha2_256_pending) (simp add: sha2_256_ok_def)
  show "sha2_256_update st [] = st" for st by (simp add: sha2_256_update.simps)
qed (use sha2_256_body_absorb sha2_256_update_loop in simp_all)

section \<open>Completion\<close>

lemma sha2_256_complete_correct:
  assumes ok: "sha2_256_ok st" and v: "(sha2_256_core st, sha2_256_pending st) = absorb 64 (counted compress2) (H, 0) msg"
    and t: "m_total_size st = of_nat (length msg)"
  shows "m_digest (sha2_256_complete st) =
    map SWAPINT32 (foldl compress2 H (chunks 64 (msg @ md_pad (length msg))))"
proof -
  define p where "p = length msg mod 64"
  define ps where "ps = (if p < 56 then 56 - p else 120 - p)"
  note pad = md_pad_take [OF p_def ps_def]
  have p: "unat (m_size st) = p" "p < 64"
    using absorb_rest [of 64 "counted compress2" "(H, 0)" msg] v [symmetric] length_sha2_256_pending [OF ok] by (simp_all add: p_def)
  have ps: "unat (if m_size st < 56 then 56 - m_size st else 64 + 56 - m_size st) = ps"
    using p by (auto simp: ps_def word_less_nat_alt unat_sub word_le_nat_alt)
  define st1 where "st1 = sha2_256_update st (take ps padding)"
  have u: "(sha2_256_core st1, sha2_256_pending st1) = absorb 64 (counted compress2) (H, 0) (msg @ take ps padding)"
    using sha2_256_feeder.update_view [OF ok, of "take ps padding"] absorb_continue [OF _ v [symmetric], of "take ps padding"]
    by (simp add: st1_def)
  have ok1: "sha2_256_ok st1" using sha2_256_feeder.update_ok [OF ok] by (simp add: st1_def)
  have "length (msg @ take ps padding) mod 64 = (p + ps) mod 64"
    using pad(3) by (simp add: padding_def p_def mod_simps)
  then have l: "length (sha2_256_pending st1) = 56"
    using absorb_rest [of 64 "counted compress2" "(H, 0)" "msg @ take ps padding"] u [symmetric] pad(2) by simp
  let ?t = "m_total_size st * 8"
  let ?ws = "(m_buffer st1)[14 := SWAPINT32 (ucast (drop_bit 32 ?t)), 15 := SWAPINT32 (ucast ?t)]"
  have b: "bytes_of_words ?ws = sha2_256_pending st1 @ STORE64BE ?t"
    using ok1 l by (intro bytes_of_words_tail) (simp_all add: sha2_256_ok_def sha2_256_pending_def)
  have "m_digest (sha2_256_transform (st1\<lparr>m_buffer := ?ws\<rparr>)) =
      compress2 (m_digest st1) (sha2_256_pending st1 @ STORE64BE ?t)"
    using sha2_256_transform_correct(1) [of "st1\<lparr>m_buffer := ?ws\<rparr>"] ok1 b by (simp add: sha2_256_ok_def)
  also have "\<dots> = fst (counted compress2 (sha2_256_core st1) (sha2_256_pending st1 @ STORE64BE ?t))"
    by (simp add: counted_def sha2_256_core_def)
  also have "counted compress2 (sha2_256_core st1) (sha2_256_pending st1 @ STORE64BE ?t) =
      fst (absorb 64 (counted compress2) (H, 0) (msg @ md_pad (length msg)))"
    using absorb_continue [OF _ u [symmetric], of "STORE64BE ?t"] l
      absorb_block [of 64 "sha2_256_pending st1 @ STORE64BE ?t" "counted compress2" "sha2_256_core st1" "[]"]
    by (simp add: pad(1) t absorb_short mult.commute)
  also have "\<dots> = foldl (counted compress2) (H, 0) (chunks 64 (msg @ md_pad (length msg)))"
    by (simp only: absorb_chunks [OF _ md_pad_dvd] zero_less_numeral fst_conv)
  also have "fst \<dots> = foldl compress2 H (chunks 64 (msg @ md_pad (length msg)))"
    by (simp add: fst_foldl_counted)
  finally show ?thesis
    unfolding sha2_256_complete_def Let_def ps by (simp add: st1_def)
qed

lemma sha2_256_reset_ok:
  assumes "length (m_buffer st) = 16"
  shows "sha2_256_ok (sha2_256_reset st)" and "sha2_256_core (sha2_256_reset st) = (m_digest (sha2_256_reset st), 0)"
    and "sha2_256_pending (sha2_256_reset st) = []"
  using assms by (simp_all add: sha2_256_ok_def sha2_256_reset_def sha2_256_core_def sha2_256_pending_def)

lemma length_foldl_compress2: "length H = 8 \<Longrightarrow> length (foldl compress2 H bs) = 8"
  by (induction bs arbitrary: H) simp_all

text \<open>\<open>sha2_256_fed st msg\<close>: since the last \<open>reset\<close> the object has been fed exactly \<open>msg\<close>.\<close>

definition sha2_256_fed :: "sha2_256 \<Rightarrow> bytes \<Rightarrow> bool" where
  "sha2_256_fed st msg \<longleftrightarrow> sha2_256_ok st \<and> m_total_size st = of_nat (length msg) \<and>
     (sha2_256_core st, sha2_256_pending st) = absorb 64 (counted compress2) (m_digest (sha2_256_reset st), 0) msg"

lemma sha2_256_reset_fed: "length (m_buffer st) = 16 \<Longrightarrow> sha2_256_fed (sha2_256_reset st) []"
  using sha2_256_reset_ok [of st] by (simp add: sha2_256_fed_def absorb_short) (simp add: sha2_256_reset_def)

lemma sha2_256_fed_total:
  assumes "sha2_256_ok st" and "(sha2_256_core st, sha2_256_pending st) = absorb 64 (counted compress2) (H, 0) msg"
  shows "m_total_size st = of_nat (length msg)"
proof -
  have "snd (sha2_256_core st) + of_nat (length (sha2_256_pending st)) = of_nat (length msg)"
    using absorb_counted [of compress2 "(H, 0)" msg] assms(2) by (metis add_0 fst_conv snd_conv)
  then show ?thesis using length_sha2_256_pending [OF assms(1)] by (simp add: sha2_256_core_def)
qed

lemma sha2_256_update_fed: "sha2_256_fed st msg \<Longrightarrow> sha2_256_fed (sha2_256_update st d) (msg @ d)"
proof -
  assume f: "sha2_256_fed st msg"
  then have o: "sha2_256_ok (sha2_256_update st d)" using sha2_256_feeder.update_ok by (simp add: sha2_256_fed_def)
  have "(sha2_256_core (sha2_256_update st d), sha2_256_pending (sha2_256_update st d)) =
      absorb 64 (counted compress2) (m_digest (sha2_256_reset st), 0) (msg @ d)"
    using f sha2_256_feeder.update_view [of st d]
      absorb_continue [of 64 "counted compress2" "(m_digest (sha2_256_reset st), 0)" msg "sha2_256_core st" "sha2_256_pending st" d]
    by (simp add: sha2_256_fed_def)
  then show ?thesis
    using sha2_256_fed_total [OF o, of "m_digest (sha2_256_reset st)" "msg @ d"] o by (simp add: sha2_256_fed_def sha2_256_reset_def)
qed

lemma sha2_256_complete_ready: "sha2_256_ok st \<Longrightarrow> length (m_buffer (sha2_256_complete st)) = 16"
  using sha2_256_feeder.update_ok [of st]
  by (simp add: sha2_256_complete_def Let_def sha2_256_transform_correct(2) sha2_256_ok_def)

lemma sha2_256_complete_fed: "sha2_256_fed st msg \<Longrightarrow> sha2_256_get (sha2_256_complete st) = SHA256 msg"
  using sha2_256_complete_correct [of st "m_digest (sha2_256_reset st)" msg]
  unfolding sha2_256_fed_def sha2_256_get_def SHA256_def
  by (simp only: bytes_of_swapped)
    (simp add: length_concat_STORE32BE length_foldl_compress2 sha2_256_reset_def)

lemma sha2_256_fed_ready: "sha2_256_fed st msg \<Longrightarrow> length (m_buffer st) = 16"
  by (simp add: sha2_256_fed_def sha2_256_ok_def)

lemma sha2_256_fed_complete_ready: "sha2_256_fed st msg \<Longrightarrow> length (m_buffer (sha2_256_complete st)) = 16"
  by (simp add: sha2_256_fed_def sha2_256_complete_ready)

lemma sha2_256_pieces:
  assumes "length (m_buffer st) = 16"
  shows "sha2_256_get (sha2_256_complete (foldl sha2_256_update (sha2_256_reset st) pieces)) = SHA256 (concat pieces)"
proof -
  have "sha2_256_fed s m \<Longrightarrow> sha2_256_fed (foldl sha2_256_update s pieces) (m @ concat pieces)" for s m
    by (induction pieces arbitrary: s m) (simp_all add: sha2_256_update_fed flip: append_assoc)
  then show ?thesis using sha2_256_reset_fed [OF assms] sha2_256_complete_fed by fastforce
qed

lemma length_SHA256: "length (SHA256 msg) = 32"
  by (simp add: SHA256_def length_concat_STORE32BE length_foldl_compress2)

text \<open>C4: The hash computed by \<open>reset\<close>, any number of \<open>update\<close> calls and \<open>complete\<close> is the SHA-256 of
  FIPS 180-4 of the concatenated data, for every way to cut the data into calls and whatever the
  object hashed before; the circular 16-word schedule, the byte swaps in place and the two padding
  cases of the code compute what the standard's 64-word schedule and padding define.\<close>

theorem sha2_256_is_SHA256:
  assumes "length (m_buffer st) = 16"
  shows "sha2_256_get (sha2_256_complete (foldl sha2_256_update (sha2_256_reset st) pieces)) = SHA256 (concat pieces)"
  using assms by (rule sha2_256_pieces)

text \<open>\<open>calculate\<close> on a fresh object gives the SHA-256 of the data, 32 bytes long, and
  \<open>compare_with\<close> accepts exactly that digest.\<close>

theorem sha2_256_calculate_correct:
  assumes "length junk = 16"
  shows "sha2_256_get (sha2_256_calculate (sha2_256_new junk) msg) = SHA256 msg \<and> length (SHA256 msg) = 32 \<and>
    (length d = 32 \<longrightarrow> (sha2_256_compare_with (sha2_256_calculate (sha2_256_new junk) msg) d \<longleftrightarrow> d = SHA256 msg))"
proof -
  let ?st = "\<lparr>m_digest = [], m_buffer = junk, m_size = 0, m_total_size = 0\<rparr> :: sha2_256"
  have "sha2_256_get (sha2_256_complete (foldl sha2_256_update (sha2_256_reset ?st) [msg])) = SHA256 (concat [msg])"
    by (rule sha2_256_pieces) (simp add: assms)
  then have "sha2_256_get (sha2_256_calculate (sha2_256_new junk) msg) = SHA256 msg"
    by (simp add: sha2_256_calculate_def sha2_256_new_def)
  moreover note length_SHA256 [of msg]
  ultimately show ?thesis
    by (auto simp: sha2_256_compare_with_def simp flip: sha2_256_get_def)
qed

theorem sha2_256_is_SHA256_witness:
  "sha2_256_get (sha2_256_complete (sha2_256_update (sha2_256_update (sha2_256_reset
     \<lparr>m_digest = [1], m_buffer = replicate 16 7, m_size = 9, m_total_size = 9\<rparr>) (str ''a'')) (str ''bc''))) =
   SHA256 (str ''abc'')"
  using sha2_256_is_SHA256 [of "\<lparr>m_digest = [1], m_buffer = replicate 16 7, m_size = 9, m_total_size = 9\<rparr>"
    "[str ''a'', str ''bc'']"] by simp

theorem sha2_256_calculate_correct_witness:
  "sha2_256_get (sha2_256_calculate (sha2_256_new (replicate 16 0)) (str ''abc'')) = SHA256 (str ''abc'') \<and>
   sha2_256_compare_with (sha2_256_calculate (sha2_256_new (replicate 16 0)) (str ''abc'')) (SHA256 (str ''abc''))"
  using sha2_256_calculate_correct [of "replicate 16 0" "str ''abc''" "SHA256 (str ''abc'')"]
  by (simp del: list.map)

end
