(* ===== verification/Ez_Hmac.thy ===== *)
theory Ez_Hmac
  imports Ez_Sha1 Ez_Sha2
begin

text \<open>
  The class template \<open>ez::hmac<HashType>\<close> (\<open>include/ez/hmac.hpp\<close>). The template parameter is a
  record of the operations that the template calls on \<open>HashType\<close>; the locale \<open>hash_function\<close> is what
  it relies on, and \<open>sha1\<close> and \<open>sha2_256\<close> are shown to provide it.
\<close>

section \<open>The template\<close>

record 'h hash_type =
  ht_reset :: "'h \<Rightarrow> 'h"
  ht_update :: "'h \<Rightarrow> bytes \<Rightarrow> 'h"
  ht_complete :: "'h \<Rightarrow> 'h"
  ht_calculate :: "'h \<Rightarrow> bytes \<Rightarrow> 'h"
  ht_copy_to :: "'h \<Rightarrow> bytes"
  ht_block_size :: nat
  ht_digest_size :: nat

record 'h hmac =
  m_hash :: 'h
  m_key :: bytes
  hmac_digest :: bytes

abbreviation HMAC_IPAD :: u8 where "HMAC_IPAD \<equiv> 0x36"
abbreviation HMAC_OPAD :: u8 where "HMAC_OPAD \<equiv> 0x5C"

definition hmac_set_key :: "'h hash_type \<Rightarrow> 'h hmac \<Rightarrow> bytes \<Rightarrow> 'h hmac" where
  "hmac_set_key HashType st key =
     (let st = (if length key > ht_block_size HashType then
                  let hash = ht_calculate HashType (m_hash st) key;
                      k = memcpy_at (m_key st) 0 (ht_copy_to HashType hash);
                      k = memcpy_at k (ht_digest_size HashType)
                            (replicate (ht_block_size HashType - ht_digest_size HashType) 0)
                  in st\<lparr>m_hash := hash, m_key := k\<rparr>
                else
                  let k = memcpy_at (m_key st) 0 key;
                      k = memcpy_at k (length key) (replicate (ht_block_size HashType - length key) 0)
                  in st\<lparr>m_key := k\<rparr>);
          st = st\<lparr>m_key := map (\<lambda>b. b XOR HMAC_IPAD) (m_key st)\<rparr>;
          st = st\<lparr>m_hash := ht_reset HashType (m_hash st)\<rparr>
      in st\<lparr>m_hash := ht_update HashType (m_hash st) (m_key st)\<rparr>)"

definition hmac_update :: "'h hash_type \<Rightarrow> 'h hmac \<Rightarrow> bytes \<Rightarrow> 'h hmac" where
  "hmac_update HashType st data = st\<lparr>m_hash := ht_update HashType (m_hash st) data\<rparr>"

definition hmac_complete :: "'h hash_type \<Rightarrow> 'h hmac \<Rightarrow> 'h hmac" where
  "hmac_complete HashType st =
     (let st = st\<lparr>m_hash := ht_complete HashType (m_hash st)\<rparr>;
          st = st\<lparr>hmac_digest := ht_copy_to HashType (m_hash st)\<rparr>;
          st = st\<lparr>m_key := map (\<lambda>b. b XOR (HMAC_IPAD XOR HMAC_OPAD)) (m_key st)\<rparr>;
          st = st\<lparr>m_hash := ht_reset HashType (m_hash st)\<rparr>;
          st = st\<lparr>m_hash := ht_update HashType (m_hash st) (m_key st)\<rparr>;
          st = st\<lparr>m_hash := ht_update HashType (m_hash st) (hmac_digest st)\<rparr>;
          st = st\<lparr>m_hash := ht_complete HashType (m_hash st)\<rparr>
      in st\<lparr>hmac_digest := ht_copy_to HashType (m_hash st)\<rparr>)"

definition hmac_copy_to :: "'h hmac \<Rightarrow> bytes" where
  "hmac_copy_to st = hmac_digest st"

text \<open>The constructor with a key: \<open>hash\<close> is the default-constructed hash object, \<open>junk\<close> the
  uninitialised key array.\<close>

definition hmac_new :: "'h hash_type \<Rightarrow> 'h \<Rightarrow> bytes \<Rightarrow> bytes \<Rightarrow> 'h hmac" where
  "hmac_new HashType hash junk key =
     hmac_set_key HashType \<lparr>m_hash = hash, m_key = junk, hmac_digest = []\<rparr> key"

section \<open>The standard\<close>

text \<open>FIPS 198-1: the key hashed if it is longer than a block, filled up with zeros, and the two
  nested hashes.\<close>

definition HMAC_key :: "(bytes \<Rightarrow> bytes) \<Rightarrow> nat \<Rightarrow> bytes \<Rightarrow> bytes" where
  "HMAC_key H B key = (if length key \<le> B then key else H key)"

definition HMAC_pad :: "nat \<Rightarrow> bytes \<Rightarrow> u8 \<Rightarrow> bytes" where
  "HMAC_pad B key pad = map (\<lambda>b. b XOR pad) (key @ replicate (B - length key) 0)"

definition HMAC :: "(bytes \<Rightarrow> bytes) \<Rightarrow> nat \<Rightarrow> bytes \<Rightarrow> bytes \<Rightarrow> bytes" where
  "HMAC H B key msg =
     (let K0 = HMAC_key H B key in H (HMAC_pad B K0 0x5C @ H (HMAC_pad B K0 0x36 @ msg)))"

section \<open>What the template relies on\<close>

text \<open>
  \<open>fed s m\<close>: since its last \<open>reset\<close> the object \<open>s\<close> has been fed \<open>m\<close>. \<open>ready\<close> objects can be reset.
\<close>

locale hash_function =
  fixes HashType :: "'h hash_type"
    and ready :: "'h \<Rightarrow> bool"
    and fed :: "'h \<Rightarrow> bytes \<Rightarrow> bool"
    and H :: "bytes \<Rightarrow> bytes"
  assumes reset_fed: "ready s \<Longrightarrow> fed (ht_reset HashType s) []"
    and update_fed: "fed s m \<Longrightarrow> fed (ht_update HashType s d) (m @ d)"
    and complete_digest: "fed s m \<Longrightarrow> ht_copy_to HashType (ht_complete HashType s) = H m"
    and fed_ready: "fed s m \<Longrightarrow> ready s"
    and complete_ready: "fed s m \<Longrightarrow> ready (ht_complete HashType s)"
    and calculate: "ht_calculate HashType s d = ht_complete HashType (ht_update HashType s d)"
    and length_H: "length (H m) = ht_digest_size HashType"
    and digest_le_block: "ht_digest_size HashType \<le> ht_block_size HashType"
begin

abbreviation B :: nat where "B \<equiv> ht_block_size HashType"

text \<open>After \<open>set_key\<close> with the effective key \<open>K\<close> and the data \<open>msg\<close>.\<close>

definition keyed :: "'h hmac \<Rightarrow> bytes \<Rightarrow> bytes \<Rightarrow> bool" where
  "keyed st K msg \<longleftrightarrow> m_key st = HMAC_pad B K 0x36 \<and> fed (m_hash st) (HMAC_pad B K 0x36 @ msg)"

lemma fill_key:
  assumes "length k = B" and "length K \<le> B"
  shows "memcpy_at (memcpy_at k 0 K) (length K) (replicate (B - length K) 0) = K @ replicate (B - length K) 0"
  using assms by (simp add: memcpy_at_def)

lemma set_key_short:
  assumes "length (m_key st) = B" and "ready (m_hash st)" and "length key \<le> B"
  shows "keyed (hmac_set_key HashType st key) key []"
  using assms update_fed [OF reset_fed [OF assms(2)]]
  by (simp add: keyed_def hmac_set_key_def Let_def fill_key HMAC_pad_def)

lemma set_key_long:
  assumes "length (m_key st) = B" and "fed (m_hash st) m" and "B < length key"
  shows "keyed (hmac_set_key HashType st key) (H (m @ key)) []"
proof -
  have f: "fed (ht_update HashType (m_hash st) key) (m @ key)" by (rule update_fed [OF assms(2)])
  then have k: "ht_copy_to HashType (ht_calculate HashType (m_hash st) key) = H (m @ key)"
    by (simp add: calculate complete_digest)
  have "ready (ht_calculate HashType (m_hash st) key)" using complete_ready [OF f] by (simp add: calculate)
  from update_fed [OF reset_fed [OF this]] show ?thesis
    using assms(1,3) fill_key [of "m_key st" "H (m @ key)"] digest_le_block
    by (simp add: keyed_def hmac_set_key_def Let_def k length_H HMAC_pad_def)
qed

lemma update_keyed: "keyed st K msg \<Longrightarrow> keyed (hmac_update HashType st d) K (msg @ d)"
  using update_fed [of "m_hash st" "HMAC_pad B K 0x36 @ msg" d] by (simp add: keyed_def hmac_update_def)

lemma updates_keyed: "keyed st K msg \<Longrightarrow> keyed (foldl (hmac_update HashType) st ds) K (msg @ concat ds)"
  by (induction ds arbitrary: st msg) (simp_all add: update_keyed flip: append_assoc)

lemma complete_keyed:
  assumes "keyed st K msg"
  shows "hmac_copy_to (hmac_complete HashType st) = H (HMAC_pad B K 0x5C @ H (HMAC_pad B K 0x36 @ msg))"
proof -
  have f: "fed (m_hash st) (HMAC_pad B K 0x36 @ msg)" and k: "m_key st = HMAC_pad B K 0x36"
    using assms by (simp_all add: keyed_def)
  have "map (\<lambda>b. b XOR (HMAC_IPAD XOR HMAC_OPAD)) (HMAC_pad B K 0x36) = HMAC_pad B K 0x5C"
    unfolding HMAC_pad_def by (simp add: comp_def xor.assoc)
  moreover have "fed (ht_update HashType (ht_update HashType (ht_reset HashType
      (ht_complete HashType (m_hash st))) k) d) (k @ d)" for k d
    using update_fed [OF update_fed [OF reset_fed [OF complete_ready [OF f]]]] by simp
  ultimately show ?thesis
    using complete_digest [OF f]
    by (simp add: hmac_copy_to_def hmac_complete_def Let_def k complete_digest)
qed

lemma hmac_correct:
  assumes "length (m_key st) = B" and "fed (m_hash st) m" and "length key \<le> B \<or> m = []"
  shows "hmac_copy_to (hmac_complete HashType (foldl (hmac_update HashType) (hmac_set_key HashType st key) ds)) =
    HMAC H B key (concat ds)"
proof -
  have "keyed (hmac_set_key HashType st key) (HMAC_key H B key) []"
    using assms set_key_short [OF assms(1) fed_ready [OF assms(2)]] set_key_long [OF assms(1,2), of key]
    by (auto simp: HMAC_key_def not_le)
  from complete_keyed [OF updates_keyed [OF this, of ds]] show ?thesis by (simp add: HMAC_def Let_def)
qed

lemma hmac_rekeyed:
  assumes "length (m_key st) = B" and "ready (m_hash st)" and "length k1 \<le> B" and "B < length k2"
  shows "hmac_copy_to (hmac_complete HashType (foldl (hmac_update HashType)
      (hmac_set_key HashType (foldl (hmac_update HashType) (hmac_set_key HashType st k1) ds1) k2) ds2)) =
    HMAC H B (H (HMAC_pad B k1 0x36 @ concat ds1 @ k2)) (concat ds2)"
proof -
  let ?st = "foldl (hmac_update HashType) (hmac_set_key HashType st k1) ds1"
  have k: "keyed ?st k1 (concat ds1)"
    using updates_keyed [OF set_key_short [OF assms(1-3)], of ds1] by simp
  then have "keyed (hmac_set_key HashType ?st k2) (H (HMAC_pad B k1 0x36 @ concat ds1 @ k2)) []"
    using set_key_long [of ?st "HMAC_pad B k1 0x36 @ concat ds1" k2] assms(3,4)
    by (simp add: keyed_def HMAC_pad_def)
  from complete_keyed [OF updates_keyed [OF this, of ds2]] show ?thesis
    using digest_le_block by (simp add: HMAC_def HMAC_key_def length_H Let_def)
qed

end

section \<open>The two hash types\<close>

definition sha1_type :: "sha1 hash_type" where
  "sha1_type = \<lparr>ht_reset = sha1_reset, ht_update = sha1_update, ht_complete = sha1_complete,
     ht_calculate = sha1_calculate, ht_copy_to = sha1_get, ht_block_size = 64, ht_digest_size = 20\<rparr>"

definition sha2_256_type :: "sha2_256 hash_type" where
  "sha2_256_type = \<lparr>ht_reset = sha2_256_reset, ht_update = sha2_256_update, ht_complete = sha2_256_complete,
     ht_calculate = sha2_256_calculate, ht_copy_to = sha2_256_get, ht_block_size = 64, ht_digest_size = 32\<rparr>"

interpretation sha1_hash: hash_function sha1_type "\<lambda>s. length (Ez_Sha1.m_buffer s) = 16" sha1_fed SHA1
  by unfold_locales
    (auto simp: sha1_type_def sha1_reset_fed sha1_update_fed sha1_complete_fed sha1_calculate_def length_SHA1
      intro: sha1_fed_ready sha1_fed_complete_ready)

interpretation sha2_256_hash:
  hash_function sha2_256_type "\<lambda>s. length (Ez_Sha2.m_buffer s) = 16" sha2_256_fed SHA256
  by unfold_locales
    (auto simp: sha2_256_type_def sha2_256_reset_fed sha2_256_update_fed sha2_256_complete_fed
      sha2_256_calculate_def length_SHA256 intro: sha2_256_fed_ready sha2_256_fed_complete_ready)

section \<open>Properties\<close>

lemma type_sizes [simp]: "ht_block_size sha1_type = 64" "ht_block_size sha2_256_type = 64"
  by (simp_all add: sha1_type_def sha2_256_type_def)

text \<open>C6: \<open>hmac<sha1>\<close> and \<open>hmac<sha2_256>\<close> compute the HMAC of FIPS 198-1: for a key of any length on
  a new object, and data cut into any number of updates, the digest is
  H((K0 xor opad) || H((K0 xor ipad) || data)) with the standard's SHA-1 and SHA-256.\<close>

theorem hmac_is_HMAC:
  assumes "length junk = 64" and "length junk1 = 16" and "length junk2 = 16"
  shows "hmac_copy_to (hmac_complete sha1_type (foldl (hmac_update sha1_type)
      (hmac_new sha1_type (sha1_new junk1) junk key) pieces)) = HMAC SHA1 64 key (concat pieces) \<and>
    hmac_copy_to (hmac_complete sha2_256_type (foldl (hmac_update sha2_256_type)
      (hmac_new sha2_256_type (sha2_256_new junk2) junk key) pieces)) = HMAC SHA256 64 key (concat pieces)"
proof
  have f1: "sha1_fed (sha1_new junk1) []" unfolding sha1_new_def by (rule sha1_reset_fed) (simp add: assms)
  show "hmac_copy_to (hmac_complete sha1_type (foldl (hmac_update sha1_type)
      (hmac_new sha1_type (sha1_new junk1) junk key) pieces)) = HMAC SHA1 64 key (concat pieces)"
    using sha1_hash.hmac_correct [of "\<lparr>m_hash = sha1_new junk1, m_key = junk, hmac_digest = []\<rparr>" "[]" key pieces]
    by (simp add: hmac_new_def f1 assms)
  have f2: "sha2_256_fed (sha2_256_new junk2) []"
    unfolding sha2_256_new_def by (rule sha2_256_reset_fed) (simp add: assms)
  show "hmac_copy_to (hmac_complete sha2_256_type (foldl (hmac_update sha2_256_type)
      (hmac_new sha2_256_type (sha2_256_new junk2) junk key) pieces)) = HMAC SHA256 64 key (concat pieces)"
    using sha2_256_hash.hmac_correct
      [of "\<lparr>m_hash = sha2_256_new junk2, m_key = junk, hmac_digest = []\<rparr>" "[]" key pieces]
    by (simp add: hmac_new_def f2 assms)
qed

theorem hmac_is_HMAC_witness:
  "hmac_copy_to (hmac_complete sha2_256_type (hmac_update sha2_256_type (hmac_update sha2_256_type
     (hmac_new sha2_256_type (sha2_256_new (replicate 16 0)) (replicate 64 0) (replicate 100 1)) [1]) [2])) =
   HMAC SHA256 64 (replicate 100 1) [1, 2]"
  using hmac_is_HMAC [of "replicate 64 0" "replicate 16 0" "replicate 16 0" "replicate 100 1" "[[1], [2]]"]
  by simp

text \<open>Re-keying after data has been fed, with a key longer than a block: \<open>set_key\<close> calls
  \<open>calculate\<close> on the hash object without a \<open>reset\<close>, so the key that is used is not the hash of the new
  key but the hash of the old inner pad, the old data and the new key.\<close>

theorem hmac_rekey_keeps_old_data:
  assumes "length k1 \<le> 64" and "64 < length k2" and "length junk = 64" and "length junk1 = 16"
  shows "hmac_copy_to (hmac_complete sha1_type (hmac_update sha1_type (hmac_set_key sha1_type
      (hmac_update sha1_type (hmac_new sha1_type (sha1_new junk1) junk k1) d1) k2) d2)) =
    HMAC SHA1 64 (SHA1 (HMAC_pad 64 k1 0x36 @ d1 @ k2)) d2"
  using sha1_hash.hmac_rekeyed [of "\<lparr>m_hash = sha1_new junk1, m_key = junk, hmac_digest = []\<rparr>" k1 k2 "[d1]" "[d2]"]
    assms by (simp add: hmac_new_def sha1_new_def sha1_reset_def)

theorem hmac_rekey_keeps_old_data_witness:
  "hmac_copy_to (hmac_complete sha1_type (hmac_update sha1_type (hmac_set_key sha1_type
      (hmac_update sha1_type (hmac_new sha1_type (sha1_new (replicate 16 0)) (replicate 64 0) [1]) [2])
      (replicate 65 3)) [4])) =
    HMAC SHA1 64 (SHA1 (HMAC_pad 64 [1] 0x36 @ [2] @ replicate 65 3)) [4]"
  by (rule hmac_rekey_keeps_old_data) simp_all

end
