(* ===== verification/Ez_Chacha20.thy ===== *)
theory Ez_Chacha20
  imports Ez_Bytes
begin

text \<open>
  \<open>ez::chacha20\<close> (\<open>include/ez/chacha20.hpp\<close>, \<open>source/chacha20.cpp\<close>): the state of 16 words, the
  current block of key stream with the position in it, and the loop that XORs it onto the data. The
  reference is RFC 8439: the block function written on the rows of the matrix, and the key stream as
  the sequence of blocks of increasing counters.
\<close>

section \<open>State\<close>

record chacha20 =
  rounds :: nat
  pos :: nat
  state :: "u32 list"
  block :: "u32 list"

text \<open>The members with initialisers; the two arrays are uninitialised.\<close>

definition chacha20_new :: "u32 list \<Rightarrow> u32 list \<Rightarrow> chacha20" where
  "chacha20_new junk1 junk2 = \<lparr>rounds = 20, pos = 0, state = junk1, block = junk2\<rparr>"

definition encrypted_size :: "nat \<Rightarrow> nat" where
  "encrypted_size in_size = in_size"

definition decrypted_size :: "nat \<Rightarrow> nat" where
  "decrypted_size in_size = in_size"

definition set_rounds :: "chacha20 \<Rightarrow> nat \<Rightarrow> chacha20 res" where
  "set_rounds st n =
     (if n \<noteq> 8 \<and> n \<noteq> 12 \<and> n \<noteq> 20 then Inl (Throw (Runtime_error ''invalid number of rounds''))
      else Inr (st\<lparr>rounds := n\<rparr>))"

definition chacha20_set_key :: "chacha20 \<Rightarrow> bytes \<Rightarrow> chacha20 res" where
  "chacha20_set_key st key =
     (if length key \<noteq> 16 \<and> length key \<noteq> 32 then Inl (Throw (Runtime_error ''invalid key size''))
      else if length key = 16 then
        Inr (st\<lparr>state := (state st)
          [0 := 0x61707865, 1 := 0x3120646E, 2 := 0x79622D36, 3 := 0x6B206574,
           4 := LOAD32LE key 0, 5 := LOAD32LE key 4, 6 := LOAD32LE key 8, 7 := LOAD32LE key 12,
           8 := LOAD32LE key 0, 9 := LOAD32LE key 4, 10 := LOAD32LE key 8, 11 := LOAD32LE key 12]\<rparr>)
      else
        Inr (st\<lparr>state := (state st)
          [0 := 0x61707865, 1 := 0x3320646E, 2 := 0x79622D32, 3 := 0x6B206574,
           4 := LOAD32LE key 0, 5 := LOAD32LE key 4, 6 := LOAD32LE key 8, 7 := LOAD32LE key 12,
           8 := LOAD32LE key 16, 9 := LOAD32LE key 20, 10 := LOAD32LE key 24, 11 := LOAD32LE key 28]\<rparr>))"

definition chacha20_set_iv :: "chacha20 \<Rightarrow> bytes \<Rightarrow> chacha20 res" where
  "chacha20_set_iv st iv =
     (if length iv \<noteq> 8 \<and> length iv \<noteq> 12 then Inl (Throw (Runtime_error ''invalid iv size''))
      else if length iv = 8 then
        Inr (st\<lparr>state := (state st)[12 := 0, 13 := 0, 14 := LOAD32LE iv 0, 15 := LOAD32LE iv 4]\<rparr>)
      else
        Inr (st\<lparr>state := (state st)
          [12 := 0, 13 := LOAD32LE iv 0, 14 := LOAD32LE iv 4, 15 := LOAD32LE iv 8]\<rparr>))"

section \<open>The block function\<close>

definition quarter :: "u32 \<Rightarrow> u32 \<Rightarrow> u32 \<Rightarrow> u32 \<Rightarrow> u32 \<times> u32 \<times> u32 \<times> u32" where
  "quarter a b c d =
     (let a = a + b; d = d XOR a; d = ROL32 d 16;
          c = c + d; b = b XOR c; b = ROL32 b 12;
          a = a + b; d = d XOR a; d = ROL32 d 8;
          c = c + d; b = b XOR c; b = ROL32 b 7
      in (a, b, c, d))"

text \<open>The macro on four elements of the array.\<close>

definition CHACHA_QUARTER_ROUND :: "u32 list \<Rightarrow> nat \<Rightarrow> nat \<Rightarrow> nat \<Rightarrow> nat \<Rightarrow> u32 list" where
  "CHACHA_QUARTER_ROUND w a b c d =
     (case quarter (w ! a) (w ! b) (w ! c) (w ! d) of
        (wa, wb, wc, wd) \<Rightarrow> w[a := wa, b := wb, c := wc, d := wd])"

definition double_round :: "u32 list \<Rightarrow> u32 list" where
  "double_round w =
     (let w = CHACHA_QUARTER_ROUND w 0 4 8 12;
          w = CHACHA_QUARTER_ROUND w 1 5 9 13;
          w = CHACHA_QUARTER_ROUND w 2 6 10 14;
          w = CHACHA_QUARTER_ROUND w 3 7 11 15;
          w = CHACHA_QUARTER_ROUND w 0 5 10 15;
          w = CHACHA_QUARTER_ROUND w 1 6 11 12;
          w = CHACHA_QUARTER_ROUND w 2 7 8 13;
          w = CHACHA_QUARTER_ROUND w 3 4 9 14
      in w)"

text \<open>The loop with step 2 runs \<open>(rounds + 1) div 2\<close> times.\<close>

definition chacha20_transform :: "chacha20 \<Rightarrow> chacha20" where
  "chacha20_transform st =
     (let w = state st;
          w = foldl (\<lambda>w _. double_round w) w [0..<(rounds st + 1) div 2];
          w = map2 (+) w (state st)
      in st\<lparr>block := w\<rparr>)"

section \<open>The stream\<close>

text \<open>What the loop does when it needs a new block.\<close>

definition chacha20_refill :: "chacha20 \<Rightarrow> chacha20" where
  "chacha20_refill st =
     (if pos st = 0 \<or> pos st \<ge> 64 then
        let st = chacha20_transform st;
            st = st\<lparr>state := (state st)[12 := state st ! 12 + 1]\<rparr>;
            st = (if state st ! 12 = 0 then st\<lparr>state := (state st)[13 := state st ! 13 + 1]\<rparr> else st)
        in st\<lparr>pos := 0\<rparr>
      else st)"

lemma pos_refill: "pos (chacha20_refill st) < 64"
  by (simp add: chacha20_refill_def Let_def)

text \<open>
  \<open>input\<close> and \<open>output\<close> may be null: without input the key stream itself is written, without output
  it is skipped. The result is what was written and the new state.
\<close>

function chacha20_crypt :: "chacha20 \<Rightarrow> bytes option \<Rightarrow> nat \<Rightarrow> bool \<Rightarrow> bytes \<times> chacha20" where
  "chacha20_crypt st input sz output =
     (if sz = 0 then ([], st)
      else
        let st = chacha20_refill st;
            n = min sz (64 - pos st);
            k = take n (drop (pos st) (bytes_of_words (block st)));
            out = (if output then case input of Some d \<Rightarrow> map2 (XOR) (take n d) k | None \<Rightarrow> k else []);
            input = (if output then map_option (drop n) input else input);
            (out', st) = chacha20_crypt (st\<lparr>pos := pos st + n\<rparr>) input (sz - n) output
        in (out @ out', st))"
  by pat_completeness auto
termination
  by (relation "measure (\<lambda>(st, input, sz, output). sz)") (use pos_refill in auto)

declare chacha20_crypt.simps [simp del]

definition chacha20_encrypt :: "chacha20 \<Rightarrow> bytes \<Rightarrow> bytes \<times> chacha20" where
  "chacha20_encrypt st input = chacha20_crypt st (Some input) (length input) True"

definition chacha20_decrypt :: "chacha20 \<Rightarrow> bytes \<Rightarrow> bytes \<times> chacha20" where
  "chacha20_decrypt st input = chacha20_crypt st (Some input) (length input) True"

section \<open>RFC 8439\<close>

text \<open>A column round works on the four rows at once; a diagonal round is a column round between two
  rotations of the rows.\<close>

definition lanes :: "u32 list \<times> u32 list \<times> u32 list \<times> u32 list \<Rightarrow>
    u32 list \<times> u32 list \<times> u32 list \<times> u32 list" where
  "lanes m = (case m of (a, b, c, d) \<Rightarrow>
     let q = map (\<lambda>i. quarter (a ! i) (b ! i) (c ! i) (d ! i)) [0, 1, 2, 3] in
     (map (\<lambda>(a, b, c, d). a) q, map (\<lambda>(a, b, c, d). b) q, map (\<lambda>(a, b, c, d). c) q, map (\<lambda>(a, b, c, d). d) q))"

definition rows_double_round :: "u32 list \<times> u32 list \<times> u32 list \<times> u32 list \<Rightarrow>
    u32 list \<times> u32 list \<times> u32 list \<times> u32 list" where
  "rows_double_round m =
     (case lanes m of (a, b, c, d) \<Rightarrow>
      case lanes (a, rotate 1 b, rotate 2 c, rotate 3 d) of (a, b, c, d) \<Rightarrow>
        (a, rotate 3 b, rotate 2 c, rotate 1 d))"

definition rows_of :: "u32 list \<Rightarrow> u32 list \<times> u32 list \<times> u32 list \<times> u32 list" where
  "rows_of w = (take 4 w, take 4 (drop 4 w), take 4 (drop 8 w), take 4 (drop 12 w))"

definition of_rows :: "u32 list \<times> u32 list \<times> u32 list \<times> u32 list \<Rightarrow> u32 list" where
  "of_rows m = (case m of (a, b, c, d) \<Rightarrow> a @ b @ c @ d)"

text \<open>The key stream block of a state after \<open>r\<close> rounds.\<close>

definition chacha_block :: "nat \<Rightarrow> u32 list \<Rightarrow> bytes" where
  "chacha_block r s = concat (map STORE32LE (map2 (+) (of_rows ((rows_double_round ^^ (r div 2)) (rows_of s))) s))"

definition rfc_state :: "bytes \<Rightarrow> u32 \<Rightarrow> bytes \<Rightarrow> u32 list" where
  "rfc_state key counter nonce =
     [0x61707865, 0x3320646E, 0x79622D32, 0x6B206574] @ words_of_bytes key @ [counter] @ words_of_bytes nonce"

text \<open>The key stream of RFC 8439, 2.4, from block \<open>counter\<close> on.\<close>

definition rfc_stream :: "bytes \<Rightarrow> nat \<Rightarrow> bytes \<Rightarrow> nat \<Rightarrow> bytes" where
  "rfc_stream key counter nonce n =
     take n (concat (map (\<lambda>i. chacha_block 20 (rfc_state key (of_nat (counter + i)) nonce)) [0..<n div 64 + 1]))"

section \<open>The block function is that of RFC 8439\<close>

definition qa where "qa a b c d = fst (quarter a b c d)"
definition qb where "qb a b c d = fst (snd (quarter a b c d))"
definition qc where "qc a b c d = fst (snd (snd (quarter a b c d)))"
definition qd where "qd a b c d = snd (snd (snd (quarter a b c d)))"

lemma quarter_parts: "quarter a b c d = (qa a b c d, qb a b c d, qc a b c d, qd a b c d)"
  by (simp add: qa_def qb_def qc_def qd_def)

lemma list16:
  assumes "length w = 16"
  obtains w0 w1 w2 w3 w4 w5 w6 w7 w8 w9 w10 w11 w12 w13 w14 w15
    where "w = [w0, w1, w2, w3, w4, w5, w6, w7, w8, w9, w10, w11, w12, w13, w14, w15]"
  using assms by (auto simp: numeral_eq_Suc length_Suc_conv)

lemma double_round_rows:
  assumes "length w = 16"
  shows "rows_double_round (rows_of w) = rows_of (double_round w)" and "length (double_round w) = 16"
proof -
  obtain w0 w1 w2 w3 w4 w5 w6 w7 w8 w9 w10 w11 w12 w13 w14 w15
    where w: "w = [w0, w1, w2, w3, w4, w5, w6, w7, w8, w9, w10, w11, w12, w13, w14, w15]"
    using assms by (rule list16)
  show "rows_double_round (rows_of w) = rows_of (double_round w)"
    unfolding w by (simp add: rows_double_round_def rows_of_def lanes_def double_round_def
      CHACHA_QUARTER_ROUND_def quarter_parts Let_def rotate1_hd_tl rotate_def numeral_eq_Suc)
  show "length (double_round w) = 16"
    using assms by (simp add: double_round_def CHACHA_QUARTER_ROUND_def quarter_parts Let_def)
qed

lemma of_rows_of: "length w = 16 \<Longrightarrow> of_rows (rows_of w) = w"
  by (erule list16) (simp add: of_rows_def rows_of_def)

lemma double_rounds_rows:
  assumes "length w = 16"
  shows "(rows_double_round ^^ n) (rows_of w) = rows_of (foldl (\<lambda>w _. double_round w) w [0..<n]) \<and>
    length (foldl (\<lambda>w _. double_round w) w [0..<n]) = 16"
  by (induction n) (use assms double_round_rows in auto)

definition chacha20_ok :: "chacha20 \<Rightarrow> bool" where
  "chacha20_ok st \<longleftrightarrow> length (state st) = 16 \<and> length (block st) = 16 \<and> even (rounds st)"

lemma transform_block:
  assumes "length (state st) = 16" and "even (rounds st)"
  shows "bytes_of_words (block (chacha20_transform st)) = chacha_block (rounds st) (state st)"
    and "length (block (chacha20_transform st)) = 16"
proof -
  have r: "(rounds st + 1) div 2 = rounds st div 2" using assms(2) by simp
  note d = double_rounds_rows [OF assms(1), of "rounds st div 2"]
  then show "bytes_of_words (block (chacha20_transform st)) = chacha_block (rounds st) (state st)"
    unfolding chacha20_transform_def Let_def r
    by (simp add: chacha_block_def of_rows_of bytes_of_words_def)
  show "length (block (chacha20_transform st)) = 16"
    using d assms(1) unfolding chacha20_transform_def Let_def r by simp
qed

lemma transform_other [simp]:
  "state (chacha20_transform st) = state st" "rounds (chacha20_transform st) = rounds st"
  "pos (chacha20_transform st) = pos st"
  by (simp_all add: chacha20_transform_def Let_def)

section \<open>The stream is the sequence of blocks\<close>

text \<open>The counter step: word 12, with a carry into word 13.\<close>

definition bump :: "u32 list \<Rightarrow> u32 list" where
  "bump s = (let s = s[12 := s ! 12 + 1] in if s ! 12 = 0 then s[13 := s ! 13 + 1] else s)"

fun blocks :: "nat \<Rightarrow> u32 list \<Rightarrow> nat \<Rightarrow> bytes" where
  "blocks r s 0 = []"
| "blocks r s (Suc n) = chacha_block r s @ blocks r (bump s) n"

definition unread :: "chacha20 \<Rightarrow> bytes" where
  "unread st = (if pos st = 0 then [] else drop (pos st) (bytes_of_words (block st)))"

text \<open>The next \<open>n\<close> bytes of key stream: the rest of the current block, then the next blocks.\<close>

definition keystream :: "chacha20 \<Rightarrow> nat \<Rightarrow> bytes" where
  "keystream st n = take n (unread st @ blocks (rounds st) (state st) n)"

lemma length_bump [simp]: "length (bump s) = length s"
  by (simp add: bump_def Let_def)

lemma length_of_rows_pow:
  "length s = 16 \<Longrightarrow> length (chacha_block r s) = 64"
  using double_rounds_rows [of s "r div 2"]
  unfolding chacha_block_def bytes_of_words_def [symmetric] by (simp add: of_rows_of)

lemma length_blocks [simp]: "length s = 16 \<Longrightarrow> length (blocks r s n) = 64 * n"
  by (induction n arbitrary: s) (simp_all add: length_of_rows_pow)

lemma blocks_add: "blocks r s (a + b) = blocks r s a @ blocks r ((bump ^^ a) s) b"
  by (induction a arbitrary: s) (simp_all add: funpow_swap1)

lemma take_blocks:
  assumes "length s = 16" and "m \<le> length x + 64 * a" and "m \<le> length x + 64 * b"
  shows "take m (x @ blocks r s a) = take m (x @ blocks r s b)"
proof -
  have le: "take m (x @ blocks r s (c + d)) = take m (x @ blocks r s c)" if "m \<le> length x + 64 * c" for c d
    using that assms(1) by (simp add: blocks_add)
  show ?thesis
  proof (cases "a \<le> b")
    case True
    then show ?thesis using le [OF assms(2), of "b - a"] by simp
  next
    case False
    then show ?thesis using le [OF assms(3), of "a - b"] by simp
  qed
qed

lemma keystream_take:
  assumes "length (state st) = 16" and "n \<le> length (unread st) + 64 * k"
  shows "keystream st n = take n (unread st @ blocks (rounds st) (state st) k)"
  unfolding keystream_def using assms by (intro take_blocks) simp_all

lemma length_keystream [simp]: "length (state st) = 16 \<Longrightarrow> length (keystream st n) = n"
  by (simp add: keystream_def)

lemma take_keystream: "length (state st) = 16 \<Longrightarrow> m \<le> n \<Longrightarrow> take m (keystream st n) = keystream st m"
  using keystream_take [of st m n] by (simp add: keystream_def min_def)

text \<open>The key stream of a state whose block is still to be read from \<open>pos\<close>, also when that is 0.\<close>

definition stream_from :: "chacha20 \<Rightarrow> nat \<Rightarrow> bytes" where
  "stream_from st n = take n (drop (pos st) (bytes_of_words (block st)) @ blocks (rounds st) (state st) n)"

lemma refill_stream:
  assumes "chacha20_ok st"
  shows "stream_from (chacha20_refill st) n = keystream st n" and "chacha20_ok (chacha20_refill st)"
proof -
  have ok: "length (state st) = 16" "even (rounds st)" "length (block st) = 16"
    using assms by (simp_all add: chacha20_ok_def)
  have "stream_from (chacha20_refill st) n = keystream st n \<and> chacha20_ok (chacha20_refill st)"
  proof (cases "pos st = 0 \<or> 64 \<le> pos st")
    case True
    define st1 where "st1 = chacha20_refill st"
    have r: "state st1 = bump (state st)" "pos st1 = 0" "rounds st1 = rounds st"
        "block st1 = block (chacha20_transform st)"
      using True by (simp_all add: st1_def chacha20_refill_def Let_def bump_def)
    have u: "unread st = []" using True ok by (auto simp: unread_def)
    have "keystream st n = take n (blocks (rounds st) (state st) (Suc n))"
      using keystream_take [OF ok(1), of n "Suc n"] u by simp
    then have "stream_from st1 n = keystream st n"
      unfolding stream_from_def r using transform_block(1) [OF ok(1,2)] by simp
    moreover have "chacha20_ok st1"
      using ok transform_block(2) [OF ok(1,2)] by (simp add: chacha20_ok_def r)
    ultimately show ?thesis by (simp add: st1_def)
  next
    case False
    then show ?thesis using assms by (simp add: chacha20_refill_def stream_from_def keystream_def unread_def)
  qed
  then show "stream_from (chacha20_refill st) n = keystream st n" and "chacha20_ok (chacha20_refill st)" by auto
qed

lemma advance_stream:
  assumes ok: "chacha20_ok st" and n: "0 < n" "pos st + n \<le> 64"
  shows "keystream (st\<lparr>pos := pos st + n\<rparr>) m = drop n (stream_from st (n + m))"
    and "take n (drop (pos st) (bytes_of_words (block st))) = take n (stream_from st (n + m))"
proof -
  define u where "u = drop (pos st) (bytes_of_words (block st))"
  have l: "length (state st) = 16" "n \<le> length u" using ok n by (simp_all add: chacha20_ok_def u_def)
  have "take m (drop n u @ blocks (rounds st) (state st) m) =
      take m (drop n u @ blocks (rounds st) (state st) (n + m))"
    using l(1) by (intro take_blocks) simp_all
  also have "\<dots> = drop n (take (n + m) (u @ blocks (rounds st) (state st) (n + m)))"
    using l(2) by (simp add: drop_take add.commute [of m n])
  finally have e: "take m (drop n u @ blocks (rounds st) (state st) m) = drop n (stream_from st (n + m))"
    by (simp only: stream_from_def u_def)
  have "drop (pos st + n) (bytes_of_words (block st)) = drop n u" by (simp add: u_def add.commute)
  then show "keystream (st\<lparr>pos := pos st + n\<rparr>) m = drop n (stream_from st (n + m))"
    using n by (simp only: e [symmetric]) (simp add: keystream_def unread_def)
  show "take n (drop (pos st) (bytes_of_words (block st))) = take n (stream_from st (n + m))"
    using l(2) by (simp add: stream_from_def flip: u_def)
qed

definition written :: "bytes option \<Rightarrow> bool \<Rightarrow> bytes \<Rightarrow> bytes" where
  "written input output k = (if output then case input of Some d \<Rightarrow> map2 (XOR) (take (length k) d) k | None \<Rightarrow> k else [])"

lemma written_append:
  assumes "\<forall>d. input = Some d \<longrightarrow> length k \<le> length d"
  shows "written input output k @ written (if output then map_option (drop (length k)) input else input) output k' =
    written input output (k @ k')"
  using assms by (cases input) (auto simp: written_def take_add zip_append)

lemma crypt_keystream:
  assumes "chacha20_ok st" and "\<forall>d. input = Some d \<longrightarrow> n \<le> length d"
  shows "fst (chacha20_crypt st input n output) = written input output (keystream st n)"
    and "chacha20_ok (snd (chacha20_crypt st input n output))"
    and "keystream (snd (chacha20_crypt st input n output)) m = drop n (keystream st (n + m))"
proof -
  have "fst (chacha20_crypt st input n output) = written input output (keystream st n) \<and>
      chacha20_ok (snd (chacha20_crypt st input n output)) \<and>
      keystream (snd (chacha20_crypt st input n output)) m = drop n (keystream st (n + m))"
    using assms
  proof (induction n arbitrary: st input rule: less_induct)
    case (less n)
    have l: "length (state st) = 16" using less.prems by (simp add: chacha20_ok_def)
    show ?case
    proof (cases "n = 0")
      case True
      then show ?thesis
        using less.prems l by (auto simp: chacha20_crypt.simps [of st] written_def keystream_def split: option.split)
    next
      case False
      define st1 where "st1 = chacha20_refill st"
      define n0 where "n0 = min n (64 - pos st1)"
      define st2 where "st2 = st1\<lparr>pos := pos st1 + n0\<rparr>"
      define input' where "input' = (if output then map_option (drop n0) input else input)"
      have n0: "0 < n0" "n0 \<le> n" "pos st1 + n0 \<le> 64"
        using False pos_refill [of st] by (auto simp: n0_def st1_def)
      have s1: "stream_from st1 k = keystream st k" "chacha20_ok st1" for k
        using refill_stream [OF less.prems(1)] by (simp_all add: st1_def)
      have ok2: "chacha20_ok st2" using s1(2) by (simp add: st2_def chacha20_ok_def)
      have k2: "keystream st2 k = drop n0 (keystream st (n0 + k))" for k
        using advance_stream(1) [OF s1(2) n0(1,3)] by (simp add: st2_def s1(1))
      have k: "take n0 (drop (pos st1) (bytes_of_words (block st1))) = keystream st n0"
        using advance_stream(2) [OF s1(2) n0(1,3), of 0] l by (simp add: s1(1))
      have IH: "fst (chacha20_crypt st2 input' (n - n0) output) = written input' output (keystream st2 (n - n0)) \<and>
          chacha20_ok (snd (chacha20_crypt st2 input' (n - n0) output)) \<and>
          keystream (snd (chacha20_crypt st2 input' (n - n0) output)) m = drop (n - n0) (keystream st2 (n - n0 + m))"
        using n0 ok2 less.prems(2) by (intro less.IH) (auto simp: input'_def)
      have step: "chacha20_crypt st input n output =
          (written input output (keystream st n0) @ fst (chacha20_crypt st2 input' (n - n0) output),
           snd (chacha20_crypt st2 input' (n - n0) output))"
        using False l by (subst chacha20_crypt.simps, cases input; cases "output")
          (simp_all add: Let_def st1_def [symmetric] n0_def [symmetric] k st2_def [symmetric] input'_def
             written_def prod.case_eq_if)
      have e: "keystream st n0 @ keystream st2 (n - n0) = keystream st n"
        using n0 l take_keystream [OF l, of n0 n] append_take_drop_id [of n0 "keystream st n"] by (simp add: k2)
      have "\<forall>d. input = Some d \<longrightarrow> length (keystream st n0) \<le> length d"
        using less.prems(2) n0(2) l by (auto dest: order_trans)
      then have "written input output (keystream st n0) @ written input' output (keystream st2 (n - n0)) =
          written input output (keystream st n)"
        using written_append [of input "keystream st n0" "output" "keystream st2 (n - n0)"]
        unfolding input'_def e length_keystream [OF l] by blast
      then show ?thesis using IH n0 by (simp add: step k2 add.assoc [symmetric])
    qed
  qed
  then show "fst (chacha20_crypt st input n output) = written input output (keystream st n)"
    and "chacha20_ok (snd (chacha20_crypt st input n output))"
    and "keystream (snd (chacha20_crypt st input n output)) m = drop n (keystream st (n + m))" by auto
qed

lemma encrypt_keystream:
  assumes "chacha20_ok st"
  shows "fst (chacha20_encrypt st d) = map2 (XOR) d (keystream st (length d))"
    and "chacha20_ok (snd (chacha20_encrypt st d))"
    and "keystream (snd (chacha20_encrypt st d)) m = drop (length d) (keystream st (length d + m))"
  using crypt_keystream [OF assms, of "Some d" "length d" True] assms
  by (simp_all add: chacha20_encrypt_def written_def chacha20_ok_def)

lemma refill_pos: "pos st \<le> 64 \<Longrightarrow> pos (chacha20_refill st) mod 64 = pos st mod 64"
  by (cases "pos st = 64") (simp_all add: chacha20_refill_def Let_def)

lemma crypt_pos:
  "pos st \<le> 64 \<Longrightarrow> pos (snd (chacha20_crypt st input n out)) \<le> 64 \<and>
    (0 < n \<longrightarrow> 0 < pos (snd (chacha20_crypt st input n out))) \<and>
    pos (snd (chacha20_crypt st input n out)) mod 64 = (pos st + n) mod 64"
proof (induction n arbitrary: st input rule: less_induct)
  case (less n)
  show ?case
  proof (cases "n = 0")
    case True
    then show ?thesis using less.prems by (simp add: chacha20_crypt.simps [of st])
  next
    case False
    define st1 where "st1 = chacha20_refill st"
    define n0 where "n0 = min n (64 - pos st1)"
    define st2 where "st2 = st1\<lparr>pos := pos st1 + n0\<rparr>"
    define input' where "input' = (if out then map_option (drop n0) input else input)"
    have p1: "pos st1 < 64" "pos st1 mod 64 = pos st mod 64"
      using pos_refill refill_pos [OF less.prems] by (simp_all add: st1_def)
    have n0: "0 < n0" "n0 \<le> n" "pos st1 + n0 \<le> 64" using False p1 by (auto simp: n0_def)
    have step: "snd (chacha20_crypt st input n out) = snd (chacha20_crypt st2 input' (n - n0) out)"
      using False by (subst chacha20_crypt.simps, cases input; cases out)
        (simp_all add: Let_def st1_def [symmetric] n0_def [symmetric] st2_def [symmetric] input'_def prod.case_eq_if)
    have IH: "pos (snd (chacha20_crypt st2 input' (n - n0) out)) \<le> 64 \<and>
        (0 < n - n0 \<longrightarrow> 0 < pos (snd (chacha20_crypt st2 input' (n - n0) out))) \<and>
        pos (snd (chacha20_crypt st2 input' (n - n0) out)) mod 64 = (pos st2 + (n - n0)) mod 64"
      using n0 by (intro less.IH) (simp_all add: st2_def)
    have "n = n0 \<Longrightarrow> snd (chacha20_crypt st2 input' (n - n0) out) = st2" by (simp add: chacha20_crypt.simps [of st2])
    moreover have "(pos st2 + (n - n0)) mod 64 = (pos st1 + n) mod 64" using n0 by (simp add: st2_def)
    moreover have "\<dots> = (pos st + n) mod 64" using p1(2) by (metis mod_add_left_eq)
    ultimately show ?thesis using IH n0 unfolding step by (cases "n = n0") (auto simp: st2_def)
  qed
qed

section \<open>Properties\<close>

lemma map2_xor_twice: "length d \<le> length k \<Longrightarrow> map2 (XOR) (map2 (XOR) d k) k = (d :: bytes)"
  by (induction d k rule: list_induct2') simp_all

text \<open>Decryption inverts encryption: an object that stands at the same place of the same key stream
  gets the data back, for data of any length and any place within a block.\<close>

theorem chacha20_decrypt_encrypt:
  assumes "chacha20_ok st"
  shows "fst (chacha20_decrypt st (fst (chacha20_encrypt st d))) = d"
proof -
  have k: "length (keystream st n) = n" for n using assms by (simp add: chacha20_ok_def)
  have "fst (chacha20_encrypt st d) = map2 (XOR) d (keystream st (length d))"
    by (rule encrypt_keystream(1) [OF assms])
  moreover have "chacha20_decrypt = chacha20_encrypt"
    by (intro ext) (simp add: chacha20_decrypt_def chacha20_encrypt_def)
  ultimately show ?thesis
    using encrypt_keystream(1) [OF assms, of "map2 (XOR) d (keystream st (length d))"]
    by (simp add: k map2_xor_twice)
qed

text \<open>Encryption does not depend on how the data is cut into calls: two calls write what one call
  with the whole data writes, wherever the cut falls in a block.\<close>

theorem chacha20_encrypt_append:
  assumes "chacha20_ok st" and "chacha20_encrypt st d = (c, st')"
  shows "fst (chacha20_encrypt st (d @ e)) = c @ fst (chacha20_encrypt st' e)"
proof -
  have st': "c = fst (chacha20_encrypt st d)" "st' = snd (chacha20_encrypt st d)" using assms(2) by simp_all
  have l: "length (state st) = 16" using assms(1) by (simp add: chacha20_ok_def)
  have "take (length d) (keystream st (length d + length e)) = keystream st (length d)"
    by (rule take_keystream [OF l]) simp
  then show ?thesis
    using encrypt_keystream [OF assms(1), of d] encrypt_keystream(1) [OF assms(1), of "d @ e"]
      encrypt_keystream(1) [of st' e]
    by (simp add: st' zip_append1)
qed

section \<open>Keyed objects\<close>

lemma list_update_all16:
  assumes "length s = 16"
  shows "s[0 := a0, 1 := a1, 2 := a2, 3 := a3, 4 := a4, 5 := a5, 6 := a6, 7 := a7, 8 := a8, 9 := a9,
      10 := a10, 11 := a11, 12 := a12, 13 := a13, 14 := a14, 15 := a15] =
    [a0, a1, a2, a3, a4, a5, a6, a7, a8, a9, a10, a11, a12, a13, a14, a15]"
  using assms by (rule list16) simp

lemma LOAD32LE_drop: "k \<le> length p \<Longrightarrow> LOAD32LE (drop k p) 0 = LOAD32LE p k"
  by (simp add: LOAD32LE_def add.commute)

lemma words_of_bytes_step:
  assumes "4 \<le> length p"
  shows "words_of_bytes p = LOAD32LE p 0 # words_of_bytes (drop 4 p)"
proof -
  have "p \<noteq> []" using assms by auto
  moreover have "LOAD32LE (take 4 p) 0 = LOAD32LE p 0" by (simp add: LOAD32LE_def)
  ultimately show ?thesis by (simp add: words_of_bytes_def chunks_step)
qed

lemma words_of_bytes_Nil: "words_of_bytes [] = []"
  by (simp add: words_of_bytes_def)

text \<open>The state after both setters.\<close>

definition chacha20_setup :: "chacha20 \<Rightarrow> bytes \<Rightarrow> bytes \<Rightarrow> chacha20 res" where
  "chacha20_setup st key iv = bind_res (chacha20_set_key st key) (\<lambda>st. chacha20_set_iv st iv)"

lemma setup_state:
  assumes "length (state st) = 16" and "length key = 32" and "length iv = 12"
  shows "chacha20_setup st key iv = Inr (st\<lparr>state := rfc_state key 0 iv\<rparr>)"
proof -
  have k: "words_of_bytes key = [LOAD32LE key 0, LOAD32LE key 4, LOAD32LE key 8, LOAD32LE key 12,
      LOAD32LE key 16, LOAD32LE key 20, LOAD32LE key 24, LOAD32LE key 28]"
    using assms(2) by (simp add: words_of_bytes_step LOAD32LE_drop words_of_bytes_Nil)
  have v: "words_of_bytes iv = [LOAD32LE iv 0, LOAD32LE iv 4, LOAD32LE iv 8]"
    using assms(3) by (simp add: words_of_bytes_step LOAD32LE_drop words_of_bytes_Nil)
  show ?thesis
    unfolding chacha20_setup_def chacha20_set_key_def chacha20_set_iv_def rfc_state_def k v
    using assms(2,3) list_update_all16 [OF assms(1)] by simp
qed

lemma bump_rfc:
  assumes "length key = 32" and "length iv = 12" and "c + i < 2 ^ 32"
  shows "(bump ^^ i) (rfc_state key (of_nat c) iv) = rfc_state key (of_nat (c + i)) iv"
  using assms(3)
proof (induction i)
  case (Suc i)
  have l: "length (words_of_bytes key) = 8" using assms(1) by (simp add: length_words_of_bytes)
  have nz: "(of_nat (c + i) + 1 :: u32) \<noteq> 0"
  proof
    assume "(of_nat (c + i) + 1 :: u32) = 0"
    then have "unat (of_nat (Suc (c + i)) :: u32) = 0" by (simp add: add.commute)
    then show False using Suc.prems by (simp add: unat_of_nat_eq del: of_nat_Suc)
  qed
  have "bump (rfc_state key (of_nat (c + i)) iv) = rfc_state key (of_nat (c + i) + 1) iv"
    using nz l by (simp add: bump_def rfc_state_def Let_def nth_append list_update_append)
  then show ?case using Suc by (simp add: ac_simps)
qed simp

lemma blocks_concat: "blocks r s n = concat (map (\<lambda>i. chacha_block r ((bump ^^ i) s)) [0..<n])"
proof (induction n)
  case (Suc n)
  have "blocks r s (n + 1) = blocks r s n @ blocks r ((bump ^^ n) s) 1" by (rule blocks_add)
  then show ?case using Suc by simp
qed simp

lemma length_rfc_state: "length key = 32 \<Longrightarrow> length iv = 12 \<Longrightarrow> length (rfc_state key c iv) = 16"
  by (simp add: rfc_state_def length_words_of_bytes)

lemma keystream_rfc:
  assumes "length key = 32" and "length iv = 12" and "n < 2 ^ 38"
    and "pos st = 0" and "rounds st = 20" and "state st = rfc_state key 0 iv"
  shows "keystream st n = rfc_stream key 0 iv n"
proof -
  have "keystream st n = take n (blocks 20 (rfc_state key 0 iv) (n div 64 + 1))"
    using keystream_take [of st n "n div 64 + 1"] assms by (simp add: unread_def length_rfc_state)
  moreover have "(bump ^^ i) (rfc_state key 0 iv) = rfc_state key (of_nat i) iv" if "i < n div 64 + 1" for i
    using bump_rfc [OF assms(1,2), of 0 i] that assms(3) by simp
  then have "map (\<lambda>i. chacha_block 20 ((bump ^^ i) (rfc_state key 0 iv))) [0..<n div 64 + 1] =
      map (\<lambda>i. chacha_block 20 (rfc_state key (of_nat i) iv)) [0..<n div 64 + 1]"
    by (intro map_cong) (simp_all del: upt_Suc)
  ultimately show ?thesis by (simp only: rfc_stream_def blocks_concat add_0)
qed

text \<open>C7: An object at the start of a block, given a key of 32 and an iv of 12 bytes, encrypts as RFC
  8439 prescribes: the data XORed with the key stream blocks of the counters 0, 1, 2, and so on, each
  block computed by 10 column and diagonal round pairs. Data is limited to the 2^32 blocks of the
  counter.\<close>

theorem chacha20_encrypt_rfc:
  assumes "length (state st) = 16" and "length (block st) = 16" and "pos st = 0" and "rounds st = 20"
    and "length key = 32" and "length iv = 12" and "length d < 2 ^ 38"
  shows "\<exists>st'. chacha20_setup st key iv = Inr st' \<and>
    fst (chacha20_encrypt st' d) = map2 (XOR) d (rfc_stream key 0 iv (length d))"
proof -
  let ?st = "st\<lparr>state := rfc_state key 0 iv\<rparr>"
  have "chacha20_ok ?st" using assms by (simp add: chacha20_ok_def length_rfc_state)
  moreover have "keystream ?st (length d) = rfc_stream key 0 iv (length d)"
    using assms by (intro keystream_rfc) simp_all
  ultimately show ?thesis
    using setup_state [OF assms(1,5,6)] encrypt_keystream(1) [of ?st d] by auto
qed

text \<open>The setters do not reset the position in the block: an object that has used part of a block
  encrypts the next bytes, up to the end of that block, with the old key and iv, whatever new key and
  iv are set.\<close>

theorem chacha20_setup_keeps_block:
  assumes "chacha20_ok st" and "0 < pos st" and "pos st + length d \<le> 64"
    and "chacha20_setup st key iv = Inr st'"
  shows "fst (chacha20_encrypt st' d) = fst (chacha20_encrypt st d)"
proof -
  have s': "pos st' = pos st" "block st' = block st" "rounds st' = rounds st" "length (state st') = length (state st)"
    using assms(4) by (auto simp: chacha20_setup_def chacha20_set_key_def chacha20_set_iv_def split: if_splits)
  have "length (block st) = 16" using assms(1) by (simp add: chacha20_ok_def)
  then have "keystream st' (length d) = keystream st (length d)"
    using assms(2,3) s' by (simp add: keystream_def unread_def)
  moreover have "chacha20_ok st'" using assms(1) s' by (simp add: chacha20_ok_def)
  ultimately show ?thesis using encrypt_keystream(1) assms(1) by simp
qed

section \<open>Witnesses\<close>

lemma quarter_vector:
  "quarter 0x11111111 0x01020304 0x9b8d6f43 0x01234567 = (0xea2a92f4, 0xcb1cf8ce, 0x4581472e, 0x5881c4bb)"
  by (simp add: quarter_def Let_def ROL32_def)

lemma example_ok:
  "chacha20_ok (chacha20_new (replicate 16 0) (replicate 16 0)\<lparr>pos := p\<rparr>)"
  "chacha20_ok (chacha20_new (replicate 16 0) (replicate 16 0))"
  by (simp_all add: chacha20_ok_def chacha20_new_def)

theorem chacha20_decrypt_encrypt_witness:
  "fst (chacha20_decrypt (chacha20_new (replicate 16 0) (replicate 16 0)\<lparr>pos := 5\<rparr>)
     (fst (chacha20_encrypt (chacha20_new (replicate 16 0) (replicate 16 0)\<lparr>pos := 5\<rparr>) [1, 2, 3]))) = [1, 2, 3]"
  by (rule chacha20_decrypt_encrypt [OF example_ok(1)])

theorem chacha20_encrypt_append_witness:
  "let st = chacha20_new (replicate 16 0) (replicate 16 0) in
   fst (chacha20_encrypt st [1, 2]) =
     fst (chacha20_encrypt st [1]) @ fst (chacha20_encrypt (snd (chacha20_encrypt st [1])) [2])"
  using chacha20_encrypt_append [OF example_ok(2), of "[1]" _ _ "[2]", OF prod.collapse [symmetric]] by simp

theorem chacha20_encrypt_rfc_witness:
  "\<exists>st'. chacha20_setup (chacha20_new (replicate 16 0) (replicate 16 0)) (replicate 32 1) (replicate 12 2) = Inr st' \<and>
    fst (chacha20_encrypt st' [1, 2, 3]) = map2 (XOR) [1, 2, 3] (rfc_stream (replicate 32 1) 0 (replicate 12 2) 3)"
  using chacha20_encrypt_rfc [of "chacha20_new (replicate 16 0) (replicate 16 0)" "replicate 32 1" "replicate 12 2"
    "[1, 2, 3]"] by (simp add: chacha20_new_def numeral_3_eq_3)

theorem chacha20_setup_keeps_block_witness:
  "\<exists>st'. chacha20_setup (chacha20_new (replicate 16 0) (replicate 16 0)\<lparr>pos := 5\<rparr>)
      (replicate 32 1) (replicate 12 2) = Inr st' \<and>
    fst (chacha20_encrypt st' [7, 8]) =
      fst (chacha20_encrypt (chacha20_new (replicate 16 0) (replicate 16 0)\<lparr>pos := 5\<rparr>) [7, 8])"
  using setup_state [of "chacha20_new (replicate 16 0) (replicate 16 0)\<lparr>pos := 5\<rparr>" "replicate 32 1" "replicate 12 2"]
    chacha20_setup_keeps_block [OF example_ok(1), of 5 "[7, 8]" "replicate 32 1" "replicate 12 2"]
  by (simp add: chacha20_new_def)

end
