(* ===== verification/Ez_Poly1305.thy ===== *)
theory Ez_Poly1305
  imports Ez_Block
begin

text \<open>
  \<open>ez::poly1305\<close> (\<open>include/ez/poly1305.hpp\<close>, \<open>source/poly1305.cpp\<close>): the one-time authenticator with
  an accumulator of 32-bit limbs in 64-bit words. Each stage of \<open>transform\<close> and \<open>complete\<close> is a
  definition on the limbs, in the order of the code. The reference is RFC 8439, 2.5, on natural numbers:
  the accumulator is a residue modulo 2^130 - 5.
\<close>

section \<open>State\<close>

record poly1305 =
  m_r :: "u32 list"
  m_s :: "u32 list"
  m_a :: "u64 list"
  m_buffer :: bytes
  m_digest :: "u32 list"
  m_size :: u64

definition poly1305_set_key :: "poly1305 \<Rightarrow> bytes \<Rightarrow> poly1305" where
  "poly1305_set_key st key = st
     \<lparr>m_r := [LOAD32LE key 0 AND 0x0FFFFFFF, LOAD32LE key 4 AND 0x0FFFFFFC,
              LOAD32LE key 8 AND 0x0FFFFFFC, LOAD32LE key 12 AND 0x0FFFFFFC],
      m_s := [LOAD32LE key 16, LOAD32LE key 20, LOAD32LE key 24, LOAD32LE key 28],
      m_a := [0, 0, 0, 0, 0, 0, 0, 0],
      m_size := 0\<rparr>"

section \<open>The stages of transform\<close>

type_synonym limbs4 = "u32 \<times> u32 \<times> u32 \<times> u32"
type_synonym limbs5 = "u32 \<times> u32 \<times> u32 \<times> u32 \<times> u32"
type_synonym acc5 = "u64 \<times> u64 \<times> u64 \<times> u64 \<times> u64"
type_synonym acc8 = "u64 \<times> u64 \<times> u64 \<times> u64 \<times> u64 \<times> u64 \<times> u64 \<times> u64"

text \<open>The block with the bit beyond its end and the zeros after it.\<close>

definition poly_pad :: "bytes \<Rightarrow> nat \<Rightarrow> bytes" where
  "poly_pad buffer n = memcpy_at (buffer[n := 0x01]) (n + 1) (replicate (17 - (n + 1)) 0x00)"

definition poly_load :: "bytes \<Rightarrow> limbs5" where
  "poly_load b = (LOAD32LE b 0, LOAD32LE b 4, LOAD32LE b 8, LOAD32LE b 12, ucast (b ! 16))"

text \<open>Adds the number to the accumulator, propagates the carry and keeps 32 bits of each limb.\<close>

definition poly_add :: "acc5 \<Rightarrow> limbs5 \<Rightarrow> limbs5" where
  "poly_add m a = (case (m, a) of ((m0, m1, m2, m3, m4), (a0, a1, a2, a3, a4)) \<Rightarrow>
     let m0 = m0 + ucast a0; m1 = m1 + ucast a1; m2 = m2 + ucast a2; m3 = m3 + ucast a3; m4 = m4 + ucast a4;
         m1 = m1 + drop_bit 32 m0; m2 = m2 + drop_bit 32 m1; m3 = m3 + drop_bit 32 m2; m4 = m4 + drop_bit 32 m3
     in (ucast (m0 AND 0xFFFFFFFF), ucast (m1 AND 0xFFFFFFFF), ucast (m2 AND 0xFFFFFFFF),
         ucast (m3 AND 0xFFFFFFFF), ucast (m4 AND 0xFFFFFFFF)))"

text \<open>Multiplies by \<open>r\<close> and propagates the carry.\<close>

definition poly_mul :: "limbs5 \<Rightarrow> limbs4 \<Rightarrow> acc8" where
  "poly_mul a r = (case (a, r) of ((a0, a1, a2, a3, a4), (r0, r1, r2, r3)) \<Rightarrow>
     let a0 = ucast a0 :: u64; a1 = ucast a1; a2 = ucast a2; a3 = ucast a3; a4 = ucast a4;
         r0 = ucast r0; r1 = ucast r1; r2 = ucast r2; r3 = ucast r3;
         m0 = a0 * r0;
         m1 = a0 * r1 + a1 * r0;
         m2 = a0 * r2 + a1 * r1 + a2 * r0;
         m3 = a0 * r3 + a1 * r2 + a2 * r1 + a3 * r0;
         m4 = a1 * r3 + a2 * r2 + a3 * r1 + a4 * r0;
         m5 = a2 * r3 + a3 * r2 + a4 * r1;
         m6 = a3 * r3 + a4 * r2;
         m7 = a4 * r3;
         m1 = m1 + drop_bit 32 m0; m2 = m2 + drop_bit 32 m1; m3 = m3 + drop_bit 32 m2; m4 = m4 + drop_bit 32 m3;
         m5 = m5 + drop_bit 32 m4; m6 = m6 + drop_bit 32 m5; m7 = m7 + drop_bit 32 m6
     in (m0, m1, m2, m3, m4, m5, m6, m7))"

text \<open>The first pass of the reduction: the bits from 130 on are taken off and added five times.\<close>

definition poly_pass1 :: "acc8 \<Rightarrow> acc5" where
  "poly_pass1 m = (case m of (m0, m1, m2, m3, m4, m5, m6, m7) \<Rightarrow>
     let a0 = ucast (m4 AND 0xFFFFFFFC) :: u32; a1 = ucast (m5 AND 0xFFFFFFFF) :: u32;
         a2 = ucast (m6 AND 0xFFFFFFFF) :: u32; a3 = ucast (m7 AND 0xFFFFFFFF) :: u32;
         m0 = m0 AND 0xFFFFFFFF; m1 = m1 AND 0xFFFFFFFF; m2 = m2 AND 0xFFFFFFFF; m3 = m3 AND 0xFFFFFFFF;
         m4 = m4 AND 0x00000003;
         m0 = m0 + ucast a0; m0 = m0 + ucast (drop_bit 2 a0 OR push_bit 30 a1);
         m1 = m1 + ucast a1; m1 = m1 + ucast (drop_bit 2 a1 OR push_bit 30 a2);
         m2 = m2 + ucast a2; m2 = m2 + ucast (drop_bit 2 a2 OR push_bit 30 a3);
         m3 = m3 + ucast a3; m3 = m3 + ucast (drop_bit 2 a3);
         m1 = m1 + drop_bit 32 m0; m2 = m2 + drop_bit 32 m1; m3 = m3 + drop_bit 32 m2; m4 = m4 + drop_bit 32 m3
     in (m0, m1, m2, m3, m4))"

text \<open>The second pass, and the masks at the end.\<close>

definition poly_pass2 :: "acc5 \<Rightarrow> acc5" where
  "poly_pass2 m = (case m of (m0, m1, m2, m3, m4) \<Rightarrow>
     let a0 = ucast (m4 AND 0xFFFFFFFC) :: u32;
         m0 = m0 AND 0xFFFFFFFF; m1 = m1 AND 0xFFFFFFFF; m2 = m2 AND 0xFFFFFFFF; m3 = m3 AND 0xFFFFFFFF;
         m4 = m4 AND 0x00000003;
         m0 = m0 + ucast a0; m0 = m0 + ucast (drop_bit 2 a0);
         m1 = m1 + drop_bit 32 m0; m2 = m2 + drop_bit 32 m1; m3 = m3 + drop_bit 32 m2; m4 = m4 + drop_bit 32 m3
     in (m0 AND 0xFFFFFFFF, m1 AND 0xFFFFFFFF, m2 AND 0xFFFFFFFF, m3 AND 0xFFFFFFFF, m4 AND 0x00000003))"

definition acc_of :: "u64 list \<Rightarrow> acc5" where
  "acc_of m = (m ! 0, m ! 1, m ! 2, m ! 3, m ! 4)"

definition poly1305_transform :: "poly1305 \<Rightarrow> poly1305" where
  "poly1305_transform st =
     (let buffer = poly_pad (m_buffer st) (unat (m_size st));
          a = poly_add (acc_of (m_a st)) (poly_load buffer);
          (p0, p1, p2, p3, p4, p5, p6, p7) =
            poly_mul a (m_r st ! 0, m_r st ! 1, m_r st ! 2, m_r st ! 3);
          (m0, m1, m2, m3, m4) = poly_pass2 (poly_pass1 (p0, p1, p2, p3, p4, p5, p6, p7))
      in st\<lparr>m_buffer := buffer, m_a := [m0, m1, m2, m3, m4, p5, p6, p7]\<rparr>)"

section \<open>Update and completion\<close>

definition poly1305_update_body :: "poly1305 \<Rightarrow> bytes \<Rightarrow> poly1305" where
  "poly1305_update_body st data =
     (let st = st\<lparr>m_buffer := memcpy_at (m_buffer st) (unat (m_size st)) data,
                  m_size := m_size st + of_nat (length data)\<rparr>
      in if m_size st = 16 then (poly1305_transform st)\<lparr>m_size := 0\<rparr> else st)"

lemma poly1305_transform_size [simp]:
  "m_size (poly1305_transform st) = m_size st" "m_r (poly1305_transform st) = m_r st"
  "m_s (poly1305_transform st) = m_s st"
  by (simp_all add: poly1305_transform_def Let_def split: prod.split)

function poly1305_update :: "poly1305 \<Rightarrow> bytes \<Rightarrow> poly1305" where
  "poly1305_update st data =
     (if data = [] then st
      else let n = min (length data) (unat (16 - m_size st))
           in poly1305_update (poly1305_update_body st (take n data)) (drop n data))"
  by pat_completeness auto
termination
proof (relation "measure (\<lambda>(st, data). 2 * length data + (if m_size st = 16 then 1 else 0))", goal_cases)
  case (2 st data n)
  show ?case
  proof (cases "n = 0")
    case True
    then have "16 - m_size st = 0" using 2 by (simp add: min_def unat_eq_0 split: if_splits)
    then have "m_size st = 16" by simp
    then show ?thesis using True 2 by (simp add: poly1305_update_body_def Let_def)
  next
    case False
    moreover have "0 < length data" using 2 by simp
    ultimately have "length data - n < length data" by (intro diff_less) simp_all
    then show ?thesis by simp
  qed
qed simp

declare poly1305_update.simps [simp del]

text \<open>The last reduction: \<open>mask\<close> selects between the accumulator and the accumulator plus 5.\<close>

definition poly_select :: "acc5 \<Rightarrow> u64 \<times> u64 \<times> u64 \<times> u64 \<times> u64" where
  "poly_select m = (case m of (m0, m1, m2, m3, m4) \<Rightarrow>
     let b0 = ucast (m0 AND 0xFFFFFFFF) :: u32; b1 = ucast (m1 AND 0xFFFFFFFF) :: u32;
         b2 = ucast (m2 AND 0xFFFFFFFF) :: u32; b3 = ucast (m3 AND 0xFFFFFFFF) :: u32;
         m0 = m0 + 5;
         m1 = m1 + drop_bit 32 m0; m2 = m2 + drop_bit 32 m1; m3 = m3 + drop_bit 32 m2; m4 = m4 + drop_bit 32 m3;
         mask = ucast (drop_bit 2 (m4 AND 0x04) - 1) :: u32;
         m0 = (m0 AND ucast (NOT mask)) OR ucast (b0 AND mask);
         m1 = (m1 AND ucast (NOT mask)) OR ucast (b1 AND mask);
         m2 = (m2 AND ucast (NOT mask)) OR ucast (b2 AND mask);
         m3 = (m3 AND ucast (NOT mask)) OR ucast (b3 AND mask)
     in (m0, m1, m2, m3, m4))"

text \<open>Adds \<open>s\<close>, propagates the carry and keeps 128 bits.\<close>

definition poly_final :: "u64 \<times> u64 \<times> u64 \<times> u64 \<times> u64 \<Rightarrow> limbs4 \<Rightarrow> limbs4" where
  "poly_final m s = (case (m, s) of ((m0, m1, m2, m3, m4), (s0, s1, s2, s3)) \<Rightarrow>
     let m0 = m0 + ucast s0; m1 = m1 + ucast s1; m2 = m2 + ucast s2; m3 = m3 + ucast s3;
         m1 = m1 + drop_bit 32 m0; m2 = m2 + drop_bit 32 m1; m3 = m3 + drop_bit 32 m2; m4 = m4 + drop_bit 32 m3
     in (ucast (m0 AND 0xFFFFFFFF), ucast (m1 AND 0xFFFFFFFF), ucast (m2 AND 0xFFFFFFFF),
         ucast (m3 AND 0xFFFFFFFF)))"

definition poly1305_complete :: "poly1305 \<Rightarrow> poly1305" where
  "poly1305_complete st =
     (let st = (if m_size st \<noteq> 0 then poly1305_transform st else st);
          (b0, b1, b2, b3) = poly_final (poly_select (acc_of (m_a st))) (m_s st ! 0, m_s st ! 1, m_s st ! 2, m_s st ! 3)
      in st\<lparr>m_digest := [LOAD32LE (STORE32LE b0) 0, LOAD32LE (STORE32LE b1) 0,
                         LOAD32LE (STORE32LE b2) 0, LOAD32LE (STORE32LE b3) 0],
            m_a := [0, 0, 0, 0, 0, 0, 0, 0], m_r := [0, 0, 0, 0], m_s := [0, 0, 0, 0]\<rparr>)"

definition poly1305_calculate :: "poly1305 \<Rightarrow> bytes \<Rightarrow> poly1305" where
  "poly1305_calculate st data = poly1305_complete (poly1305_update st data)"

definition poly1305_get :: "poly1305 \<Rightarrow> bytes" where
  "poly1305_get st = take 16 (bytes_of_words (m_digest st))"

text \<open>\<open>compare_with\<close> returns the result of \<open>memcmp\<close>, which is 0 for equal arrays, as a \<open>bool\<close>.\<close>

definition poly1305_compare_with :: "poly1305 \<Rightarrow> bytes \<Rightarrow> bool" where
  "poly1305_compare_with st data \<longleftrightarrow> take 16 (bytes_of_words (m_digest st)) \<noteq> take 16 data"

section \<open>RFC 8439\<close>

definition nat_of_bytes :: "bytes \<Rightarrow> nat" where
  "nat_of_bytes bs = foldr (\<lambda>b n. unat b + 256 * n) bs 0"

definition poly_p :: nat where "poly_p = 2 ^ 130 - 5"

text \<open>The clamped \<open>r\<close> is the first half of the key with the bits of 0x0ffffffc0ffffffc0ffffffc0fffffff.\<close>

definition clamp_r :: "bytes \<Rightarrow> nat" where
  "clamp_r key = nat_of_bytes (take 16 key) AND 0x0ffffffc0ffffffc0ffffffc0fffffff"

text \<open>Each block, with a one byte behind it, is added to the accumulator, which is multiplied by \<open>r\<close>.\<close>

definition rfc_poly1305 :: "bytes \<Rightarrow> bytes \<Rightarrow> nat" where
  "rfc_poly1305 key msg =
     (foldl (\<lambda>a b. ((a + nat_of_bytes (b @ [1])) * clamp_r key) mod poly_p) 0 (chunks 16 msg) +
        nat_of_bytes (take 16 (drop 16 key))) mod 2 ^ 128"

section \<open>Limbs as numbers\<close>

abbreviation W :: nat where "W \<equiv> 4294967296"

lemma unat_u32: "unat (a :: u32) < W"
  using unsigned_less [of a, where 'a = nat] by simp

lemma unat_and_mask: "unat (x AND mask k :: 'a::len word) = unat x mod 2 ^ k"
  by (simp only: unsigned_take_bit_eq flip: take_bit_eq_mask) (simp only: take_bit_eq_mod)

lemma unat_lo64: "unat (x AND 0xFFFFFFFF :: u64) = unat x mod W"
  using unat_and_mask [of x 32] by (simp add: mask_eq_exp_minus_1)

lemma unat_low2: "unat (x AND 0x3 :: u64) = unat x mod 4"
  using unat_and_mask [of x 2] by (simp add: mask_eq_exp_minus_1)

lemma unat_up: "unat (ucast (a :: u32) :: u64) = unat a"
  using unat_u32 [of a] by (simp add: unsigned_ucast_eq take_bit_nat_eq_self)

lemma unat_down: "unat (ucast (x :: u64) :: u32) = unat x mod W"
  by (simp add: unsigned_ucast_eq take_bit_eq_mod)

lemma unat_lo: "unat (ucast (x AND 0xFFFFFFFF :: u64) :: u32) = unat x mod W"
  by (simp add: unat_down unat_lo64)

lemma unat_hi30: "unat (ucast (x AND 0xFFFFFFFC :: u64) :: u32) = 4 * (unat x mod W div 4)"
proof -
  have e: "(ucast (x AND 0xFFFFFFFC) :: u32) = push_bit 2 (drop_bit 2 (ucast x))"
  proof (rule bit_word_eqI)
    fix n assume "n < LENGTH(32)"
    then have n: "n < 32" by simp
    have m: "(0xFFFFFFFC :: u64) = push_bit 2 (mask 30)" by (simp add: mask_eq_exp_minus_1)
    show "bit (ucast (x AND 0xFFFFFFFC) :: u32) n = bit (push_bit 2 (drop_bit 2 (ucast x :: u32))) n"
    proof (cases "2 \<le> n")
      case True
      then obtain k where "n = 2 + k" using le_Suc_ex by blast
      then show ?thesis unfolding m using n by (auto simp: bit_simps)
    next
      case False
      then show ?thesis unfolding m using n by (auto simp: bit_simps)
    qed
  qed
  have "unat (drop_bit 2 (ucast x :: u32)) = unat x mod W div 4"
    by (simp only: unat_drop_bit_eq unat_down) (simp add: drop_bit_eq_div)
  moreover have "unat x mod W div 4 < 2 ^ 30" by (simp add: less_mult_imp_div_less)
  ultimately show ?thesis
    unfolding e unsigned_push_bit_eq by (simp add: push_bit_eq_mult take_bit_nat_eq_self mult.commute)
qed

lemma unat_hi32: "unat (drop_bit 32 x :: u64) = unat x div W"
  by (simp only: unat_drop_bit_eq) (simp add: drop_bit_eq_div)

lemma unat_quarter: "unat (drop_bit 2 a :: u32) = unat a div 4"
  by (simp only: unat_drop_bit_eq) (simp add: drop_bit_eq_div)

lemma unat_shift2: "unat (drop_bit 2 a OR push_bit 30 b :: u32) = unat a div 4 + 1073741824 * (unat b mod 4)"
proof -
  have d: "unat (drop_bit 2 a :: u32) < 2 ^ 30" using unat_u32 [of a] by (simp add: unat_quarter less_mult_imp_div_less)
  have "unat (push_bit 30 b :: u32) = (1073741824 * unat b) mod W"
    by (simp only: unsigned_push_bit_eq) (simp add: push_bit_eq_mult take_bit_eq_mod mult.commute)
  also have "\<dots> = (1073741824 * unat b) mod (1073741824 * 4)" by simp
  also have "\<dots> = 1073741824 * (unat b mod 4)" by (rule mult_mod_right [symmetric])
  finally have p: "unat (push_bit 30 b :: u32) = 1073741824 * (unat b mod 4)" .
  have "unat b mod 4 \<le> 3" by simp
  then have s: "unat (drop_bit 2 a) + unat (push_bit 30 b :: u32) < 2 ^ LENGTH(32)" using d p by simp
  have "drop_bit 2 a OR push_bit 30 b = drop_bit 2 a + push_bit 30 b"
    using bit_below [OF d] by (intro or_add_disjoint) (fastforce simp: bit_push_bit_iff)
  then show ?thesis using unat_add_small [OF s] by (simp add: p unat_quarter)
qed

lemma add64: "unat x + unat y < 18446744073709551616 \<Longrightarrow> unat (x + y :: u64) = unat x + unat y"
  by (rule unat_add_small) simp

lemma mul64: "unat (ucast a * ucast r :: u64) = unat (a :: u32) * unat (r :: u32)"
proof -
  have "unat a * unat r \<le> 4294967295 * 4294967295"
    using unat_u32 [of a] unat_u32 [of r] by (intro mult_le_mono) simp_all
  then show ?thesis by (simp add: unat_word_ariths unat_up)
qed

lemmas limb_simps = unat_lo64 unat_low2 unat_up unat_lo unat_hi30 unat_hi32 unat_quarter unat_shift2 mul64

text \<open>Carrying keeps the value of a limb vector.\<close>

abbreviation W2 :: nat where "W2 \<equiv> 18446744073709551616"
abbreviation W3 :: nat where "W3 \<equiv> 79228162514264337593543950336"
abbreviation W4 :: nat where "W4 \<equiv> 340282366920938463463374607431768211456"

lemma carry_linear:
  fixes m0 :: nat
  assumes "m0 = W * q0 + r0" and "m1 + q0 = W * q1 + r1" and "m2 + q1 = W * q2 + r2" and "m3 + q2 = W * q3 + r3"
  shows "r0 + W * r1 + W2 * r2 + W3 * r3 + W4 * (m4 + q3) = m0 + W * m1 + W2 * m2 + W3 * m3 + W4 * m4"
  using assms by algebra

lemma carry4:
  fixes m0 :: nat
  assumes "c1 = m1 + m0 div W" and "c2 = m2 + c1 div W" and "c3 = m3 + c2 div W" and "c4 = m4 + c3 div W"
  shows "m0 mod W + W * (c1 mod W) + W2 * (c2 mod W) + W3 * (c3 mod W) + W4 * c4 =
    m0 + W * m1 + W2 * m2 + W3 * m3 + W4 * m4"
  unfolding assms(4)
  by (rule carry_linear [of _ "m0 div W" _ _ "c1 div W" _ _ "c2 div W"]) (simp_all flip: assms)

fun val5 :: "acc5 \<Rightarrow> nat" where
  "val5 (m0, m1, m2, m3, m4) = unat m0 + W * unat m1 + W2 * unat m2 + W3 * unat m3 + W4 * unat m4"

fun limbs_val :: "limbs5 \<Rightarrow> nat" where
  "limbs_val (a0, a1, a2, a3, a4) = unat a0 + W * unat a1 + W2 * unat a2 + W3 * unat a3 + W4 * unat a4"

fun r_val :: "limbs4 \<Rightarrow> nat" where
  "r_val (r0, r1, r2, r3) = unat r0 + W * unat r1 + W2 * unat r2 + W3 * unat r3"

text \<open>An accumulator between two blocks is below 2^130, limb by limb.\<close>

fun reduced :: "acc5 \<Rightarrow> bool" where
  "reduced (m0, m1, m2, m3, m4) \<longleftrightarrow>
     unat m0 < W \<and> unat m1 < W \<and> unat m2 < W \<and> unat m3 < W \<and> unat m4 < 4"

lemma poly_add_val:
  assumes "reduced m" and "unat (snd (snd (snd (snd a)))) \<le> 1"
  shows "limbs_val (poly_add m a) = val5 m + limbs_val a \<and> unat (snd (snd (snd (snd (poly_add m a))))) < 8"
proof -
  obtain m0 m1 m2 m3 m4 where m: "m = (m0, m1, m2, m3, m4)" by (cases m)
  obtain a0 a1 a2 a3 a4 where a: "a = (a0, a1, a2, a3, a4)" by (cases a)
  have b: "unat m0 < W" "unat m1 < W" "unat m2 < W" "unat m3 < W" "unat m4 < 4" "unat a4 \<le> 1"
    using assms by (simp_all add: m a)
  note u = unat_u32 [of a0] unat_u32 [of a1] unat_u32 [of a2] unat_u32 [of a3]
  define c1 where "c1 = unat m1 + unat a1 + (unat m0 + unat a0) div W"
  define c2 where "c2 = unat m2 + unat a2 + c1 div W"
  define c3 where "c3 = unat m3 + unat a3 + c2 div W"
  define c4 where "c4 = unat m4 + unat a4 + c3 div W"
  have d: "(unat m0 + unat a0) div W \<le> 1" using b u by (intro less_Suc_eq_le [THEN iffD1] less_mult_imp_div_less) simp
  have d1: "c1 div W \<le> 1" using b u d unfolding c1_def
    by (intro less_Suc_eq_le [THEN iffD1] less_mult_imp_div_less) simp
  have d2: "c2 div W \<le> 1" using b u d1 unfolding c2_def
    by (intro less_Suc_eq_le [THEN iffD1] less_mult_imp_div_less) simp
  have d3: "c3 div W \<le> 1" using b u d2 unfolding c3_def
    by (intro less_Suc_eq_le [THEN iffD1] less_mult_imp_div_less) simp
  have c4: "c4 < 8" using b d3 by (simp add: c4_def)
  let ?m0 = "m0 + ucast a0" and ?m1 = "m1 + ucast a1 + drop_bit 32 (m0 + ucast a0)"
  let ?m2 = "m2 + ucast a2 + drop_bit 32 ?m1" let ?m3 = "m3 + ucast a3 + drop_bit 32 ?m2"
  have n0: "unat ?m0 = unat m0 + unat a0" using b u by (simp add: add64 unat_up)
  have n1: "unat ?m1 = c1" using b u d n0 by (simp add: add64 unat_up unat_hi32 c1_def)
  have n2: "unat ?m2 = c2" using b u d1 n1 by (simp add: add64 unat_up unat_hi32 c2_def)
  have n3: "unat ?m3 = c3" using b u d2 n2 by (simp add: add64 unat_up unat_hi32 c3_def)
  have n4: "unat (m4 + ucast a4 + drop_bit 32 ?m3) = c4"
    using b u d3 n3 by (simp add: add64 unat_up unat_hi32 c4_def)
  have p: "poly_add m a = (ucast (?m0 AND 0xFFFFFFFF), ucast (?m1 AND 0xFFFFFFFF), ucast (?m2 AND 0xFFFFFFFF),
      ucast (?m3 AND 0xFFFFFFFF), ucast ((m4 + ucast a4 + drop_bit 32 ?m3) AND 0xFFFFFFFF))"
    by (simp add: m a poly_add_def Let_def)
  have "limbs_val (poly_add m a) = (unat m0 + unat a0) mod W + W * (c1 mod W) + W2 * (c2 mod W) + W3 * (c3 mod W) + W4 * c4"
    unfolding p limbs_val.simps unat_lo n0 n1 n2 n3 n4 using c4 by simp
  also have "\<dots> = (unat m0 + unat a0) + W * (unat m1 + unat a1) + W2 * (unat m2 + unat a2) +
      W3 * (unat m3 + unat a3) + W4 * (unat m4 + unat a4)"
    by (rule carry4) (simp_all only: c1_def c2_def c3_def c4_def)
  finally have "limbs_val (poly_add m a) = val5 m + limbs_val a" by (simp add: m a)
  then show ?thesis using c4 unfolding p snd_conv unat_lo n4 by simp
qed

abbreviation W5 :: nat where "W5 \<equiv> 1461501637330902918203684832716283019655932542976"
abbreviation W6 :: nat where "W6 \<equiv> 6277101735386680763835789423207666416102355444464034512896"
abbreviation W7 :: nat where "W7 \<equiv> 26959946667150639794667015087019630673637144422540572481103610249216"

lemma carry_linear7:
  fixes m0 :: nat
  assumes "m0 = W * q0 + r0" and "m1 + q0 = W * q1 + r1" and "m2 + q1 = W * q2 + r2" and "m3 + q2 = W * q3 + r3"
    and "m4 + q3 = W * q4 + r4" and "m5 + q4 = W * q5 + r5" and "m6 + q5 = W * q6 + r6"
  shows "r0 + W * r1 + W2 * r2 + W3 * r3 + W4 * r4 + W5 * r5 + W6 * r6 + W7 * (m7 + q6) =
    m0 + W * m1 + W2 * m2 + W3 * m3 + W4 * m4 + W5 * m5 + W6 * m6 + W7 * m7"
  using assms by algebra

text \<open>The value of the eight limbs after the carry: all but the last are below 2^32 in the sum.\<close>

fun val8 :: "acc8 \<Rightarrow> nat" where
  "val8 (m0, m1, m2, m3, m4, m5, m6, m7) = unat m0 mod W + W * (unat m1 mod W) + W2 * (unat m2 mod W) +
     W3 * (unat m3 mod W) + W4 * (unat m4 mod W) + W5 * (unat m5 mod W) + W6 * (unat m6 mod W) + W7 * unat m7"

fun r_small :: "limbs4 \<Rightarrow> bool" where
  "r_small (r0, r1, r2, r3) \<longleftrightarrow> unat r0 < 268435456 \<and> unat r1 < 268435456 \<and> unat r2 < 268435456 \<and> unat r3 < 268435456"

lemma product_bound: "unat (r :: u32) < 268435456 \<Longrightarrow> unat (a :: u32) * unat r \<le> 1152921500043444225"
  using mult_le_mono [of "unat a" 4294967295 "unat r" 268435455] unat_u32 [of a] by simp

lemma quotient_bound: "x < 6917529027641081856 \<Longrightarrow> x div W < 1610612736"
  by (rule less_mult_imp_div_less) simp

lemma poly_mul_val:
  assumes "r_small r" and "unat (snd (snd (snd (snd a)))) < 8"
  shows "val8 (poly_mul a r) = limbs_val a * r_val r"
proof -
  obtain a0 a1 a2 a3 a4 where a: "a = (a0, a1, a2, a3, a4)" by (cases a)
  obtain r0 r1 r2 r3 where r: "r = (r0, r1, r2, r3)" by (cases r)
  have rb: "unat r0 < 268435456" "unat r1 < 268435456" "unat r2 < 268435456" "unat r3 < 268435456"
    using assms(1) by (simp_all add: r)
  note p0 = product_bound [OF rb(1)] note p1 = product_bound [OF rb(2)]
  note p2 = product_bound [OF rb(3)] note p3 = product_bound [OF rb(4)]
  define t0 where "t0 = unat a0 * unat r0"
  define t1 where "t1 = unat a0 * unat r1 + unat a1 * unat r0"
  define t2 where "t2 = unat a0 * unat r2 + unat a1 * unat r1 + unat a2 * unat r0"
  define t3 where "t3 = unat a0 * unat r3 + unat a1 * unat r2 + unat a2 * unat r1 + unat a3 * unat r0"
  define t4 where "t4 = unat a1 * unat r3 + unat a2 * unat r2 + unat a3 * unat r1 + unat a4 * unat r0"
  define t5 where "t5 = unat a2 * unat r3 + unat a3 * unat r2 + unat a4 * unat r1"
  define t6 where "t6 = unat a3 * unat r3 + unat a4 * unat r2"
  define t7 where "t7 = unat a4 * unat r3"
  note t_defs = t0_def t1_def t2_def t3_def t4_def t5_def t6_def t7_def
  have t: "t0 \<le> 4611686000173776900" "t1 \<le> 4611686000173776900" "t2 \<le> 4611686000173776900" "t3 \<le> 4611686000173776900" "t4 \<le> 4611686000173776900" "t5 \<le> 4611686000173776900" "t6 \<le> 4611686000173776900" "t7 \<le> 4611686000173776900"
    unfolding t_defs
    using p0 [of a0] p1 [of a0] p2 [of a0] p3 [of a0] p0 [of a1] p1 [of a1] p2 [of a1] p3 [of a1]
      p0 [of a2] p1 [of a2] p2 [of a2] p3 [of a2] p0 [of a3] p1 [of a3] p2 [of a3] p3 [of a3]
      p0 [of a4] p1 [of a4] p2 [of a4] p3 [of a4] by linarith+
  define c1 where "c1 = t1 + t0 div W"
  define c2 where "c2 = t2 + c1 div W"
  define c3 where "c3 = t3 + c2 div W"
  define c4 where "c4 = t4 + c3 div W"
  define c5 where "c5 = t5 + c4 div W"
  define c6 where "c6 = t6 + c5 div W"
  define c7 where "c7 = t7 + c6 div W"
  note c_defs = c1_def c2_def c3_def c4_def c5_def c6_def c7_def
  have q0: "t0 div W < 1610612736" using t(1) by (intro quotient_bound) simp
  have q1: "c1 div W < 1610612736" using t q0 by (intro quotient_bound) (simp add: c1_def)
  have q2: "c2 div W < 1610612736" using t q1 by (intro quotient_bound) (simp add: c2_def)
  have q3: "c3 div W < 1610612736" using t q2 by (intro quotient_bound) (simp add: c3_def)
  have q4: "c4 div W < 1610612736" using t q3 by (intro quotient_bound) (simp add: c4_def)
  have q5: "c5 div W < 1610612736" using t q4 by (intro quotient_bound) (simp add: c5_def)
  have q6: "c6 div W < 1610612736" using t q5 by (intro quotient_bound) (simp add: c6_def)
  let ?a0 = "ucast a0 :: u64" let ?a1 = "ucast a1 :: u64" let ?a2 = "ucast a2 :: u64"
  let ?a3 = "ucast a3 :: u64" let ?a4 = "ucast a4 :: u64"
  let ?r0 = "ucast r0 :: u64" let ?r1 = "ucast r1 :: u64" let ?r2 = "ucast r2 :: u64" let ?r3 = "ucast r3 :: u64"
  have u0: "unat (?a0 * ?r0) = t0" by (simp add: mul64 t0_def)
  have u1: "unat (?a0 * ?r1 + ?a1 * ?r0) = t1" using t(2) unfolding t1_def by (simp add: add64 mul64)
  have u2: "unat (?a0 * ?r2 + ?a1 * ?r1 + ?a2 * ?r0) = t2" using t(3) unfolding t2_def by (simp add: add64 mul64)
  have u3: "unat (?a0 * ?r3 + ?a1 * ?r2 + ?a2 * ?r1 + ?a3 * ?r0) = t3"
    using t(4) unfolding t3_def by (simp add: add64 mul64)
  have u4: "unat (?a1 * ?r3 + ?a2 * ?r2 + ?a3 * ?r1 + ?a4 * ?r0) = t4"
    using t(5) unfolding t4_def by (simp add: add64 mul64)
  have u5: "unat (?a2 * ?r3 + ?a3 * ?r2 + ?a4 * ?r1) = t5" using t(6) unfolding t5_def by (simp add: add64 mul64)
  have u6: "unat (?a3 * ?r3 + ?a4 * ?r2) = t6" using t(7) unfolding t6_def by (simp add: add64 mul64)
  have u7: "unat (?a4 * ?r3) = t7" by (simp add: mul64 t7_def)
  define m1 where "m1 = ?a0 * ?r1 + ?a1 * ?r0 + drop_bit 32 (?a0 * ?r0)"
  define m2 where "m2 = ?a0 * ?r2 + ?a1 * ?r1 + ?a2 * ?r0 + drop_bit 32 m1"
  define m3 where "m3 = ?a0 * ?r3 + ?a1 * ?r2 + ?a2 * ?r1 + ?a3 * ?r0 + drop_bit 32 m2"
  define m4 where "m4 = ?a1 * ?r3 + ?a2 * ?r2 + ?a3 * ?r1 + ?a4 * ?r0 + drop_bit 32 m3"
  define m5 where "m5 = ?a2 * ?r3 + ?a3 * ?r2 + ?a4 * ?r1 + drop_bit 32 m4"
  define m6 where "m6 = ?a3 * ?r3 + ?a4 * ?r2 + drop_bit 32 m5"
  define m7 where "m7 = ?a4 * ?r3 + drop_bit 32 m6"
  have n1: "unat m1 = c1" unfolding m1_def c1_def by (subst add64) (use t q0 in \<open>simp_all only: u1 u0 unat_hi32, linarith?\<close>)
  have n2: "unat m2 = c2" unfolding m2_def c2_def by (subst add64) (use t q1 in \<open>simp_all only: u2 n1 unat_hi32, linarith?\<close>)
  have n3: "unat m3 = c3" unfolding m3_def c3_def by (subst add64) (use t q2 in \<open>simp_all only: u3 n2 unat_hi32, linarith?\<close>)
  have n4: "unat m4 = c4" unfolding m4_def c4_def by (subst add64) (use t q3 in \<open>simp_all only: u4 n3 unat_hi32, linarith?\<close>)
  have n5: "unat m5 = c5" unfolding m5_def c5_def by (subst add64) (use t q4 in \<open>simp_all only: u5 n4 unat_hi32, linarith?\<close>)
  have n6: "unat m6 = c6" unfolding m6_def c6_def by (subst add64) (use t q5 in \<open>simp_all only: u6 n5 unat_hi32, linarith?\<close>)
  have n7: "unat m7 = c7" unfolding m7_def c7_def by (subst add64) (use t q6 in \<open>simp_all only: u7 n6 unat_hi32, linarith?\<close>)
  have "poly_mul a r = (?a0 * ?r0, m1, m2, m3, m4, m5, m6, m7)"
    unfolding a r poly_mul_def m1_def m2_def m3_def m4_def m5_def m6_def m7_def by (simp only: prod.case Let_def)
  then have "val8 (poly_mul a r) = t0 mod W + W * (c1 mod W) + W2 * (c2 mod W) + W3 * (c3 mod W) + W4 * (c4 mod W) +
      W5 * (c5 mod W) + W6 * (c6 mod W) + W7 * (t7 + c6 div W)"
    by (simp only: val8.simps u0 n1 n2 n3 n4 n5 n6 n7 c7_def)
  also have "\<dots> = t0 + W * t1 + W2 * t2 + W3 * t3 + W4 * t4 + W5 * t5 + W6 * t6 + W7 * t7"
    by (rule carry_linear7 [of _ "t0 div W" _ _ "c1 div W" _ _ "c2 div W" _ _ "c3 div W" _ _ "c4 div W" _ _ "c5 div W"])
      (simp_all flip: c_defs)
  also have "\<dots> = limbs_val a * r_val r"
    unfolding t_defs by (simp add: a r algebra_simps)
  finally show ?thesis .
qed

text \<open>The value of limbs whose carry has been propagated but not yet masked.\<close>

fun val5c :: "acc5 \<Rightarrow> nat" where
  "val5c (m0, m1, m2, m3, m4) =
     unat m0 mod W + W * (unat m1 mod W) + W2 * (unat m2 mod W) + W3 * (unat m3 mod W) + W4 * unat m4"

abbreviation P130 :: nat where "P130 \<equiv> 1361129467683753853853498429727072845824"

lemma pass1_linear:
  fixes y0 :: nat
  assumes "x5 = 4 * e5 + f5" and "x6 = 4 * e6 + f6" and "x7 = 4 * e7 + f7" and "x4 = 4 * d4 + f4"
    and "H = d4 + 1073741824 * x5 + 4611686018427387904 * x6 + 19807040628566084398385987584 * x7"
  shows "(y0 + 4 * d4 + (d4 + 1073741824 * f5)) + W * (y1 + x5 + (e5 + 1073741824 * f6)) +
      W2 * (y2 + x6 + (e6 + 1073741824 * f7)) + W3 * (y3 + x7 + e7) + W4 * f4 =
    (y0 + W * y1 + W2 * y2 + W3 * y3 + W4 * f4) + 5 * H"
    and "y0 + W * y1 + W2 * y2 + W3 * y3 + W4 * x4 + W5 * x5 + W6 * x6 + W7 * x7 =
    (y0 + W * y1 + W2 * y2 + W3 * y3 + W4 * f4) + P130 * H"
  using assms by algebra+

lemma poly_pass1_val:
  assumes "val8 m < 57896044618658097711785492504343953926634992332820282019728792003956564819968"
  obtains L H where "val8 m = L + P130 * H" and "L < P130" and "H < 42535295865117307932921825928971026432" and "val5c (poly_pass1 m) = L + 5 * H"
proof -
  obtain m0 m1 m2 m3 m4 m5 m6 m7 where m: "m = (m0, m1, m2, m3, m4, m5, m6, m7)" by (metis surj_pair)
  have m7: "unat m7 < W" using assms by (simp add: m)
  define y0 where "y0 = unat m0 mod W" define y1 where "y1 = unat m1 mod W"
  define y2 where "y2 = unat m2 mod W" define y3 where "y3 = unat m3 mod W"
  define x4 where "x4 = unat m4 mod W" define x5 where "x5 = unat m5 mod W"
  define x6 where "x6 = unat m6 mod W" define x7 where "x7 = unat m7"
  note xy = y0_def y1_def y2_def y3_def x4_def x5_def x6_def x7_def
  define f4 where "f4 = unat m4 mod 4"
  define s0 where "s0 = y0 + 4 * (x4 div 4) + (x4 div 4 + 1073741824 * (x5 mod 4))"
  define s1 where "s1 = y1 + x5 + (x5 div 4 + 1073741824 * (x6 mod 4))"
  define s2 where "s2 = y2 + x6 + (x6 div 4 + 1073741824 * (x7 mod 4))"
  define s3 where "s3 = y3 + x7 + x7 div 4"
  have f4: "f4 = x4 mod 4" by (simp add: f4_def x4_def mod_mod_cancel)
  have lt: "y0 < W" "y1 < W" "y2 < W" "y3 < W" "x4 < W" "x5 < W" "x6 < W" "x7 < W" "f4 < 4"
    using m7 by (simp_all add: xy f4_def)
  have q: "x div 4 \<le> x" "x mod 4 \<le> 3" for x :: nat by simp_all
  have sb: "s0 < 17179869184" "s1 < 17179869184" "s2 < 17179869184" "s3 < 17179869184"
    using lt q [of x4] q [of x5] q [of x6] q [of x7] unfolding s0_def s1_def s2_def s3_def by linarith+
  have db: "x div W < 8" if "x < 17179869184 + 8" for x :: nat using that by (intro less_mult_imp_div_less) simp
  define c1 where "c1 = s1 + s0 div W" define c2 where "c2 = s2 + c1 div W"
  define c3 where "c3 = s3 + c2 div W" define c4 where "c4 = f4 + c3 div W"
  have d: "s0 div W < 8" "c1 div W < 8" "c2 div W < 8" "c3 div W < 8"
  proof -
    show d0: "s0 div W < 8" using sb db by simp
    show d1: "c1 div W < 8" using sb d0 by (intro db) (simp add: c1_def)
    show d2: "c2 div W < 8" using sb d1 by (intro db) (simp add: c2_def)
    show "c3 div W < 8" using sb d2 by (intro db) (simp add: c3_def)
  qed
  define a0 where "a0 = (ucast (m4 AND 0xFFFFFFFC) :: u32)" define a1 where "a1 = (ucast (m5 AND 0xFFFFFFFF) :: u32)"
  define a2 where "a2 = (ucast (m6 AND 0xFFFFFFFF) :: u32)" define a3 where "a3 = (ucast (m7 AND 0xFFFFFFFF) :: u32)"
  have a: "unat a0 = 4 * (x4 div 4)" "unat a1 = x5" "unat a2 = x6" "unat a3 = x7"
    using m7 by (simp_all add: a0_def a1_def a2_def a3_def unat_hi30 unat_lo xy)
  define n0 where "n0 = (m0 AND 0xFFFFFFFF) + ucast a0 + ucast (drop_bit 2 a0 OR push_bit 30 a1)"
  define n1 where "n1 = (m1 AND 0xFFFFFFFF) + ucast a1 + ucast (drop_bit 2 a1 OR push_bit 30 a2) + drop_bit 32 n0"
  define n2 where "n2 = (m2 AND 0xFFFFFFFF) + ucast a2 + ucast (drop_bit 2 a2 OR push_bit 30 a3) + drop_bit 32 n1"
  define n3 where "n3 = (m3 AND 0xFFFFFFFF) + ucast a3 + ucast (drop_bit 2 a3) + drop_bit 32 n2"
  define n4 where "n4 = (m4 AND 0x3) + drop_bit 32 n3"
  have u0: "unat n0 = s0" using sb(1) unfolding n0_def s0_def
    by (simp add: add64 unat_lo64 unat_up unat_shift2 a y0_def)
  have u1: "unat n1 = c1" using sb(2) d(1) unfolding n1_def c1_def s1_def
    by (simp add: add64 unat_lo64 unat_up unat_shift2 unat_hi32 a y1_def u0)
  have u2: "unat n2 = c2" using sb(3) d(2) unfolding n2_def c2_def s2_def
    by (simp add: add64 unat_lo64 unat_up unat_shift2 unat_hi32 a y2_def u1)
  have u3: "unat n3 = c3" using sb(4) d(3) unfolding n3_def c3_def s3_def
    by (simp add: add64 unat_lo64 unat_up unat_quarter unat_hi32 a y3_def u2)
  have u4: "unat n4 = c4" using lt(9) d(4) unfolding n4_def c4_def f4_def
    by (simp add: add64 unat_low2 unat_hi32 u3)
  have "poly_pass1 m = (n0, n1, n2, n3, n4)"
    unfolding m poly_pass1_def n0_def n1_def n2_def n3_def n4_def a0_def a1_def a2_def a3_def
    by (simp only: prod.case Let_def)
  then have v: "val5c (poly_pass1 m) = s0 + W * s1 + W2 * s2 + W3 * s3 + W4 * f4"
    using carry4 [OF c1_def c2_def c3_def c4_def] by (simp only: val5c.simps u0 u1 u2 u3 u4)
  define L where "L = y0 + W * y1 + W2 * y2 + W3 * y3 + W4 * f4"
  define H where "H = x4 div 4 + 1073741824 * x5 + 4611686018427387904 * x6 + 19807040628566084398385987584 * x7"
  have dm: "x5 = 4 * (x5 div 4) + x5 mod 4" "x6 = 4 * (x6 div 4) + x6 mod 4" "x7 = 4 * (x7 div 4) + x7 mod 4"
    "x4 = 4 * (x4 div 4) + f4" by (simp_all add: f4)
  have "val5c (poly_pass1 m) = L + 5 * H"
    using pass1_linear(1) [OF dm H_def, of y0 y1 y2 y3] unfolding v L_def s0_def s1_def s2_def s3_def .
  moreover have T: "val8 m = L + P130 * H"
    using pass1_linear(2) [OF dm H_def, of y0 y1 y2 y3] unfolding m val8.simps L_def xy .
  moreover have "L < P130" using lt unfolding L_def by linarith
  moreover have "H < 42535295865117307932921825928971026432" using T assms by linarith
  ultimately show ?thesis using that by blast
qed

lemma poly_pass2_val:
  assumes "val5c m < P130 + 212676479325586539664609129644855132160"
  obtains L h where "val5c m = L + P130 * h" and "val5 (poly_pass2 m) = L + 5 * h" and "reduced (poly_pass2 m)"
proof -
  obtain m0 m1 m2 m3 m4 where m: "m = (m0, m1, m2, m3, m4)" by (cases m)
  define y0 where "y0 = unat m0 mod W" define y1 where "y1 = unat m1 mod W"
  define y2 where "y2 = unat m2 mod W" define y3 where "y3 = unat m3 mod W"
  define f4 where "f4 = unat m4 mod 4" define h where "h = unat m4 div 4"
  note y = y0_def y1_def y2_def y3_def
  have V: "val5c m = y0 + W * y1 + W2 * y2 + W3 * y3 + W4 * unat m4" by (simp add: m y)
  then have m4: "unat m4 < 8" using assms by linarith
  have h: "h \<le> 1" "unat m4 = 4 * h + f4" using m4 by (simp_all add: h_def f4_def)
  have lt: "y0 < W" "y1 < W" "y2 < W" "y3 < W" "f4 < 4" by (simp_all add: y f4_def)
  define s0 where "s0 = y0 + 4 * h + h"
  define c1 where "c1 = y1 + s0 div W" define c2 where "c2 = y2 + c1 div W"
  define c3 where "c3 = y3 + c2 div W" define c4 where "c4 = f4 + c3 div W"
  have db: "x div W < 2" if "x < W + 8" for x :: nat using that by (intro less_mult_imp_div_less) simp
  have d0: "s0 div W < 2" using lt h by (intro db) (simp add: s0_def)
  have d1: "c1 div W < 2" using lt d0 by (intro db) (simp add: c1_def)
  have d2: "c2 div W < 2" using lt d1 by (intro db) (simp add: c2_def)
  have d3: "c3 div W < 2" using lt d2 by (intro db) (simp add: c3_def)
  define a0 where "a0 = (ucast (m4 AND 0xFFFFFFFC) :: u32)"
  have a: "unat a0 = 4 * h" using m4 by (simp add: a0_def unat_hi30 h_def)
  define n0 where "n0 = (m0 AND 0xFFFFFFFF) + ucast a0 + ucast (drop_bit 2 a0)"
  define n1 where "n1 = (m1 AND 0xFFFFFFFF) + drop_bit 32 n0"
  define n2 where "n2 = (m2 AND 0xFFFFFFFF) + drop_bit 32 n1"
  define n3 where "n3 = (m3 AND 0xFFFFFFFF) + drop_bit 32 n2"
  define n4 where "n4 = (m4 AND 0x3) + drop_bit 32 n3"
  have u0: "unat n0 = s0" using lt h unfolding n0_def s0_def by (simp add: add64 unat_lo64 unat_up unat_quarter a flip: y)
  have u1: "unat n1 = c1" using lt d0 unfolding n1_def c1_def by (simp add: add64 unat_lo64 unat_hi32 u0 flip: y)
  have u2: "unat n2 = c2" using lt d1 unfolding n2_def c2_def by (simp add: add64 unat_lo64 unat_hi32 u1 flip: y)
  have u3: "unat n3 = c3" using lt d2 unfolding n3_def c3_def by (simp add: add64 unat_lo64 unat_hi32 u2 flip: y)
  have u4: "unat n4 = c4" using lt d3 unfolding n4_def c4_def by (simp add: add64 unat_low2 unat_hi32 u3 flip: f4_def)
  have p: "poly_pass2 m = (n0 AND 0xFFFFFFFF, n1 AND 0xFFFFFFFF, n2 AND 0xFFFFFFFF, n3 AND 0xFFFFFFFF, n4 AND 0x3)"
    unfolding m poly_pass2_def n0_def n1_def n2_def n3_def n4_def a0_def by (simp only: prod.case Let_def)
  define L where "L = y0 + W * y1 + W2 * y2 + W3 * y3 + W4 * f4"
  have VL: "val5c m = L + P130 * h" unfolding V L_def h(2) by simp
  have c: "s0 mod W + W * (c1 mod W) + W2 * (c2 mod W) + W3 * (c3 mod W) + W4 * c4 = L + 5 * h"
    using carry4 [OF c1_def c2_def c3_def c4_def] unfolding L_def s0_def by simp
  have "L < P130" using lt unfolding L_def by linarith
  then have "L + 5 * h < P130" using VL assms h(1) by (cases "h = 0") (simp_all add: le_Suc_eq)
  then have c4: "c4 < 4" using c by linarith
  have "val5 (poly_pass2 m) = L + 5 * h"
    unfolding p val5.simps unat_lo64 unat_low2 u0 u1 u2 u3 u4 using c c4 by simp
  moreover have "reduced (poly_pass2 m)"
    unfolding p reduced.simps unat_lo64 unat_low2 by simp
  ultimately show ?thesis using that VL by blast
qed

text \<open>One block: the accumulator plus the block, times \<open>r\<close>, modulo 2^130 - 5.\<close>

definition poly_step :: "limbs4 \<Rightarrow> acc5 \<Rightarrow> limbs5 \<Rightarrow> acc5" where
  "poly_step r m a = poly_pass2 (poly_pass1 (poly_mul (poly_add m a) r))"

lemma poly_step_val:
  assumes "reduced m" and "unat (snd (snd (snd (snd a)))) \<le> 1" and "r_small r"
  shows "reduced (poly_step r m a)"
    and "val5 (poly_step r m a) mod poly_p = ((val5 m + limbs_val a) * r_val r) mod poly_p"
proof -
  note add = poly_add_val [OF assms(1,2)]
  have T: "val8 (poly_mul (poly_add m a) r) = (val5 m + limbs_val a) * r_val r"
    using poly_mul_val [OF assms(3) conjunct2 [OF add]] add by simp
  have lb: "limbs_val x < 8 * W4" if "unat (snd (snd (snd (snd x)))) < 8" for x
  proof -
    obtain x0 x1 x2 x3 x4 where x: "x = (x0, x1, x2, x3, x4)" by (cases x)
    show ?thesis
      using that unat_u32 [of x0] unat_u32 [of x1] unat_u32 [of x2] unat_u32 [of x3] unfolding x limbs_val.simps snd_conv
      by linarith
  qed
  have "r_val r < 21267647932558653966460912964485513216" using assms(3) by (cases r) simp
  then have "limbs_val (poly_add m a) * r_val r < 8 * W4 * 21267647932558653966460912964485513216"
    using lb [OF conjunct2 [OF add]] by (intro mult_strict_mono) simp_all
  then have "val8 (poly_mul (poly_add m a) r) < 57896044618658097711785492504343953926634992332820282019728792003956564819968" using T add by simp
  then obtain L H where 1: "val8 (poly_mul (poly_add m a) r) = L + P130 * H" "L < P130" "H < 42535295865117307932921825928971026432"
      "val5c (poly_pass1 (poly_mul (poly_add m a) r)) = L + 5 * H" by (rule poly_pass1_val)
  then have "val5c (poly_pass1 (poly_mul (poly_add m a) r)) < P130 + 212676479325586539664609129644855132160" by linarith
  then obtain L' h where 2: "val5c (poly_pass1 (poly_mul (poly_add m a) r)) = L' + P130 * h"
      "val5 (poly_step r m a) = L' + 5 * h" "reduced (poly_step r m a)"
    unfolding poly_step_def by (rule poly_pass2_val)
  show "reduced (poly_step r m a)" by (rule 2(3))
  have p: "P130 = poly_p + 5" by (simp add: poly_p_def)
  have red: "(x + P130 * y) mod poly_p = (x + 5 * y) mod poly_p" for x y
  proof -
    have "x + P130 * y = (x + 5 * y) + y * poly_p" unfolding p by (simp add: algebra_simps)
    then show ?thesis by (simp only: mod_mult_self1)
  qed
  have "val5 (poly_step r m a) mod poly_p = (L + 5 * H) mod poly_p"
    using red [of L' h] 2(1,2) 1(4) by simp
  also have "\<dots> = ((val5 m + limbs_val a) * r_val r) mod poly_p" using red [of L H] 1(1) T by simp
  finally show "val5 (poly_step r m a) mod poly_p = ((val5 m + limbs_val a) * r_val r) mod poly_p" .
qed

section \<open>Bytes as numbers\<close>

lemma nat_of_bytes_Nil [simp]: "nat_of_bytes [] = 0"
  by (simp add: nat_of_bytes_def)

lemma nat_of_bytes_Cons [simp]: "nat_of_bytes (b # bs) = unat b + 256 * nat_of_bytes bs"
  by (simp add: nat_of_bytes_def)

lemma nat_of_bytes_append: "nat_of_bytes (xs @ ys) = nat_of_bytes xs + 256 ^ length xs * nat_of_bytes ys"
  by (induction xs) (simp_all add: algebra_simps)

lemma nat_of_bytes_zeros [simp]: "nat_of_bytes (replicate n 0) = 0"
  by (induction n) simp_all

lemma nat_of_bytes_less: "nat_of_bytes bs < 256 ^ length bs"
proof (induction bs)
  case (Cons b bs)
  have "unat b < 256" using unsigned_less [of b, where 'a = nat] by simp
  then have "unat b + 256 * nat_of_bytes bs < 256 + 256 * nat_of_bytes bs" by simp
  also have "\<dots> = 256 * Suc (nat_of_bytes bs)" by simp
  also have "\<dots> \<le> 256 * 256 ^ length bs" using Cons by (intro mult_le_mono) simp_all
  finally show ?case by simp
qed simp

lemma or_push_byte:
  assumes "unat v < 2 ^ k" and "k + 8 \<le> 32"
  shows "unat (v OR push_bit k (ucast (b :: u8)) :: u32) = unat v + 2 ^ k * unat b"
    and "unat (v OR push_bit k (ucast (b :: u8)) :: u32) < 2 ^ (k + 8)"
proof -
  have b: "unat b < 256" using unsigned_less [of b, where 'a = nat] by simp
  have u: "unat (ucast b :: u32) = unat b" using b by (simp add: unsigned_ucast_eq take_bit_nat_eq_self)
  have "2 ^ k * unat b + 2 ^ k \<le> 2 ^ k * (256 :: nat)"
    using b by (metis Suc_leI mult_Suc_right mult_le_mono2 add.commute)
  then have le: "2 ^ k * unat b + 2 ^ k \<le> 2 ^ (k + 8)" by (simp add: power_add)
  have "(2 :: nat) ^ (k + 8) \<le> 2 ^ 32" using assms(2) by (intro power_increasing) simp_all
  moreover have "0 < (2 :: nat) ^ k" by simp
  ultimately have "2 ^ k * unat b < 2 ^ 32" using le by linarith
  then have p: "unat (push_bit k (ucast b) :: u32) = 2 ^ k * unat b"
    unfolding unsigned_push_bit_eq by (simp add: u push_bit_eq_mult take_bit_nat_eq_self mult.commute)
  have s: "unat v + unat (push_bit k (ucast b) :: u32) < 2 ^ LENGTH(32)"
    using assms(1) le \<open>2 ^ (k + 8) \<le> 2 ^ 32\<close> unfolding p by simp
  have "v OR push_bit k (ucast b) = v + push_bit k (ucast b)"
    using bit_below [OF assms(1)] by (intro or_add_disjoint) (fastforce simp: bit_push_bit_iff)
  then show e: "unat (v OR push_bit k (ucast (b :: u8)) :: u32) = unat v + 2 ^ k * unat b"
    using unat_add_small [OF s] p by simp
  show "unat (v OR push_bit k (ucast (b :: u8)) :: u32) < 2 ^ (k + 8)"
    unfolding e using assms(1) le by simp
qed

lemma unat_LOAD32LE:
  assumes "k + 4 \<le> length p"
  shows "unat (LOAD32LE p k) = nat_of_bytes (take 4 (drop k p))"
proof -
  have a: "unat (ucast (p ! k) :: u32) = unat (p ! k)" "unat (p ! k) < 256"
    using unsigned_less [of "p ! k", where 'a = nat] by (simp_all add: unsigned_ucast_eq take_bit_nat_eq_self)
  then have v0: "unat (ucast (p ! k) :: u32) < 2 ^ 8" by simp
  note v1 = or_push_byte [OF v0, of "p ! (k + 1)"]
  then have l1: "unat (ucast (p ! k) OR push_bit 8 (ucast (p ! (k + 1))) :: u32) < 2 ^ 16" by simp
  note v2 = or_push_byte [OF l1, of "p ! (k + 2)"]
  then have l2: "unat ((ucast (p ! k) OR push_bit 8 (ucast (p ! (k + 1)))) OR push_bit 16 (ucast (p ! (k + 2))) :: u32) < 2 ^ 24"
    by simp
  note v3 = or_push_byte [OF l2, of "p ! (k + 3)"]
  have "take 4 (drop k p) = [p ! k, p ! (k + 1), p ! (k + 2), p ! (k + 3)]"
    using assms by (simp add: list_eq_iff_nth_eq less_Suc_eq numeral_eq_Suc)
  then show ?thesis using v1(1) v2(1) v3(1) a(1) by (simp add: LOAD32LE_def or.assoc)
qed

lemma poly_pad_eq:
  "length buffer = 17 \<Longrightarrow> n \<le> 16 \<Longrightarrow> poly_pad buffer n = take n buffer @ 1 # replicate (16 - n) 0"
  by (simp add: poly_pad_def memcpy_at_def take_Suc_conv_app_nth)

lemma nat_of_bytes_4: "4 \<le> length p \<Longrightarrow> nat_of_bytes p = nat_of_bytes (take 4 p) + W * nat_of_bytes (drop 4 p)"
  using nat_of_bytes_append [of "take 4 p" "drop 4 p"] by simp

lemma bytes16_limbs:
  assumes "length b = 16"
  shows "nat_of_bytes b = nat_of_bytes (take 4 b) + W * (nat_of_bytes (take 4 (drop 4 b)) +
    W * (nat_of_bytes (take 4 (drop 8 b)) + W * nat_of_bytes (take 4 (drop 12 b))))"
  using assms nat_of_bytes_4 [of b] nat_of_bytes_4 [of "drop 4 b"] nat_of_bytes_4 [of "drop 8 b"] by simp

lemma bytes17_limbs:
  assumes "length b = 17"
  shows "limbs_val (poly_load b) = nat_of_bytes b"
proof -
  have d: "drop 16 b = [b ! 16]" using assms by (simp add: list_eq_iff_nth_eq)
  have "nat_of_bytes b = nat_of_bytes (take 4 b) + W * (nat_of_bytes (take 4 (drop 4 b)) +
      W * (nat_of_bytes (take 4 (drop 8 b)) + W * (nat_of_bytes (take 4 (drop 12 b)) + W * nat_of_bytes (drop 16 b))))"
    using assms nat_of_bytes_4 [of b] nat_of_bytes_4 [of "drop 4 b"] nat_of_bytes_4 [of "drop 8 b"]
      nat_of_bytes_4 [of "drop 12 b"] by simp
  moreover have "unat (ucast (b ! 16) :: u32) = unat (b ! 16)"
    using unsigned_less [of "b ! 16", where 'a = nat] by (simp add: unsigned_ucast_eq take_bit_nat_eq_self)
  ultimately show ?thesis
    using assms by (simp add: poly_load_def unat_LOAD32LE d algebra_simps)
qed

lemma poly_block_val:
  assumes "length buffer = 17" and "n \<le> 16"
  shows "limbs_val (poly_load (poly_pad buffer n)) = nat_of_bytes (take n buffer @ [1])"
    and "unat (snd (snd (snd (snd (poly_load (poly_pad buffer n)))))) \<le> 1"
proof -
  have l: "length (poly_pad buffer n) = 17" using assms by (simp add: poly_pad_eq)
  show "limbs_val (poly_load (poly_pad buffer n)) = nat_of_bytes (take n buffer @ [1])"
    unfolding bytes17_limbs [OF l] using assms by (simp add: poly_pad_eq nat_of_bytes_append)
  have "poly_pad buffer n ! 16 = 0 \<or> poly_pad buffer n ! 16 = 1"
    using assms by (cases "n = 16") (simp_all add: poly_pad_eq nth_append nth_Cons')
  then show "unat (snd (snd (snd (snd (poly_load (poly_pad buffer n)))))) \<le> 1"
    by (auto simp: poly_load_def)
qed

section \<open>Clamping\<close>

lemma and_split: "(x :: nat) AND y = ((x mod W) AND (y mod W)) + W * ((x div W) AND (y div W))"
proof -
  have "x AND y = take_bit 32 (x AND y) + push_bit 32 (drop_bit 32 (x AND y))"
    using bits_ident [of 32 "x AND y"] by (simp only: add.commute)
  also have "take_bit 32 (x AND y) = take_bit 32 x AND take_bit 32 y" by (rule take_bit_and)
  also have "drop_bit 32 (x AND y) = drop_bit 32 x AND drop_bit 32 y" by (rule drop_bit_and)
  finally show ?thesis by (simp only: take_bit_eq_mod drop_bit_eq_div push_bit_eq_mult) (simp add: mult.commute)
qed

lemma and_limbs:
  assumes "a < W" and "c < W"
  shows "(a + W * b) AND (c + W * d) = (a AND c) + W * (b AND d)"
proof -
  have "(a + W * b) mod W = a" "(a + W * b) div W = b" "(c + W * d) mod W = c" "(c + W * d) div W = d"
    using assms by simp_all
  then show ?thesis using and_split [of "a + W * b" "c + W * d"] by (simp only:)
qed

definition key_r :: "bytes \<Rightarrow> limbs4" where
  "key_r key = (LOAD32LE key 0 AND 0x0FFFFFFF, LOAD32LE key 4 AND 0x0FFFFFFC,
     LOAD32LE key 8 AND 0x0FFFFFFC, LOAD32LE key 12 AND 0x0FFFFFFC)"

lemma key_r_small: "r_small (key_r key)"
proof -
  have "unat (x AND 0x0FFFFFFF :: u32) < 268435456" "unat (x AND 0x0FFFFFFC :: u32) < 268435456" for x
    using word_and_le1 [of x "0x0FFFFFFF"] word_and_le1 [of x "0x0FFFFFFC"] word_and_le2 [of "0x0FFFFFFF" x]
      word_and_le2 [of "0x0FFFFFFC" x] by (simp_all add: word_le_nat_alt and.commute)
  then show ?thesis by (simp add: key_r_def)
qed

lemma key_r_val:
  assumes "16 \<le> length key"
  shows "r_val (key_r key) = clamp_r key"
proof -
  define k0 where "k0 = unat (LOAD32LE key 0)" define k1 where "k1 = unat (LOAD32LE key 4)"
  define k2 where "k2 = unat (LOAD32LE key 8)" define k3 where "k3 = unat (LOAD32LE key 12)"
  note kd = k0_def k1_def k2_def k3_def
  have k: "k0 < W" "k1 < W" "k2 < W" "k3 < W" unfolding kd by (rule unat_u32)+
  have "nat_of_bytes (take 16 key) = k0 + W * (k1 + W * (k2 + W * k3))"
    using assms bytes16_limbs [of "take 16 key"] by (simp add: kd unat_LOAD32LE drop_take)
  moreover have "(0x0ffffffc0ffffffc0ffffffc0fffffff :: nat) =
      0x0fffffff + W * (0x0ffffffc + W * (0x0ffffffc + W * 0x0ffffffc))" by simp
  ultimately have "clamp_r key = (k0 AND 0x0FFFFFFF) + W * ((k1 AND 0x0FFFFFFC) + W * ((k2 AND 0x0FFFFFFC) + W * (k3 AND 0x0FFFFFFC)))"
    using k and_limbs [of k0 "0x0fffffff"] and_limbs [of k1 "0x0ffffffc"] and_limbs [of k2 "0x0ffffffc"]
    by (simp only: clamp_r_def) 
  moreover have c: "unat (0x0FFFFFFF :: u32) = 0x0FFFFFFF" "unat (0x0FFFFFFC :: u32) = 0x0FFFFFFC" by simp_all
  have "r_val (key_r key) = (k0 AND 0x0FFFFFFF) + W * (k1 AND 0x0FFFFFFC) + W2 * (k2 AND 0x0FFFFFFC) + W3 * (k3 AND 0x0FFFFFFC)"
    by (simp only: key_r_def r_val.simps unsigned_and_eq c kd)
  ultimately show ?thesis by (simp add: algebra_simps)
qed

section \<open>Completion\<close>

lemma unat_mask_select:
  fixes m :: u64 and b :: u32
  shows "unat ((m AND ucast (NOT 0 :: u32)) OR ucast (b AND 0)) = unat m mod W"
    and "unat ((m AND ucast (NOT 0xFFFFFFFF :: u32)) OR ucast (b AND 0xFFFFFFFF)) = unat b"
proof -
  have "(ucast (NOT 0 :: u32) :: u64) = mask 32"
    by (rule bit_word_eqI) (auto simp: bit_simps)
  then show "unat ((m AND ucast (NOT 0 :: u32)) OR ucast (b AND 0)) = unat m mod W"
    using unat_and_mask [of m 32] by simp
  have m: "(0xFFFFFFFF :: u32) = - 1" by (simp add: eq_neg_iff_add_eq_0)
  show "unat ((m AND ucast (NOT 0xFFFFFFFF :: u32)) OR ucast (b AND 0xFFFFFFFF)) = unat b"
    unfolding m by (simp add: unat_up)
qed

lemma poly_select_val:
  assumes "reduced m"
  obtains n0 n1 n2 n3 n4 where "poly_select m = (n0, n1, n2, n3, n4)"
    and "unat n0 < W" and "unat n1 < W" and "unat n2 < W" and "unat n3 < W"
    and "unat n0 + W * unat n1 + W2 * unat n2 + W3 * unat n3 = val5 m mod poly_p mod W4"
    and "unat n4 \<le> 4"
proof -
  obtain m0 m1 m2 m3 m4 where m: "m = (m0, m1, m2, m3, m4)" by (cases m)
  have lt: "unat m0 < W" "unat m1 < W" "unat m2 < W" "unat m3 < W" "unat m4 < 4" using assms by (simp_all add: m)
  define s0 where "s0 = unat m0 + 5"
  define c1 where "c1 = unat m1 + s0 div W" define c2 where "c2 = unat m2 + c1 div W"
  define c3 where "c3 = unat m3 + c2 div W" define c4 where "c4 = unat m4 + c3 div W"
  have db: "x div W < 2" if "x < W + 8" for x :: nat using that by (intro less_mult_imp_div_less) simp
  have d0: "s0 div W < 2" using lt by (intro db) (simp add: s0_def)
  have d1: "c1 div W < 2" using lt d0 by (intro db) (simp add: c1_def)
  have d2: "c2 div W < 2" using lt d1 by (intro db) (simp add: c2_def)
  have d3: "c3 div W < 2" using lt d2 by (intro db) (simp add: c3_def)
  define k0 where "k0 = m0 + 5" define k1 where "k1 = m1 + drop_bit 32 k0"
  define k2 where "k2 = m2 + drop_bit 32 k1" define k3 where "k3 = m3 + drop_bit 32 k2"
  define k4 where "k4 = m4 + drop_bit 32 k3"
  have u0: "unat k0 = s0" using lt unfolding k0_def s0_def by (simp add: add64)
  have u1: "unat k1 = c1" using lt d0 unfolding k1_def c1_def by (simp add: add64 unat_hi32 u0)
  have u2: "unat k2 = c2" using lt d1 unfolding k2_def c2_def by (simp add: add64 unat_hi32 u1)
  have u3: "unat k3 = c3" using lt d2 unfolding k3_def c3_def by (simp add: add64 unat_hi32 u2)
  have u4: "unat k4 = c4" using lt d3 unfolding k4_def c4_def by (simp add: add64 unat_hi32 u3)
  have c: "s0 mod W + W * (c1 mod W) + W2 * (c2 mod W) + W3 * (c3 mod W) + W4 * c4 = val5 m + 5"
    using carry4 [OF c1_def c2_def c3_def c4_def] unfolding s0_def by (simp add: m)
  have c4: "c4 \<le> 4" using lt d3 by (simp add: c4_def)
  define mask where "mask = (ucast (drop_bit 2 (k4 AND 0x04) - 1) :: u32)"
  define sel where "sel = (\<lambda>(k :: u64) (b :: u32). (k AND ucast (NOT mask)) OR ucast (b AND mask) :: u64)"
  have p: "poly_select m = (sel k0 (ucast (m0 AND 0xFFFFFFFF)), sel k1 (ucast (m1 AND 0xFFFFFFFF)),
      sel k2 (ucast (m2 AND 0xFFFFFFFF)), sel k3 (ucast (m3 AND 0xFFFFFFFF)), k4)"
    unfolding m poly_select_def sel_def mask_def k0_def k1_def k2_def k3_def k4_def by (simp only: prod.case Let_def)
  have vlt: "val5 m < P130" using lt unfolding m val5.simps by linarith
  show ?thesis
  proof (cases "c4 = 4")
    case True
    then have "k4 = 4" using u4 by (simp flip: unat_inject)
    then have mask: "mask = 0" by (simp add: mask_def)
    have n: "unat (sel k0 b) = s0 mod W" "unat (sel k1 b) = c1 mod W" "unat (sel k2 b) = c2 mod W" "unat (sel k3 b) = c3 mod W" for b
      unfolding sel_def mask using unat_mask_select(1) [of _ b] u0 u1 u2 u3 by (simp_all only:)
    have v: "val5 m + 5 = (s0 mod W + W * (c1 mod W) + W2 * (c2 mod W) + W3 * (c3 mod W)) + P130"
      using c True by simp
    have "val5 m = (s0 mod W + W * (c1 mod W) + W2 * (c2 mod W) + W3 * (c3 mod W)) + poly_p"
      using v by (simp add: poly_p_def)
    then have "val5 m mod poly_p = (s0 mod W + W * (c1 mod W) + W2 * (c2 mod W) + W3 * (c3 mod W)) mod poly_p" by simp
    also have "\<dots> = s0 mod W + W * (c1 mod W) + W2 * (c2 mod W) + W3 * (c3 mod W)"
      using v vlt by (intro mod_less) (simp add: poly_p_def)
    finally have e: "val5 m mod poly_p = s0 mod W + W * (c1 mod W) + W2 * (c2 mod W) + W3 * (c3 mod W)" .
    have r: "s0 mod W < W" "c1 mod W < W" "c2 mod W < W" "c3 mod W < W" by simp_all
    have "s0 mod W + W * (c1 mod W) + W2 * (c2 mod W) + W3 * (c3 mod W) < W4" using r by linarith
    then have e2: "s0 mod W + W * (c1 mod W) + W2 * (c2 mod W) + W3 * (c3 mod W) = val5 m mod poly_p mod W4"
      unfolding e by simp
    show ?thesis by (rule that [OF p]) (use r e2 c4 u4 in \<open>simp_all only: n\<close>)
  next
    case False
    then have c43: "c4 < 4" using c4 by simp
    have "unat (k4 AND 0x04) = 0"
    proof -
      have "k4 AND 0x04 = 0"
      proof (rule bit_word_eqI)
        fix i assume "i < LENGTH(64)"
        have "\<not> bit k4 2" using bit_below [of k4 2 2] u4 c43 by auto
        moreover have "bit (4 :: u64) i \<longleftrightarrow> i = 2"
          using bit_push_bit_iff [of 2 "1 :: u64" i] by (auto simp: bit_1_iff)
        ultimately show "bit (k4 AND 0x04) i = bit (0 :: u64) i" by (auto simp: bit_and_iff)
      qed
      then show ?thesis by simp
    qed
    then have "k4 AND 0x04 = 0" by (simp add: unat_eq_0)
    moreover have "(ucast (- 1 :: u64) :: u32) = 0xFFFFFFFF"
    proof -
      have "(0xFFFFFFFF :: u32) = - 1" by (simp add: eq_neg_iff_add_eq_0)
      moreover have "(ucast (- 1 :: u64) :: u32) = - 1" by (rule bit_word_eqI) (auto simp: bit_simps)
      ultimately show ?thesis by simp
    qed
    ultimately have mask: "mask = 0xFFFFFFFF" by (simp add: mask_def)
    have n: "unat (sel k b) = unat b" for k b unfolding sel_def mask by (rule unat_mask_select(2))
    have r: "s0 mod W < W" "c1 mod W < W" "c2 mod W < W" "c3 mod W < W" by simp_all
    have "val5 m + 5 < 1361129467683753853853498429727072845824" using c c43 r by linarith
    then have e: "val5 m mod poly_p = val5 m" by (simp add: poly_p_def)
    have l: "unat m0 + W * unat m1 + W2 * unat m2 + W3 * unat m3 < W4" using lt by linarith
    have "val5 m mod W4 = (unat m0 + W * unat m1 + W2 * unat m2 + W3 * unat m3 + W4 * unat m4) mod W4" by (simp add: m)
    also have "\<dots> = unat m0 + W * unat m1 + W2 * unat m2 + W3 * unat m3" using l by (simp only: mod_mult_self2 mod_less)
    finally have e2: "unat m0 + W * unat m1 + W2 * unat m2 + W3 * unat m3 = val5 m mod poly_p mod W4" unfolding e by simp
    have u: "unat (ucast (x AND 0xFFFFFFFF :: u64) :: u32) = unat x" if "unat x < W" for x using that by (simp add: unat_lo)
    show ?thesis by (rule that [OF p]) (use lt e2 c4 u4 in \<open>simp_all only: n u\<close>)
  qed
qed

lemma poly_final_val:
  assumes "unat n0 < W" and "unat n1 < W" and "unat n2 < W" and "unat n3 < W"
  shows "r_val (poly_final (n0, n1, n2, n3, n4) s) = (unat n0 + W * unat n1 + W2 * unat n2 + W3 * unat n3 + r_val s) mod W4"
proof -
  obtain a0 a1 a2 a3 where s: "s = (a0, a1, a2, a3)" by (cases s)
  note u = unat_u32 [of a0] unat_u32 [of a1] unat_u32 [of a2] unat_u32 [of a3]
  define s0 where "s0 = unat n0 + unat a0"
  define c1 where "c1 = unat n1 + unat a1 + s0 div W" define c2 where "c2 = unat n2 + unat a2 + c1 div W"
  define c3 where "c3 = unat n3 + unat a3 + c2 div W" define c4 where "c4 = 0 + c3 div W"
  have db: "x div W < 3" if "x < 8589934592 + 8" for x :: nat using that by (intro less_mult_imp_div_less) simp
  have d0: "s0 div W < 3" using assms u by (intro db) (simp add: s0_def)
  have d1: "c1 div W < 3" using assms u d0 by (intro db) (simp add: c1_def)
  have d2: "c2 div W < 3" using assms u d1 by (intro db) (simp add: c2_def)
  define k0 where "k0 = n0 + ucast a0" define k1 where "k1 = n1 + ucast a1 + drop_bit 32 k0"
  define k2 where "k2 = n2 + ucast a2 + drop_bit 32 k1" define k3 where "k3 = n3 + ucast a3 + drop_bit 32 k2"
  have u0: "unat k0 = s0" using assms u unfolding k0_def s0_def by (simp add: add64 unat_up)
  have u1: "unat k1 = c1" using assms u d0 unfolding k1_def c1_def by (simp add: add64 unat_up unat_hi32 u0)
  have u2: "unat k2 = c2" using assms u d1 unfolding k2_def c2_def by (simp add: add64 unat_up unat_hi32 u1)
  have u3: "unat k3 = c3" using assms u d2 unfolding k3_def c3_def by (simp add: add64 unat_up unat_hi32 u2)
  have "poly_final (n0, n1, n2, n3, n4) s = (ucast (k0 AND 0xFFFFFFFF), ucast (k1 AND 0xFFFFFFFF),
      ucast (k2 AND 0xFFFFFFFF), ucast (k3 AND 0xFFFFFFFF))"
    unfolding s poly_final_def k0_def k1_def k2_def k3_def by (simp only: prod.case Let_def)
  then have v: "r_val (poly_final (n0, n1, n2, n3, n4) s) = s0 mod W + W * (c1 mod W) + W2 * (c2 mod W) + W3 * (c3 mod W)"
    by (simp only: r_val.simps unat_lo u0 u1 u2 u3)
  have c: "s0 mod W + W * (c1 mod W) + W2 * (c2 mod W) + W3 * (c3 mod W) + W4 * c4 =
      unat n0 + W * unat n1 + W2 * unat n2 + W3 * unat n3 + r_val s"
    using carry4 [OF c1_def c2_def c3_def c4_def] unfolding s0_def by (simp add: s algebra_simps)
  have "s0 mod W < W" "c1 mod W < W" "c2 mod W < W" "c3 mod W < W" by simp_all
  then have "s0 mod W + W * (c1 mod W) + W2 * (c2 mod W) + W3 * (c3 mod W) < W4" by linarith
  then show ?thesis unfolding v c [symmetric] by (simp only: mod_mult_self2 mod_less)
qed

section \<open>The update loop is a block feeder\<close>

definition poly1305_ok :: "poly1305 \<Rightarrow> bool" where
  "poly1305_ok st \<longleftrightarrow> length (m_buffer st) = 17 \<and> unat (m_size st) < 16"

definition limbs4_of :: "u32 list \<Rightarrow> limbs4" where
  "limbs4_of r = (r ! 0, r ! 1, r ! 2, r ! 3)"

text \<open>The core: \<open>r\<close>, \<open>s\<close> and the accumulator.\<close>

definition poly1305_core :: "poly1305 \<Rightarrow> limbs4 \<times> limbs4 \<times> acc5" where
  "poly1305_core st = (limbs4_of (m_r st), limbs4_of (m_s st), acc_of (m_a st))"

definition poly1305_pending :: "poly1305 \<Rightarrow> bytes" where
  "poly1305_pending st = take (unat (m_size st)) (m_buffer st)"

definition poly_absorb :: "limbs4 \<times> limbs4 \<times> acc5 \<Rightarrow> bytes \<Rightarrow> limbs4 \<times> limbs4 \<times> acc5" where
  "poly_absorb c b = (case c of (r, s, a) \<Rightarrow> (r, s, poly_step r a (poly_load (b @ 1 # replicate (16 - length b) 0))))"

lemma length_poly1305_pending: "poly1305_ok st \<Longrightarrow> length (poly1305_pending st) = unat (m_size st)"
  by (simp add: poly1305_ok_def poly1305_pending_def)

lemma poly1305_transform_core:
  assumes "length (m_buffer st) = 17" and "unat (m_size st) \<le> 16"
  shows "poly1305_core (poly1305_transform st) = poly_absorb (poly1305_core st) (take (unat (m_size st)) (m_buffer st))"
    and "length (m_buffer (poly1305_transform st)) = 17"
  using assms
  by (simp_all add: poly1305_core_def poly1305_transform_def poly_absorb_def poly_step_def Let_def limbs4_of_def
    poly_pad_eq acc_of_def split: prod.split)

lemma poly1305_body_absorb:
  assumes ok: "poly1305_ok st" and d: "length (poly1305_pending st) + length d \<le> 16"
  shows "poly1305_ok (poly1305_update_body st d) \<and>
    (poly1305_core (poly1305_update_body st d), poly1305_pending (poly1305_update_body st d)) =
      absorb 16 poly_absorb (poly1305_core st) (poly1305_pending st @ d)"
proof -
  let ?bs = "memcpy_at (m_buffer st) (unat (m_size st)) d"
  have le: "unat (m_size st) + length d \<le> 16" using d length_poly1305_pending [OF ok] by simp
  have l: "length ?bs = 17" using ok le by (simp add: poly1305_ok_def)
  have sz: "unat (m_size st + of_nat (length d)) = unat (m_size st) + length d"
    using le by (subst unat_add_small) (simp_all add: unat_of_nat_eq)
  have p: "take (unat (m_size st) + length d) ?bs = poly1305_pending st @ d"
    using ok by (simp add: poly1305_pending_def poly1305_ok_def take_memcpy_at)
  let ?st = "st\<lparr>m_buffer := ?bs, m_size := m_size st + of_nat (length d)\<rparr>"
  have core: "poly1305_core ?st = poly1305_core st" by (simp add: poly1305_core_def)
  show ?thesis
  proof (cases "unat (m_size st) + length d = 16")
    case True
    then have full: "m_size st + of_nat (length d) = 16" using sz by (simp flip: unat_inject)
    then have u: "poly1305_update_body st d = (poly1305_transform ?st)\<lparr>m_size := 0\<rparr>"
      by (simp add: poly1305_update_body_def)
    note t = poly1305_transform_core [of ?st, simplified, OF l]
    have "poly1305_core (poly1305_transform ?st) = poly_absorb (poly1305_core st) (poly1305_pending st @ d)"
      using t(1) full p True core by simp
    moreover have "absorb 16 poly_absorb (poly1305_core st) (poly1305_pending st @ d) =
        (poly_absorb (poly1305_core st) (poly1305_pending st @ d), [])"
      using absorb_block [of 16 "poly1305_pending st @ d" poly_absorb "poly1305_core st" "[]"] True
        length_poly1305_pending [OF ok] by (simp add: absorb_short)
    ultimately show ?thesis
      using t(2) full unfolding u by (simp add: poly1305_ok_def poly1305_core_def poly1305_pending_def)
  next
    case False
    then have lt: "unat (m_size st) + length d < 16" using le by simp
    then have "m_size st + of_nat (length d) \<noteq> 16" using sz by (auto simp flip: unat_inject)
    then have u: "poly1305_update_body st d = ?st" by (simp add: poly1305_update_body_def)
    have "absorb 16 poly_absorb (poly1305_core st) (poly1305_pending st @ d) = (poly1305_core st, poly1305_pending st @ d)"
      using lt length_poly1305_pending [OF ok] by (simp add: absorb_short)
    then show ?thesis
      using l p lt sz core unfolding u by (simp add: poly1305_ok_def poly1305_pending_def)
  qed
qed

lemma poly1305_update_loop:
  assumes "poly1305_ok st" and "d \<noteq> []" and "n = min (length d) (16 - length (poly1305_pending st))"
  shows "poly1305_update st d = poly1305_update (poly1305_update_body st (take n d)) (drop n d)"
proof -
  have "unat (16 - m_size st) = 16 - unat (m_size st)"
    using assms(1) by (subst unat_sub) (simp_all add: poly1305_ok_def word_le_nat_alt)
  then show ?thesis
    using assms length_poly1305_pending [OF assms(1)] by (subst poly1305_update.simps) (simp add: Let_def)
qed

interpretation poly1305_feeder:
  block_feeder 16 poly1305_ok poly1305_core poly1305_pending poly_absorb poly1305_update_body poly1305_update
proof unfold_locales
  show "poly1305_ok st \<Longrightarrow> length (poly1305_pending st) < 16" for st
    by (simp add: length_poly1305_pending) (simp add: poly1305_ok_def)
  show "poly1305_update st [] = st" for st by (simp add: poly1305_update.simps)
qed (use poly1305_body_absorb poly1305_update_loop in simp_all)

section \<open>The authenticator\<close>

lemma poly_blocks_val:
  assumes "r_small r" and "reduced a" and "\<And>b. b \<in> set bs \<Longrightarrow> length b \<le> 16"
  shows "\<exists>a'. foldl poly_absorb (r, s, a) bs = (r, s, a') \<and> reduced a' \<and>
    val5 a' mod poly_p = foldl (\<lambda>a b. ((a + nat_of_bytes (b @ [1])) * r_val r) mod poly_p) (val5 a mod poly_p) bs"
  using assms(2,3)
proof (induction bs arbitrary: a)
  case (Cons b bs)
  define a' where "a' = poly_step r a (poly_load (b @ 1 # replicate (16 - length b) 0))"
  have b: "length b \<le> 16" using Cons.prems by simp
  have e: "b @ 1 # replicate (16 - length b) 0 = poly_pad (b @ replicate (17 - length b) 0) (length b)"
    using b by (simp add: poly_pad_eq)
  have blk: "limbs_val (poly_load (b @ 1 # replicate (16 - length b) 0)) = nat_of_bytes (b @ [1])"
    "unat (snd (snd (snd (snd (poly_load (b @ 1 # replicate (16 - length b) 0)))))) \<le> 1"
    unfolding e using poly_block_val [of "b @ replicate (17 - length b) 0" "length b"] b by simp_all
  note st = poly_step_val [OF Cons.prems(1) blk(2) assms(1), folded a'_def]
  have v: "val5 a' mod poly_p = ((val5 a mod poly_p + nat_of_bytes (b @ [1])) * r_val r) mod poly_p"
    unfolding st(2) blk(1) by (metis mod_add_left_eq mod_mult_left_eq)
  have "poly_absorb (r, s, a) b = (r, s, a')" by (simp add: poly_absorb_def a'_def)
  then show ?case using Cons.IH [OF st(1)] Cons.prems(2) v by simp
qed simp

lemma length_chunks_le: "0 < n \<Longrightarrow> b \<in> set (chunks n xs) \<Longrightarrow> length b \<le> n"
proof (induction n xs rule: chunks.induct)
  case (1 n xs)
  then show ?case by (cases "xs = []") (auto simp: chunks_step)
qed

lemma set_key_core:
  assumes "length (m_buffer st) = 17"
  shows "poly1305_ok (poly1305_set_key st key)"
    and "poly1305_core (poly1305_set_key st key) =
      (key_r key, (LOAD32LE key 16, LOAD32LE key 20, LOAD32LE key 24, LOAD32LE key 28), (0, 0, 0, 0, 0))"
    and "poly1305_pending (poly1305_set_key st key) = []"
  using assms by (simp_all add: poly1305_ok_def poly1305_core_def poly1305_pending_def poly1305_set_key_def
    limbs4_of_def key_r_def acc_of_def)

lemma key_s_val:
  assumes "32 \<le> length key"
  shows "r_val (LOAD32LE key 16, LOAD32LE key 20, LOAD32LE key 24, LOAD32LE key 28) = nat_of_bytes (take 16 (drop 16 key))"
  using assms bytes16_limbs [of "take 16 (drop 16 key)"] by (simp add: unat_LOAD32LE drop_take)

lemma bytes_of_digest:
  "nat_of_bytes (bytes_of_words [b0, b1, b2, b3]) = r_val (b0, b1, b2, b3)"
proof -
  have "nat_of_bytes (STORE32LE b) = unat b" for b
    using unat_LOAD32LE [of 0 "STORE32LE b"] by (simp add: LOAD32LE_STORE32LE)
  then show ?thesis by (simp add: bytes_of_words_def nat_of_bytes_append)
qed

lemma poly1305_correct:
  assumes "length (m_buffer st) = 17" and "32 \<le> length key"
    and st'_def: "st' = poly1305_complete (foldl poly1305_update (poly1305_set_key st key) pieces)"
  shows "nat_of_bytes (poly1305_get st') = rfc_poly1305 key (concat pieces) \<and> length (poly1305_get st') = 16 \<and>
    length (m_buffer st') = 17"
proof -
  let ?st = "foldl poly1305_update (poly1305_set_key st key) pieces" and ?msg = "concat pieces"
  let ?s = "(LOAD32LE key 16, LOAD32LE key 20, LOAD32LE key 24, LOAD32LE key 28)"
  let ?st1 = "if m_size ?st \<noteq> 0 then poly1305_transform ?st else ?st"
  have v: "poly1305_ok ?st \<and> (poly1305_core ?st, poly1305_pending ?st) =
      absorb 16 poly_absorb (key_r key, ?s, (0, 0, 0, 0, 0)) ?msg"
    using poly1305_feeder.updates_absorb [OF set_key_core(1) [OF assms(1)], of key pieces]
    by (simp add: set_key_core [OF assms(1)])
  then have ok: "poly1305_ok ?st" ..
  have z: "m_size ?st = 0 \<longleftrightarrow> poly1305_pending ?st = []"
    using length_poly1305_pending [OF ok] by (auto simp: unat_eq_0 simp flip: length_0_conv)
  have t: "poly1305_core ?st1 = (if poly1305_pending ?st = [] then poly1305_core ?st
      else poly_absorb (poly1305_core ?st) (poly1305_pending ?st))"
    using poly1305_transform_core(1) [of ?st] ok z by (simp add: poly1305_ok_def poly1305_pending_def)
  also have "\<dots> = foldl poly_absorb (key_r key, ?s, (0, 0, 0, 0, 0)) (chunks 16 ?msg)"
    using conjunct2 [OF v, symmetric] by (simp add: foldl_chunks_absorb)
  finally have core: "poly1305_core ?st1 = foldl poly_absorb (key_r key, ?s, (0, 0, 0, 0, 0)) (chunks 16 ?msg)" .
  obtain a where a: "poly1305_core ?st1 = (key_r key, ?s, a)" "reduced a"
      "val5 a mod poly_p = foldl (\<lambda>a b. ((a + nat_of_bytes (b @ [1])) * clamp_r key) mod poly_p) 0 (chunks 16 ?msg)"
  proof -
    have "reduced (0, 0, 0, 0, 0)" and z0: "val5 (0, 0, 0, 0, 0) mod poly_p = 0" by simp_all
    moreover have "length b \<le> 16" if "b \<in> set (chunks 16 ?msg)" for b using length_chunks_le [OF _ that] by simp
    moreover have "r_val (key_r key) = clamp_r key" using assms(2) by (intro key_r_val) simp
    ultimately obtain a where "foldl poly_absorb (key_r key, ?s, (0, 0, 0, 0, 0)) (chunks 16 ?msg) = (key_r key, ?s, a)"
      and "reduced a" and "val5 a mod poly_p =
        foldl (\<lambda>a b. ((a + nat_of_bytes (b @ [1])) * clamp_r key) mod poly_p) 0 (chunks 16 ?msg)"
      using poly_blocks_val [OF key_r_small [of key], of "(0, 0, 0, 0, 0)" "chunks 16 ?msg" ?s] unfolding z0 by metis
    then show ?thesis using that core by simp
  qed
  then have c: "acc_of (m_a ?st1) = a" "limbs4_of (m_s ?st1) = ?s" by (simp_all add: poly1305_core_def)
  obtain n0 n1 n2 n3 n4 where n: "poly_select a = (n0, n1, n2, n3, n4)"
    "unat n0 < W" "unat n1 < W" "unat n2 < W" "unat n3 < W"
    "unat n0 + W * unat n1 + W2 * unat n2 + W3 * unat n3 = val5 a mod poly_p mod W4" by (rule poly_select_val [OF a(2)])
  obtain b0 b1 b2 b3 where b: "poly_final (n0, n1, n2, n3, n4) ?s = (b0, b1, b2, b3)"
    by (cases "poly_final (n0, n1, n2, n3, n4) ?s")
  have st': "m_digest st' = [b0, b1, b2, b3]" "m_buffer st' = m_buffer ?st1"
    using c n(1) b by (simp_all add: st'_def poly1305_complete_def Let_def limbs4_of_def LOAD32LE_STORE32LE)
  have "r_val (b0, b1, b2, b3) = (val5 a mod poly_p mod W4 + r_val ?s) mod W4"
    using poly_final_val [OF n(2-5), of n4 ?s] b n(6) by simp
  also have "\<dots> = (val5 a mod poly_p + nat_of_bytes (take 16 (drop 16 key))) mod W4"
    unfolding key_s_val [OF assms(2)] by (simp only: mod_add_left_eq)
  finally have "r_val (b0, b1, b2, b3) = rfc_poly1305 key ?msg" unfolding rfc_poly1305_def a(3) by simp
  moreover have "length (m_buffer ?st1) = 17"
    using ok poly1305_transform_core(2) [of ?st] by (simp add: poly1305_ok_def)
  ultimately show ?thesis
    unfolding poly1305_get_def st' using bytes_of_digest [of b0 b1 b2 b3] by simp
qed

section \<open>Properties\<close>

text \<open>One block of \<open>transform\<close>: from a reduced accumulator (five limbs below 2^130) and a clamped
  \<open>r\<close>, no 64-bit operation overflows, the result is reduced again, and it is congruent to
  (accumulator + block with its one bit) * r modulo 2^130 - 5.\<close>

theorem poly1305_transform_correct:
  assumes "reduced (acc_of (m_a st))" and "r_small (limbs4_of (m_r st))"
    and "length (m_buffer st) = 17" and "unat (m_size st) \<le> 16"
  shows "reduced (acc_of (m_a (poly1305_transform st))) \<and>
    val5 (acc_of (m_a (poly1305_transform st))) mod poly_p =
      ((val5 (acc_of (m_a st)) + nat_of_bytes (take (unat (m_size st)) (m_buffer st) @ [1])) *
        r_val (limbs4_of (m_r st))) mod poly_p"
proof -
  have "acc_of (m_a (poly1305_transform st)) =
      poly_step (limbs4_of (m_r st)) (acc_of (m_a st)) (poly_load (poly_pad (m_buffer st) (unat (m_size st))))"
    by (simp add: poly1305_transform_def poly_step_def Let_def limbs4_of_def acc_of_def split: prod.split)
  then show ?thesis
    using poly_step_val [OF assms(1) poly_block_val(2) [OF assms(3,4)] assms(2)] poly_block_val(1) [OF assms(3,4)]
    by simp
qed

text \<open>C3: For a key of 32 bytes and a message cut into any number of updates, the digest read as a
  little-endian number is the Poly1305 of RFC 8439: the polynomial in the clamped \<open>r\<close> modulo
  2^130 - 5, plus \<open>s\<close>, modulo 2^128; it is 16 bytes long.\<close>

theorem poly1305_is_rfc:
  assumes "length (m_buffer st) = 17" and "length key = 32"
  shows "nat_of_bytes (poly1305_get (poly1305_complete (foldl poly1305_update (poly1305_set_key st key) pieces))) =
      rfc_poly1305 key (concat pieces) \<and>
    length (poly1305_get (poly1305_complete (foldl poly1305_update (poly1305_set_key st key) pieces))) = 16"
  using poly1305_correct [OF assms(1) _ refl, of key pieces] assms(2) by simp

text \<open>\<open>compare_with\<close> is inverted: for the very digest of the object it returns false, and for every
  other 16 bytes it returns true (it returns the result of \<open>memcmp\<close> without comparing it with 0, unlike
  \<open>sha1\<close> and \<open>sha2_256\<close>).\<close>

theorem poly1305_compare_with_inverted:
  assumes "length (m_digest st) = 4" and "length d = 16"
  shows "poly1305_compare_with st d \<longleftrightarrow> d \<noteq> poly1305_get st"
  using assms by (auto simp: poly1305_compare_with_def poly1305_get_def)

section \<open>Witnesses\<close>

definition example_state :: poly1305 where
  "example_state = \<lparr>m_r = [1, 4, 0, 8], m_s = [0, 0, 0, 0], m_a = [1, 2, 3, 4, 3, 0, 0, 0],
     m_buffer = replicate 17 9, m_digest = [1, 2, 3, 4], m_size = 3\<rparr>"

theorem poly1305_transform_correct_witness:
  "reduced (acc_of (m_a (poly1305_transform example_state)))"
  using poly1305_transform_correct [of example_state]
  by (simp add: example_state_def acc_of_def limbs4_of_def)

theorem poly1305_is_rfc_witness:
  "nat_of_bytes (poly1305_get (poly1305_complete (poly1305_update (poly1305_update
     (poly1305_set_key example_state (replicate 32 0x85)) [1, 2]) [3]))) = rfc_poly1305 (replicate 32 0x85) [1, 2, 3]"
  using poly1305_is_rfc [of example_state "replicate 32 0x85" "[[1, 2], [3]]"] by (simp add: example_state_def)

theorem poly1305_compare_with_inverted_witness:
  "\<not> poly1305_compare_with example_state (poly1305_get example_state)"
  using poly1305_compare_with_inverted [of example_state "poly1305_get example_state"]
  by (simp add: example_state_def poly1305_get_def)

end
