(* ===== verification/Ez_Aead.thy ===== *)
theory Ez_Aead
  imports Ez_Chacha20 Ez_Poly1305
begin

text \<open>
  \<open>ez::chacha20_poly1305\<close> (\<open>include/ez/chacha20_poly1305.hpp\<close>, \<open>source/chacha20_poly1305.cpp\<close>): the
  combination of the cipher and the authenticator, compared with the AEAD construction of RFC 8439, 2.8.
\<close>

section \<open>State and setters\<close>

record chacha20_poly1305 =
  m_cipher :: chacha20
  m_mac :: poly1305
  m_aad :: bytes
  m_tag :: bytes

definition aead_new :: "chacha20 \<Rightarrow> poly1305 \<Rightarrow> chacha20_poly1305 res" where
  "aead_new cipher mac =
     bind_res (set_rounds cipher 20)
       (\<lambda>cipher. Inr \<lparr>m_cipher = cipher, m_mac = mac, m_aad = [], m_tag = []\<rparr>)"

definition aead_encrypted_size :: "nat \<Rightarrow> nat" where
  "aead_encrypted_size in_size = in_size"

definition aead_decrypted_size :: "nat \<Rightarrow> nat" where
  "aead_decrypted_size in_size = in_size"

definition aead_set_key :: "chacha20_poly1305 \<Rightarrow> bytes \<Rightarrow> chacha20_poly1305 res" where
  "aead_set_key st key = bind_res (chacha20_set_key (m_cipher st) key) (\<lambda>c. Inr (st\<lparr>m_cipher := c\<rparr>))"

definition aead_set_iv :: "chacha20_poly1305 \<Rightarrow> bytes \<Rightarrow> chacha20_poly1305 res" where
  "aead_set_iv st iv = bind_res (chacha20_set_iv (m_cipher st) iv) (\<lambda>c. Inr (st\<lparr>m_cipher := c\<rparr>))"

definition set_aad :: "chacha20_poly1305 \<Rightarrow> bytes \<Rightarrow> chacha20_poly1305" where
  "set_aad st aad = st\<lparr>m_aad := aad\<rparr>"

definition set_tag :: "chacha20_poly1305 \<Rightarrow> bytes \<Rightarrow> chacha20_poly1305" where
  "set_tag st tag = st\<lparr>m_tag := tag\<rparr>"

definition get_tag :: "chacha20_poly1305 \<Rightarrow> bytes" where
  "get_tag st = poly1305_get (m_mac st)"

section \<open>Encryption and decryption\<close>

text \<open>The calls on \<open>m_mac\<close> that both functions make, from \<open>set_key\<close> to \<open>complete\<close>.\<close>

definition aead_mac :: "poly1305 \<Rightarrow> bytes \<Rightarrow> bytes \<Rightarrow> bytes \<Rightarrow> poly1305" where
  "aead_mac mac key aad data =
     (let mac = poly1305_set_key mac key;
          mac = poly1305_update mac aad;
          mac = (if length aad mod 16 \<noteq> 0 then poly1305_update mac (replicate (16 - length aad mod 16) 0) else mac);
          mac = poly1305_update mac data;
          mac = (if length data mod 16 \<noteq> 0 then poly1305_update mac (replicate (16 - length data mod 16) 0) else mac);
          mac = poly1305_update mac (STORE64LE (of_nat (length aad)));
          mac = poly1305_update mac (STORE64LE (of_nat (length data)))
      in poly1305_complete mac)"

definition aead_encrypt :: "chacha20_poly1305 \<Rightarrow> bytes \<Rightarrow> bytes \<times> chacha20_poly1305" where
  "aead_encrypt st input =
     (let (temp, cipher) = chacha20_crypt (m_cipher st) None 32 True;
          (_, cipher) = chacha20_crypt cipher None 32 False;
          (out, cipher) = chacha20_crypt cipher (Some input) (length input) True;
          mac = aead_mac (m_mac st) temp (m_aad st) out
      in (out, st\<lparr>m_cipher := cipher, m_mac := mac\<rparr>))"

text \<open>The loop that compares the tag: it runs over \<open>m_tag\<close>, and \<open>mac\<close> has 16 bytes.\<close>

definition tag_mask :: "bytes \<Rightarrow> bytes \<Rightarrow> u8 res" where
  "tag_mask mac tag =
     foldl (\<lambda>mask i. bind_res mask (\<lambda>mask.
              if i < length mac then Inr (mask OR (mac ! i XOR tag ! i))
              else Inl (Undefined ''mac read past its end''))) (Inr 0) [0..<length tag]"

text \<open>The result is the returned flag, what was written to the output (nothing when the tag is empty)
  and the new state.\<close>

definition aead_decrypt :: "chacha20_poly1305 \<Rightarrow> bytes \<Rightarrow> (bool \<times> bytes \<times> chacha20_poly1305) res" where
  "aead_decrypt st input =
     (if m_tag st = [] then Inr (False, [], st)
      else
        let (temp, cipher) = chacha20_crypt (m_cipher st) None 32 True;
            (_, cipher) = chacha20_crypt cipher None 32 False;
            mac = aead_mac (m_mac st) temp (m_aad st) input;
            (out, cipher) = chacha20_crypt cipher (Some input) (length input) True
        in bind_res (tag_mask (poly1305_get mac) (m_tag st))
             (\<lambda>mask. Inr (mask = 0, out, st\<lparr>m_cipher := cipher, m_mac := mac\<rparr>)))"

section \<open>RFC 8439, 2.8\<close>

definition pad16 :: "bytes \<Rightarrow> bytes" where
  "pad16 x = replicate ((16 - length x mod 16) mod 16) 0"

definition aead_layout :: "bytes \<Rightarrow> bytes \<Rightarrow> bytes" where
  "aead_layout aad ct = aad @ pad16 aad @ ct @ pad16 ct @
     STORE64LE (of_nat (length aad)) @ STORE64LE (of_nat (length ct))"

definition rfc_tag :: "bytes \<Rightarrow> bytes \<Rightarrow> bytes \<Rightarrow> bytes \<Rightarrow> nat" where
  "rfc_tag key nonce aad ct = rfc_poly1305 (rfc_stream key 0 nonce 32) (aead_layout aad ct)"

definition rfc_cipher :: "bytes \<Rightarrow> bytes \<Rightarrow> bytes \<Rightarrow> bytes" where
  "rfc_cipher key nonce d = map2 (XOR) d (rfc_stream key 1 nonce (length d))"

section \<open>The tag\<close>

lemma aead_mac_pieces:
  "\<exists>pieces. concat pieces = aead_layout aad data \<and>
     aead_mac mac key aad data = poly1305_complete (foldl poly1305_update (poly1305_set_key mac key) pieces)"
proof -
  have nil: "poly1305_update st [] = st" for st by (simp add: poly1305_update.simps)
  have p: "(if length x mod 16 \<noteq> 0 then poly1305_update st (replicate (16 - length x mod 16) 0) else st) =
      poly1305_update st (pad16 x)" for st x
    by (auto simp: pad16_def nil)
  let ?ps = "[aad, pad16 aad, data, pad16 data, STORE64LE (of_nat (length aad)), STORE64LE (of_nat (length data))]"
  have "aead_mac mac key aad data = poly1305_complete (foldl poly1305_update (poly1305_set_key mac key) ?ps)"
    unfolding aead_mac_def Let_def p by simp
  moreover have "concat ?ps = aead_layout aad data" by (simp add: aead_layout_def)
  ultimately show ?thesis by blast
qed

definition mac_ok :: "poly1305 \<Rightarrow> bool" where
  "mac_ok mac \<longleftrightarrow> length (m_buffer mac) = 17"

lemma aead_mac_correct:
  assumes "mac_ok mac" and "32 \<le> length key"
  shows "nat_of_bytes (poly1305_get (aead_mac mac key aad data)) = rfc_poly1305 key (aead_layout aad data)"
    and "length (poly1305_get (aead_mac mac key aad data)) = 16"
    and "mac_ok (aead_mac mac key aad data)"
proof -
  obtain ps where ps: "concat ps = aead_layout aad data"
    "aead_mac mac key aad data = poly1305_complete (foldl poly1305_update (poly1305_set_key mac key) ps)"
    using aead_mac_pieces by blast
  show "nat_of_bytes (poly1305_get (aead_mac mac key aad data)) = rfc_poly1305 key (aead_layout aad data)"
    and "length (poly1305_get (aead_mac mac key aad data)) = 16"
    and "mac_ok (aead_mac mac key aad data)"
    using poly1305_correct [OF _ assms(2) ps(2)] assms(1) ps(1) by (simp_all add: mac_ok_def)
qed

text \<open>Equal numbers of equal length are equal bytes.\<close>

lemma nat_of_bytes_inject:
  "length xs = length ys \<Longrightarrow> nat_of_bytes xs = nat_of_bytes ys \<Longrightarrow> xs = ys"
proof (induction xs ys rule: list_induct2)
  case (Cons x xs y ys)
  have l: "unat x < 256" "unat y < 256" using unsigned_less [of x, where 'a = nat] unsigned_less [of y, where 'a = nat] by simp_all
  have "(unat x + 256 * nat_of_bytes xs) mod 256 = (unat y + 256 * nat_of_bytes ys) mod 256"
    using Cons.prems by simp
  then have "unat x = unat y" using l by simp
  then show ?case using Cons by (simp add: unat_inject)
qed simp

lemma aead_mac_same:
  assumes "mac_ok mac" and "mac_ok mac'" and "32 \<le> length key"
  shows "poly1305_get (aead_mac mac key aad data) = poly1305_get (aead_mac mac' key aad data)"
  using aead_mac_correct [OF assms(1,3), of aad data] aead_mac_correct [OF assms(2,3), of aad data]
  by (intro nat_of_bytes_inject) simp_all

text \<open>The mask is zero exactly when the tag is a prefix of the mac.\<close>

lemma tag_mask_prefix:
  "k \<le> length (mac :: bytes) \<Longrightarrow> k \<le> length tag \<Longrightarrow>
   \<exists>m. foldl (\<lambda>mask i. bind_res mask (\<lambda>mask. if i < length mac then Inr (mask OR (mac ! i XOR tag ! i))
      else Inl (Undefined ''mac read past its end''))) (Inr 0) [0..<k] = Inr m \<and> (m = 0 \<longleftrightarrow> take k mac = take k tag)"
proof (induction k)
  case (Suc k)
  then obtain m where "foldl (\<lambda>mask i. bind_res mask (\<lambda>mask. if i < length mac then Inr (mask OR (mac ! i XOR tag ! i))
      else Inl (Undefined ''mac read past its end''))) (Inr 0) [0..<k] = Inr m" "m = 0 \<longleftrightarrow> take k mac = take k tag" by auto
  moreover have "m OR (a XOR b) = 0 \<longleftrightarrow> m = 0 \<and> a = b" for m a b :: u8
  proof -
    have "a = b" if "a XOR b = 0" using arg_cong [OF that, of "\<lambda>x. x XOR b"] by simp
    then show ?thesis by (auto simp: or_eq_0_iff)
  qed
  ultimately show ?case using Suc.prems by (simp add: take_Suc_conv_app_nth)
qed simp

lemma tag_mask_short:
  assumes "length tag \<le> length mac"
  obtains m where "tag_mask mac tag = Inr m" and "m = 0 \<longleftrightarrow> tag = take (length tag) mac"
  using tag_mask_prefix [OF assms order_refl] unfolding tag_mask_def by auto

lemma tag_mask_long:
  assumes "length mac < length tag"
  shows "tag_mask mac tag = Inl (Undefined ''mac read past its end'')"
proof -
  let ?f = "\<lambda>mask i. bind_res mask (\<lambda>mask. if i < length mac then Inr (mask OR (mac ! i XOR tag ! i))
      else Inl (Undefined ''mac read past its end''))"
  have stuck: "foldl ?f (Inl e) is = Inl e" for e "is" by (induction "is") simp_all
  have "[0..<length tag] = [0..<length mac] @ length mac # [Suc (length mac)..<length tag]"
    using assms upt_add_eq_append [of 0 "length mac" "length tag - length mac"] by (simp add: upt_conv_Cons)
  then show ?thesis
    using tag_mask_prefix [of "length mac" mac tag] assms stuck unfolding tag_mask_def by auto
qed

section \<open>The three draws from the key stream\<close>

text \<open>Where the cipher is at the start of a message and what it has still to give.\<close>

lemma draws:
  assumes "chacha20_ok c"
  shows "fst (chacha20_crypt c None 32 True) = keystream c 32"
    and "chacha20_ok (snd (chacha20_crypt (snd (chacha20_crypt c None 32 True)) None 32 False))"
    and "keystream (snd (chacha20_crypt (snd (chacha20_crypt c None 32 True)) None 32 False)) n = drop 64 (keystream c (64 + n))"
proof -
  have none: "\<forall>d. (None :: bytes option) = Some d \<longrightarrow> 32 \<le> length d" by simp
  note c1 = crypt_keystream [OF assms none, of True]
  note c2 = crypt_keystream [OF c1(2) none, of False]
  show "fst (chacha20_crypt c None 32 True) = keystream c 32" using c1(1) by (simp add: written_def)
  show "chacha20_ok (snd (chacha20_crypt (snd (chacha20_crypt c None 32 True)) None 32 False))" by (rule c2(2))
  show "keystream (snd (chacha20_crypt (snd (chacha20_crypt c None 32 True)) None 32 False)) n = drop 64 (keystream c (64 + n))"
    unfolding c2(3) c1(3) by simp
qed

definition aead_key :: "chacha20_poly1305 \<Rightarrow> bytes" where
  "aead_key st = keystream (m_cipher st) 32"

definition aead_stream :: "chacha20_poly1305 \<Rightarrow> nat \<Rightarrow> bytes" where
  "aead_stream st n = drop 64 (keystream (m_cipher st) (64 + n))"

lemma length_aead_key: "chacha20_ok (m_cipher st) \<Longrightarrow> length (aead_key st) = 32"
  by (simp add: aead_key_def chacha20_ok_def)

lemma aead_encrypt_eq:
  assumes "chacha20_ok (m_cipher st)"
  shows "fst (aead_encrypt st d) = map2 (XOR) d (aead_stream st (length d))"
    and "m_mac (snd (aead_encrypt st d)) = aead_mac (m_mac st) (aead_key st) (m_aad st) (fst (aead_encrypt st d))"
proof -
  note dr = draws [OF assms]
  define c where "c = snd (chacha20_crypt (snd (chacha20_crypt (m_cipher st) None 32 True)) None 32 False)"
  have "fst (chacha20_crypt c (Some d) (length d) True) = map2 (XOR) d (aead_stream st (length d))"
    using encrypt_keystream(1) [OF dr(2), of d] dr(3) by (simp add: c_def chacha20_encrypt_def aead_stream_def)
  then show "fst (aead_encrypt st d) = map2 (XOR) d (aead_stream st (length d))"
    and "m_mac (snd (aead_encrypt st d)) = aead_mac (m_mac st) (aead_key st) (m_aad st) (fst (aead_encrypt st d))"
    using dr(1) by (simp_all add: aead_encrypt_def Let_def c_def aead_key_def split_def)
qed

lemma aead_decrypt_eq:
  assumes "chacha20_ok (m_cipher st)" and "m_tag st \<noteq> []"
  shows "aead_decrypt st ct = bind_res (tag_mask (poly1305_get (aead_mac (m_mac st) (aead_key st) (m_aad st) ct)) (m_tag st))
    (\<lambda>mask. Inr (mask = 0, map2 (XOR) ct (aead_stream st (length ct)),
      st\<lparr>m_cipher := snd (chacha20_crypt (snd (chacha20_crypt (snd (chacha20_crypt (m_cipher st) None 32 True)) None 32 False))
            (Some ct) (length ct) True),
         m_mac := aead_mac (m_mac st) (aead_key st) (m_aad st) ct\<rparr>))"
proof -
  note dr = draws [OF assms(1)]
  define c where "c = snd (chacha20_crypt (snd (chacha20_crypt (m_cipher st) None 32 True)) None 32 False)"
  have "fst (chacha20_crypt c (Some ct) (length ct) True) = map2 (XOR) ct (aead_stream st (length ct))"
    using encrypt_keystream(1) [OF dr(2), of ct] dr(3) by (simp add: c_def chacha20_encrypt_def aead_stream_def)
  then show ?thesis
    using dr(1) assms(2) by (simp add: aead_decrypt_def Let_def c_def aead_key_def split_def)
qed

section \<open>Properties\<close>

text \<open>The states that the setters produce from a new object.\<close>

definition aead_keyed :: "chacha20_poly1305 \<Rightarrow> bytes \<Rightarrow> bytes \<Rightarrow> bytes \<Rightarrow> bool" where
  "aead_keyed st key nonce aad \<longleftrightarrow> length key = 32 \<and> length nonce = 12 \<and> m_aad st = aad \<and>
     length (m_buffer (m_mac st)) = 17 \<and> length (block (m_cipher st)) = 16 \<and>
     pos (m_cipher st) = 0 \<and> rounds (m_cipher st) = 20 \<and> state (m_cipher st) = rfc_state key 0 nonce"

lemma aead_setup:
  assumes "length j1 = 16" and "length j2 = 16" and "length (m_buffer mac) = 17"
    and "length key = 32" and "length nonce = 12"
  shows "\<exists>st. bind_res (aead_new (chacha20_new j1 j2) mac) (\<lambda>st. bind_res (aead_set_key st key) (\<lambda>st.
      bind_res (aead_set_iv st nonce) (\<lambda>st. Inr (set_aad st aad)))) = Inr st \<and> aead_keyed st key nonce aad"
proof -
  let ?c = "chacha20_new j1 j2"
  have "length (state ?c) = 16" using assms by (simp add: chacha20_new_def)
  from setup_state [OF this assms(4,5)]
  have "bind_res (chacha20_set_key ?c key) (\<lambda>c. chacha20_set_iv c nonce) = Inr (?c\<lparr>state := rfc_state key 0 nonce\<rparr>)"
    by (simp add: chacha20_setup_def)
  then show ?thesis
    using assms by (auto simp: aead_new_def set_rounds_def aead_set_key_def aead_set_iv_def set_aad_def aead_keyed_def
      chacha20_new_def)
qed

lemma aead_keyed_ok: "aead_keyed st key nonce aad \<Longrightarrow> chacha20_ok (m_cipher st) \<and> mac_ok (m_mac st)"
  by (simp add: aead_keyed_def chacha20_ok_def mac_ok_def length_rfc_state)

lemma drop64_stream:
  assumes "length key = 32" and "length nonce = 12" and "n < 2 ^ 38 - 64"
  shows "drop 64 (rfc_stream key 0 nonce (64 + n)) = rfc_stream key 1 nonce n"
proof -
  let ?b = "\<lambda>i. chacha_block 20 (rfc_state key (of_nat i) nonce)"
  have d: "(64 + n) div 64 + 1 = Suc (n div 64 + 1)" by simp
  have m: "map ?b [0..<Suc k] = ?b 0 # map (\<lambda>i. ?b (1 + i)) [0..<k]" for k
    by (simp only: upt_conv_Cons zero_less_Suc map_Suc_upt [symmetric] list.map map_map comp_def plus_1_eq_Suc)
  have l: "length (?b 0) = 64" using assms by (simp add: length_of_rows_pow length_rfc_state)
  have "rfc_stream key 0 nonce (64 + n) = take (64 + n) (?b 0 @ concat (map (\<lambda>i. ?b (1 + i)) [0..<n div 64 + 1]))"
    unfolding rfc_stream_def d add_0 m by (simp only: concat.simps)
  then show ?thesis using l by (simp add: rfc_stream_def)
qed

lemma aead_keyed_draws:
  assumes "aead_keyed st key nonce aad" and "n < 2 ^ 38 - 64"
  shows "aead_key st = rfc_stream key 0 nonce 32" and "aead_stream st n = rfc_stream key 1 nonce n"
proof -
  have k: "keystream (m_cipher st) m = rfc_stream key 0 nonce m" if "m < 2 ^ 38" for m
    using assms(1) that by (intro keystream_rfc) (simp_all add: aead_keyed_def)
  show "aead_key st = rfc_stream key 0 nonce 32" by (simp add: aead_key_def k)
  have "length key = 32" "length nonce = 12" using assms(1) by (simp_all add: aead_keyed_def)
  from drop64_stream [OF this assms(2)] show "aead_stream st n = rfc_stream key 1 nonce n"
    using assms(2) by (simp add: aead_stream_def k)
qed

text \<open>C1: Encryption is the AEAD of RFC 8439: after the setters on a new object, the ciphertext is the
  data XORed with the key stream from block 1 on, and the tag is the Poly1305, under the first 32 bytes
  of block 0, of the additional data and the ciphertext, each filled up to 16 bytes, and their lengths.\<close>

theorem aead_encrypt_rfc:
  assumes "aead_keyed st key nonce aad" and "length d < 2 ^ 38 - 64"
  shows "fst (aead_encrypt st d) = rfc_cipher key nonce d \<and>
    nat_of_bytes (get_tag (snd (aead_encrypt st d))) = rfc_tag key nonce aad (rfc_cipher key nonce d) \<and>
    length (get_tag (snd (aead_encrypt st d))) = 16"
proof -
  have ok: "chacha20_ok (m_cipher st)" "mac_ok (m_mac st)" using aead_keyed_ok [OF assms(1)] by simp_all
  note e = aead_encrypt_eq [OF ok(1), of d]
  note k = aead_keyed_draws(1) [OF assms] length_aead_key [OF ok(1)]
  have c: "fst (aead_encrypt st d) = rfc_cipher key nonce d"
    using e(1) aead_keyed_draws(2) [OF assms] by (simp add: rfc_cipher_def)
  have "m_aad st = aad" using assms(1) by (simp add: aead_keyed_def)
  then show ?thesis
    using aead_mac_correct(1,2) [OF ok(2), of "aead_key st" aad "rfc_cipher key nonce d"] k c
    by (simp add: get_tag_def e(2) rfc_tag_def)
qed

text \<open>C9: Round trip: a receiver with the same key, nonce and additional data that is given the sender's
  ciphertext and tag returns true and writes the sender's data.\<close>

theorem aead_roundtrip:
  assumes "aead_keyed st key nonce aad" and "aead_keyed st' key nonce aad" and "length d < 2 ^ 38 - 64"
    and "aead_encrypt st d = (ct, st1)"
  shows "\<exists>st2. aead_decrypt (set_tag st' (get_tag st1)) ct = Inr (True, d, st2)"
proof -
  have ok: "chacha20_ok (m_cipher st)" "mac_ok (m_mac st)" "chacha20_ok (m_cipher st')" "mac_ok (m_mac st')"
    using aead_keyed_ok assms(1,2) by blast+
  have ct: "ct = fst (aead_encrypt st d)" "st1 = snd (aead_encrypt st d)" using assms(4) by simp_all
  note e = aead_encrypt_eq [OF ok(1), of d]
  let ?st' = "set_tag st' (get_tag st1)"
  have k: "aead_key ?st' = aead_key st"
    using aead_keyed_draws(1) [OF assms(1,3)] aead_keyed_draws(1) [OF assms(2,3)]
    by (simp add: aead_key_def set_tag_def)
  have k32: "length (aead_key st) = 32" by (rule length_aead_key [OF ok(1)])
  have a: "m_aad ?st' = m_aad st" using assms(1,2) by (simp add: set_tag_def aead_keyed_def)
  have s: "aead_stream ?st' (length d) = aead_stream st (length d)"
    using aead_keyed_draws(2) [OF assms(1,3)] aead_keyed_draws(2) [OF assms(2,3)] by (simp add: aead_stream_def set_tag_def)
  have ls: "length (aead_stream st (length d)) = length d" using ok(1) by (simp add: aead_stream_def chacha20_ok_def)
  have lc: "length ct = length d" using e(1) ls by (simp add: ct)
  have mac: "poly1305_get (aead_mac (m_mac ?st') (aead_key ?st') (m_aad ?st') ct) = get_tag st1"
    using aead_mac_same [OF ok(4,2), of "aead_key st" "m_aad st" ct] k k32 a e(2) by (simp add: get_tag_def ct set_tag_def)
  have l16: "length (get_tag st1) = 16"
    using aead_mac_correct(2) [OF ok(2), of "aead_key st" "m_aad st" ct] k32 e(2) by (simp add: get_tag_def ct)
  obtain m where m: "tag_mask (get_tag st1) (get_tag st1) = Inr m" "m = 0" by (rule tag_mask_short [of "get_tag st1" "get_tag st1"]) simp_all
  have "m_tag ?st' \<noteq> []" using l16 by (auto simp: set_tag_def)
  moreover have "map2 (XOR) ct (aead_stream st (length d)) = d"
    using e(1) ls by (simp add: ct map2_xor_twice)
  ultimately show ?thesis
    using aead_decrypt_eq [of ?st' ct] ok(3) mac m s lc by (simp add: set_tag_def)
qed

text \<open>The mac that \<open>decrypt\<close> computes for a ciphertext.\<close>

definition expected_mac :: "chacha20_poly1305 \<Rightarrow> bytes \<Rightarrow> bytes" where
  "expected_mac st ct = poly1305_get (aead_mac (m_mac st) (aead_key st) (m_aad st) ct)"

text \<open>C39: What decryption accepts: it returns true exactly when the tag is a non-empty prefix of the
  16-byte mac of the ciphertext, so a tag of one byte is accepted when that byte matches; a tag longer
  than 16 bytes makes the loop read past the mac. The decrypted bytes are written whatever the tag is,
  except when it is empty.\<close>

theorem aead_decrypt_accepts:
  assumes "chacha20_ok (m_cipher st)" and "length (m_buffer (m_mac st)) = 17"
  shows "(m_tag st = [] \<longrightarrow> aead_decrypt st ct = Inr (False, [], st)) \<and>
    (0 < length (m_tag st) \<and> length (m_tag st) \<le> 16 \<longrightarrow>
      (\<exists>st'. aead_decrypt st ct =
        Inr (m_tag st = take (length (m_tag st)) (expected_mac st ct), map2 (XOR) ct (aead_stream st (length ct)), st'))) \<and>
    (16 < length (m_tag st) \<longrightarrow> aead_decrypt st ct = Inl (Undefined ''mac read past its end''))"
proof (intro conjI impI)
  have "length (aead_key st) = 32" using assms(1) by (simp add: aead_key_def chacha20_ok_def)
  then have l: "length (expected_mac st ct) = 16" unfolding expected_mac_def using assms(2) by (intro aead_mac_correct(2)) (simp_all add: mac_ok_def)
  show "m_tag st = [] \<Longrightarrow> aead_decrypt st ct = Inr (False, [], st)" by (simp add: aead_decrypt_def)
  show "\<exists>st'. aead_decrypt st ct =
      Inr (m_tag st = take (length (m_tag st)) (expected_mac st ct), map2 (XOR) ct (aead_stream st (length ct)), st')"
    if tl: "0 < length (m_tag st) \<and> length (m_tag st) \<le> 16"
  proof -
    obtain m where m: "tag_mask (expected_mac st ct) (m_tag st) = Inr m" "m = 0 \<longleftrightarrow> m_tag st = take (length (m_tag st)) (expected_mac st ct)"
      by (rule tag_mask_short [of "m_tag st" "expected_mac st ct"]) (use tl l in simp)
    have "m_tag st \<noteq> []" using tl by auto
    from aead_decrypt_eq [OF assms(1) this, of ct] show ?thesis
      unfolding expected_mac_def [symmetric] m(1) using m(2) by simp
  qed
  assume t: "16 < length (m_tag st)"
  then have "m_tag st \<noteq> []" by auto
  from aead_decrypt_eq [OF assms(1) this, of ct] show "aead_decrypt st ct = Inl (Undefined ''mac read past its end'')"
    unfolding expected_mac_def [symmetric] using tag_mask_long [of "expected_mac st ct" "m_tag st"] l t by simp
qed

text \<open>An object cannot be keyed again after a message whose length leaves half a block or more
  unused: the one-time Poly1305 key of the next message is then not taken from the new key and nonce
  but is the next 32 bytes of the old key stream, whatever is set.\<close>

theorem aead_second_key_is_old:
  assumes "aead_keyed st key nonce aad" and "0 < length d mod 64" and "length d mod 64 \<le> 32"
    and "length d < 2 ^ 38 - 96"
    and "aead_encrypt st d = (ct, st1)" and "aead_set_key st1 key2 = Inr st2" and "aead_set_iv st2 nonce2 = Inr st3"
  shows "aead_key st3 = drop (64 + length d) (rfc_stream key 0 nonce (96 + length d))"
proof -
  let ?c = "m_cipher st"
  have ok: "chacha20_ok ?c" using aead_keyed_ok [OF assms(1)] by simp
  have p0: "pos ?c = 0" using assms(1) by (simp add: aead_keyed_def)
  note dr = draws [OF ok]
  define c1 where "c1 = snd (chacha20_crypt ?c None 32 True)"
  define c2 where "c2 = snd (chacha20_crypt c1 None 32 False)"
  define c3 where "c3 = snd (chacha20_crypt c2 (Some d) (length d) True)"
  have "m_cipher (snd (aead_encrypt st d)) = c3"
    by (simp add: aead_encrypt_def Let_def split_def c1_def c2_def c3_def)
  then have c3: "m_cipher st1 = c3" using assms(5) by simp
  have sd: "\<forall>e. Some d = Some e \<longrightarrow> length d \<le> length e" by simp
  note e = crypt_keystream [OF dr(2) sd, of True, folded c1_def, folded c2_def, folded c3_def]
  have p1: "pos c1 \<le> 64 \<and> pos c1 mod 64 = 32" using crypt_pos [of ?c None 32 True] p0 by (simp add: c1_def)
  have p2: "pos c2 \<le> 64 \<and> pos c2 mod 64 = 0"
  proof -
    have "(pos c1 + 32) mod 64 = (pos c1 mod 64 + 32) mod 64" by (simp add: mod_add_left_eq)
    then show ?thesis using crypt_pos [of c1 None 32 False] p1 by (simp add: c2_def)
  qed
  have p3: "0 < pos c3 \<and> pos c3 \<le> 64 \<and> pos c3 mod 64 = length d mod 64"
  proof -
    have "0 < length d" using assms(2) by (cases d) simp_all
    moreover have "(pos c2 + length d) mod 64 = length d mod 64"
      using p2 by (metis add_0 mod_add_left_eq)
    ultimately show ?thesis using crypt_pos [of c2 "Some d" "length d" True] p2 by (simp add: c3_def)
  qed
  have p: "0 < pos c3" "pos c3 \<le> 32"
  proof -
    have "pos c3 \<noteq> 64" using p3 assms(2) by auto
    then have "pos c3 < 64" using p3 by simp
    then have "pos c3 mod 64 = pos c3" by (rule mod_less)
    then show "0 < pos c3" "pos c3 \<le> 32" using p3 assms(3) by simp_all
  qed
  have s3: "pos (m_cipher st3) = pos c3" "block (m_cipher st3) = block c3"
    using assms(6,7) c3 by (auto simp: aead_set_key_def aead_set_iv_def chacha20_set_key_def chacha20_set_iv_def split: if_splits)
  have "length (block c3) = 16" using e(2) by (simp add: chacha20_ok_def)
  then have "aead_key st3 = keystream c3 32" using s3 p by (simp add: aead_key_def keystream_def unread_def)
  also have "\<dots> = drop (length d) (drop 64 (keystream ?c (64 + (length d + 32))))"
    unfolding e(3) dr(3) [folded c1_def, folded c2_def] ..
  also have "keystream ?c (64 + (length d + 32)) = rfc_stream key 0 nonce (64 + (length d + 32))"
    using assms(1,4) by (intro keystream_rfc) (simp_all add: aead_keyed_def)
  finally show ?thesis by (simp add: add.commute add.left_commute)
qed

section \<open>Witnesses\<close>

definition example_aead :: chacha20_poly1305 where
  "example_aead = \<lparr>m_cipher = \<lparr>rounds = 20, pos = 0, state = rfc_state (replicate 32 7) 0 (replicate 12 9),
       block = replicate 16 0\<rparr>, m_mac = example_state, m_aad = [1, 2], m_tag = []\<rparr>"

lemma example_aead_keyed: "aead_keyed example_aead (replicate 32 7) (replicate 12 9) [1, 2]"
  by (simp add: aead_keyed_def example_aead_def example_state_def)

theorem aead_encrypt_rfc_witness:
  "fst (aead_encrypt example_aead [5, 6, 7]) = rfc_cipher (replicate 32 7) (replicate 12 9) [5, 6, 7]"
  using aead_encrypt_rfc [OF example_aead_keyed, of "[5, 6, 7]"] by simp

theorem aead_roundtrip_witness:
  "\<exists>st2. aead_decrypt (set_tag example_aead (get_tag (snd (aead_encrypt example_aead [5, 6, 7]))))
     (fst (aead_encrypt example_aead [5, 6, 7])) = Inr (True, [5, 6, 7], st2)"
  by (rule aead_roundtrip [OF example_aead_keyed example_aead_keyed, of "[5, 6, 7]", OF _ prod.collapse [symmetric]]) simp

theorem aead_decrypt_accepts_witness:
  "aead_decrypt (set_tag example_aead (replicate 17 0)) [1] = Inl (Undefined ''mac read past its end'')"
  using aead_decrypt_accepts [of "set_tag example_aead (replicate 17 0)" "[1]"] aead_keyed_ok [OF example_aead_keyed]
  by (simp add: set_tag_def example_aead_def example_state_def)

theorem aead_second_key_is_old_witness:
  "\<exists>st2 st3. aead_set_key (snd (aead_encrypt example_aead [5, 6, 7])) (replicate 32 8) = Inr st2 \<and>
     aead_set_iv st2 (replicate 12 8) = Inr st3 \<and>
     aead_key st3 = drop 67 (rfc_stream (replicate 32 7) 0 (replicate 12 9) 99)"
proof -
  obtain st2 where 2: "aead_set_key (snd (aead_encrypt example_aead [5, 6, 7])) (replicate 32 8) = Inr st2"
    by (simp add: aead_set_key_def chacha20_set_key_def)
  obtain st3 where 3: "aead_set_iv st2 (replicate 12 8) = Inr st3"
    by (simp add: aead_set_iv_def chacha20_set_iv_def)
  show ?thesis
    using aead_second_key_is_old [OF example_aead_keyed _ _ _ prod.collapse [symmetric] 2 3] 2 3 by simp
qed

end
