(* ===== verification/Ez_Buffer.thy ===== *)
theory Ez_Buffer
  imports Ez_Prelude
begin

text \<open>
  \<open>ez::buffer\<close> (\<open>include/ez/buffer.hpp\<close>, \<open>source/buffer.cpp\<close>): a handle to a reference-counted
  \<open>impl\<close> with a data pointer, a size, a capacity and a read position. Copies of a handle share
  the \<open>impl\<close>, so the model has an explicit heap: \<open>impl\<close> objects and byte arrays by address. A use
  of a freed or null \<open>impl\<close>, and a second \<open>delete []\<close> of an array, are \<open>Undefined\<close>.
\<close>

section \<open>State\<close>

record buffer_impl =
  m_data :: "nat option"
  m_size :: u64
  m_orig_size :: u64
  m_position :: u64
  m_own_data :: bool
  m_refs :: u32

record buffer_heap =
  h_impl :: "nat \<rightharpoonup> buffer_impl"
  h_mem :: "nat \<rightharpoonup> bytes"
  h_next :: nat

definition new_impl :: "buffer_impl \<Rightarrow> buffer_heap \<Rightarrow> nat \<times> buffer_heap" where
  "new_impl i h = (h_next h, h\<lparr>h_impl := (h_impl h)(h_next h \<mapsto> i), h_next := Suc (h_next h)\<rparr>)"

definition new_array :: "bytes \<Rightarrow> buffer_heap \<Rightarrow> nat \<times> buffer_heap" where
  "new_array bs h = (h_next h, h\<lparr>h_mem := (h_mem h)(h_next h \<mapsto> bs), h_next := Suc (h_next h)\<rparr>)"

text \<open>The member initialisers of \<open>impl\<close>, with the count set to 1 as every constructor does.\<close>

definition impl_init :: buffer_impl where
  "impl_init = \<lparr>m_data = None, m_size = 0, m_orig_size = 0, m_position = 0, m_own_data = True, m_refs = 1\<rparr>"

section \<open>Constructors\<close>

definition buffer_empty :: "buffer_heap \<Rightarrow> nat \<times> buffer_heap" where
  "buffer_empty h = new_impl impl_init h"

text \<open>The constructors that allocate an array of their own and fill it.\<close>

definition buffer_owning :: "bytes \<Rightarrow> buffer_heap \<Rightarrow> nat \<times> buffer_heap" where
  "buffer_owning bs h =
     (let (d, h) = new_array bs h in
      new_impl (impl_init\<lparr>m_data := Some d, m_size := of_nat (length bs),
        m_orig_size := of_nat (length bs)\<rparr>) h)"

definition buffer_sized :: "nat \<Rightarrow> buffer_heap \<Rightarrow> nat \<times> buffer_heap" where
  "buffer_sized n h = buffer_owning (replicate n 0) h"

definition buffer_of_vector :: "bytes \<Rightarrow> buffer_heap \<Rightarrow> nat \<times> buffer_heap" where
  "buffer_of_vector vec h = buffer_owning vec h"

definition buffer_of_string :: "bytes \<Rightarrow> buffer_heap \<Rightarrow> nat \<times> buffer_heap" where
  "buffer_of_string s h = buffer_owning s h"

text \<open>The array behind a \<open>const char*\<close> is read up to its first zero byte.\<close>

definition buffer_of_cstr :: "bytes \<Rightarrow> buffer_heap \<Rightarrow> (nat \<times> buffer_heap) res" where
  "buffer_of_cstr s h =
     (if 0 \<in> set s then Inr (buffer_owning (takeWhile (\<lambda>c. c \<noteq> 0) s) h)
      else Inl (Undefined ''strlen past the end of the array''))"

text \<open>\<open>buffer(data, size, copy)\<close> on the array at address \<open>data\<close>.\<close>

definition buffer_of_data :: "nat \<Rightarrow> nat \<Rightarrow> bool \<Rightarrow> buffer_heap \<Rightarrow> (nat \<times> buffer_heap) res" where
  "buffer_of_data data n copy h =
     (if copy then
        (case h_mem h data of
           None \<Rightarrow> Inl (Undefined ''memcpy from an array that is not allocated'')
         | Some bs \<Rightarrow>
             if n \<le> length bs then Inr (buffer_owning (take n bs) h)
             else Inl (Undefined ''memcpy past the end of the array''))
      else Inr (new_impl (impl_init\<lparr>m_data := Some data, m_own_data := False,
        m_size := of_nat n, m_orig_size := of_nat n\<rparr>) h))"

text \<open>The \<open>std::string_view\<close> constructor has no \<open>m_impl(new impl)\<close>: it writes through an
  uninitialised pointer.\<close>

definition buffer_of_view :: "bytes \<Rightarrow> buffer_heap \<Rightarrow> (nat \<times> buffer_heap) res" where
  "buffer_of_view s h = Inl (Undefined ''m_impl is not initialised'')"

section \<open>Copies and destruction\<close>

definition inc_ref :: "nat \<Rightarrow> buffer_heap \<Rightarrow> buffer_heap res" where
  "inc_ref p h =
     (case h_impl h p of
        None \<Rightarrow> Inl (Undefined ''impl used after it was freed'')
      | Some i \<Rightarrow> Inr (h\<lparr>h_impl := (h_impl h)(p \<mapsto> i\<lparr>m_refs := m_refs i + 1\<rparr>)\<rparr>))"

definition delete_array :: "nat option \<Rightarrow> buffer_heap \<Rightarrow> buffer_heap res" where
  "delete_array d h =
     (case d of
        None \<Rightarrow> Inr h
      | Some d \<Rightarrow>
          (if h_mem h d = None then Inl (Undefined ''array deleted twice'')
           else Inr (h\<lparr>h_mem := (h_mem h)(d := None)\<rparr>)))"

definition dec_ref :: "nat \<Rightarrow> buffer_heap \<Rightarrow> buffer_heap res" where
  "dec_ref p h =
     (case h_impl h p of
        None \<Rightarrow> Inl (Undefined ''impl used after it was freed'')
      | Some i \<Rightarrow>
          (if m_refs i - 1 = 0 then
             bind_res (if m_own_data i then delete_array (m_data i) h else Inr h)
               (\<lambda>h. Inr (h\<lparr>h_impl := (h_impl h)(p := None)\<rparr>))
           else Inr (h\<lparr>h_impl := (h_impl h)(p \<mapsto> i\<lparr>m_refs := m_refs i - 1\<rparr>)\<rparr>)))"

text \<open>
  \<open>operator =\<close>: \<open>same\<close> is \<open>this == &_right\<close>, \<open>this\<close> and \<open>right\<close> are the two \<open>m_impl\<close> pointers
  (\<open>None\<close> is \<open>nullptr\<close>). The copy constructor assigns to a handle whose pointer is null.
\<close>

definition buffer_assign ::
  "bool \<Rightarrow> nat option \<Rightarrow> nat option \<Rightarrow> buffer_heap \<Rightarrow> (nat option \<times> buffer_heap) res" where
  "buffer_assign same this right h =
     (if same \<or> right = None then Inr (this, h)
      else bind_res (case this of Some p \<Rightarrow> dec_ref p h | None \<Rightarrow> Inr h)
        (\<lambda>h. bind_res (inc_ref (the right) h) (\<lambda>h. Inr (right, h))))"

definition buffer_copy :: "nat option \<Rightarrow> buffer_heap \<Rightarrow> (nat option \<times> buffer_heap) res" where
  "buffer_copy right h = buffer_assign False None right h"

definition buffer_destroy :: "nat option \<Rightarrow> buffer_heap \<Rightarrow> buffer_heap res" where
  "buffer_destroy p h =
     (case p of None \<Rightarrow> Inl (Undefined ''null m_impl'') | Some p \<Rightarrow> dec_ref p h)"

section \<open>Size and position\<close>

definition buffer_size :: "'a buffer_impl_scheme \<Rightarrow> u64" where
  "buffer_size i = m_size i - m_position i"

definition set_size :: "u64 \<Rightarrow> 'a buffer_impl_scheme \<Rightarrow> 'a buffer_impl_scheme" where
  "set_size n i = (if n \<le> m_orig_size i then i\<lparr>m_size := n\<rparr> else i)"

definition position :: "'a buffer_impl_scheme \<Rightarrow> u64" where
  "position i = m_position i"

definition set_position :: "u64 \<Rightarrow> 'a buffer_impl_scheme \<Rightarrow> 'a buffer_impl_scheme" where
  "set_position pos i =
     (if pos > m_size i then i\<lparr>m_position := m_size i\<rparr> else i\<lparr>m_position := pos\<rparr>)"

text \<open>\<open>ptr()\<close> is a pointer: the array's address and an offset into it.\<close>

definition buffer_ptr :: "buffer_impl \<Rightarrow> nat option \<times> nat" where
  "buffer_ptr i = (m_data i, unat (m_position i))"

text \<open>The bytes that \<open>ptr()\<close> and \<open>size()\<close> delimit, when all of them are inside the array.\<close>

definition buffer_contents :: "buffer_heap \<Rightarrow> buffer_impl \<Rightarrow> bytes option" where
  "buffer_contents h i =
     (case m_data i of
        None \<Rightarrow> if buffer_size i = 0 then Some [] else None
      | Some d \<Rightarrow>
          (case h_mem h d of
             None \<Rightarrow> None
           | Some bs \<Rightarrow>
               if unat (m_position i) + unat (buffer_size i) \<le> length bs
               then Some (take (unat (buffer_size i)) (drop (unat (m_position i)) bs)) else None))"

section \<open>Properties of the cursor\<close>

definition cursor_ok :: "buffer_impl \<Rightarrow> bool" where
  "cursor_ok i \<longleftrightarrow> m_position i \<le> m_size i \<and> m_size i \<le> m_orig_size i"

lemma unat_buffer_size: "m_position i \<le> m_size i \<Longrightarrow>
    unat (buffer_size i) = unat (m_size i) - unat (m_position i)"
  by (simp add: buffer_size_def unat_sub)

text \<open>\<open>set_position\<close> clamps to the size and so keeps position within size within capacity;
  \<open>set_size\<close> keeps that order unless it shrinks the size below the position, and in exactly that
  case \<open>size()\<close> wraps around: it reports 2^64 minus the missing bytes.\<close>

theorem buffer_cursor:
  assumes "cursor_ok i"
  shows "cursor_ok (set_position pos i) \<and>
    unat (buffer_size (set_position pos i)) = unat (m_size i) - unat pos \<and>
    (cursor_ok (set_size n i) \<longleftrightarrow> m_orig_size i < n \<or> m_position i \<le> n) \<and>
    (n < m_position i \<longrightarrow> unat (buffer_size (set_size n i)) = 2 ^ 64 - (unat (m_position i) - unat n))"
proof (intro conjI impI)
  show "cursor_ok (set_position pos i)" using assms by (auto simp: cursor_ok_def set_position_def not_less)
  show "unat (buffer_size (set_position pos i)) = unat (m_size i) - unat pos"
    using assms by (cases "pos > m_size i") (simp_all add: set_position_def buffer_size_def unat_sub not_less
      word_less_nat_alt word_le_nat_alt)
  show "cursor_ok (set_size n i) \<longleftrightarrow> m_orig_size i < n \<or> m_position i \<le> n"
    using assms by (auto simp: cursor_ok_def set_size_def)
  assume n: "n < m_position i"
  moreover have "n \<le> m_orig_size i" using n assms by (auto simp: cursor_ok_def word_less_nat_alt word_le_nat_alt)
  ultimately show "unat (buffer_size (set_size n i)) = 2 ^ 64 - (unat (m_position i) - unat n)"
    by (simp add: buffer_size_def set_size_def unat_sub_if' word_less_nat_alt)
qed

theorem buffer_cursor_witness:
  "unat (buffer_size (set_size 3 (impl_init\<lparr>m_size := 10, m_orig_size := 10, m_position := 5\<rparr>)))
    = 2 ^ 64 - 2"
  using buffer_cursor [of "impl_init\<lparr>m_size := 10, m_orig_size := 10, m_position := 5\<rparr>" 0 3]
  by (simp add: cursor_ok_def impl_init_def)

section \<open>Programs that hold buffers\<close>

text \<open>
  A program state is the heap and the list of the live \<open>buffer\<close> objects' \<open>m_impl\<close> pointers. The
  steps are the operations of the class; \<open>ext\<close> is the set of arrays that the program owns itself
  and may lend to a buffer (\<open>_copy = false\<close>). Writing through \<open>ptr()\<close> changes the bytes of an
  allocated array and not its size.
\<close>

type_synonym buffers = "buffer_heap \<times> nat list"

inductive buffer_step :: "nat set \<Rightarrow> buffers \<Rightarrow> buffers \<Rightarrow> bool" for ext :: "nat set" where
  step_empty: "buffer_empty h = (p, h') \<Longrightarrow> Suc (length bs) < 2 ^ 32 \<Longrightarrow> buffer_step ext (h, bs) (h', bs @ [p])"
| step_owning: "buffer_owning s h = (p, h') \<Longrightarrow> Suc (length bs) < 2 ^ 32 \<Longrightarrow>
    buffer_step ext (h, bs) (h', bs @ [p])"
| step_borrow: "d \<in> ext \<Longrightarrow> buffer_of_data d n False h = Inr (p, h') \<Longrightarrow> Suc (length bs) < 2 ^ 32 \<Longrightarrow>
    buffer_step ext (h, bs) (h', bs @ [p])"
| step_copy: "i < length bs \<Longrightarrow> buffer_copy (Some (bs ! i)) h = Inr (Some p, h') \<Longrightarrow>
    Suc (length bs) < 2 ^ 32 \<Longrightarrow> buffer_step ext (h, bs) (h', bs @ [p])"
| step_assign: "i < length bs \<Longrightarrow> j < length bs \<Longrightarrow>
    buffer_assign (i = j) (Some (bs ! i)) (Some (bs ! j)) h = Inr (Some p, h') \<Longrightarrow>
    buffer_step ext (h, bs) (h', bs[i := p])"
| step_destroy: "i < length bs \<Longrightarrow> buffer_destroy (Some (bs ! i)) h = Inr h' \<Longrightarrow>
    buffer_step ext (h, bs) (h', take i bs @ drop (Suc i) bs)"
| step_cursor: "i < length bs \<Longrightarrow> h_impl h (bs ! i) = Some x \<Longrightarrow>
    buffer_step ext (h, bs) (h\<lparr>h_impl := (h_impl h)(bs ! i \<mapsto> set_position pos (set_size n x))\<rparr>, bs)"
| step_write: "h_mem h d = Some old \<Longrightarrow> length new = length old \<Longrightarrow>
    buffer_step ext (h, bs) (h\<lparr>h_mem := (h_mem h)(d \<mapsto> new)\<rparr>, bs)"

inductive_cases buffer_stepE: "buffer_step ext (h, bs) st"


section \<open>The ownership invariant\<close>







section \<open>Every operation keeps the invariant\<close>



















section \<open>Steps\<close>



















end
