(* ===== verification/Ez_Channel.thy ===== *)
theory Ez_Channel
  imports Ez_Buffer
begin

text \<open>
  The interface \<open>ez::channel\<close> (\<open>include/ez/channel.hpp\<close>) that \<open>smp\<close>, \<open>http\<close> and \<open>tls\<close> use and that
  \<open>socket\<close> implements: its virtual functions as a record, what its users rely on as the locale
  \<open>channel_laws\<close>, and buffers that a component owns, held by value.
\<close>

section \<open>The virtual functions\<close>

text \<open>
  A call gives the value or the exception together with the new state of the channel, or \<open>None\<close> when
  it does not return. \<open>ch_recv c size want\<close> is \<open>recv(buffer, want)\<close> on a buffer with \<open>size\<close> bytes left: its
  value is the returned count and the bytes written at \<open>ptr()\<close>; the bounds are \<open>size_t\<close>, the counts are
  \<open>ssize_t\<close>. With \<open>want\<close> = 0 it is also \<open>recv(data, size)\<close>.
\<close>

record 'c channel =
  ch_send :: "'c \<Rightarrow> bytes \<Rightarrow> (int res \<times> 'c) option"
  ch_recv :: "'c \<Rightarrow> u64 \<Rightarrow> u64 \<Rightarrow> ((int \<times> bytes) res \<times> 'c) option"
  ch_can_read :: "'c \<Rightarrow> bool res \<times> 'c"
  ch_nonblocking :: "'c \<Rightarrow> bool"

abbreviation channel_error :: "string \<Rightarrow> fault" where
  "channel_error msg \<equiv> Throw (Channel_error msg)"

section \<open>What the users rely on\<close>

text \<open>\<open>sent\<close> is all that the channel has accepted, \<open>incoming\<close> what its peer has sent and \<open>recv\<close> has not
  delivered yet, \<open>valid\<close> what the channel keeps of its own state.\<close>

locale channel_laws =
  fixes io :: "'c channel"
    and valid :: "'c \<Rightarrow> bool"
    and sent :: "'c \<Rightarrow> bytes"
    and incoming :: "'c \<Rightarrow> bytes"
  assumes send_value: "valid c \<Longrightarrow> ch_send io c d = Some (Inr n, c') \<Longrightarrow>
      valid c' \<and> - (2 ^ 63) \<le> n \<and> n \<le> int (length d) \<and> sent c' = sent c @ take (nat n) d"
    and send_fault: "valid c \<Longrightarrow> ch_send io c d = Some (Inl e, c') \<Longrightarrow> valid c' \<and> sent c' = sent c"
    and recv_value: "valid c \<Longrightarrow> ch_recv io c sz want = Some (Inr (n, d), c') \<Longrightarrow>
      valid c' \<and> - (2 ^ 63) \<le> n \<and> length d = nat n \<and> length d \<le> unat sz \<and>
      (want \<noteq> 0 \<longrightarrow> length d \<le> unat want) \<and> incoming c = d @ incoming c'"
    and recv_fault: "valid c \<Longrightarrow> ch_recv io c sz want = Some (Inl e, c') \<Longrightarrow> valid c' \<and> incoming c' = incoming c"
    and recv_too_big: "sz < want \<Longrightarrow> \<exists>e. ch_recv io c sz want = Some (Inl (channel_error e), c)"

text \<open>A channel on which everything that was asked for is delivered at once when it is there, as long as
  it is \<open>live\<close>.\<close>

locale eager_channel = channel_laws io valid sent incoming
  for io :: "'c channel" and valid :: "'c \<Rightarrow> bool" and sent :: "'c \<Rightarrow> bytes" and incoming :: "'c \<Rightarrow> bytes" +
  fixes live :: "'c \<Rightarrow> bool"
  assumes live_valid: "live c \<Longrightarrow> valid c"
    and eager: "live c \<Longrightarrow> incoming c = d @ rest \<Longrightarrow> unat want = length d \<Longrightarrow> d \<noteq> [] \<Longrightarrow> want \<le> sz \<Longrightarrow>
      \<exists>c'. ch_recv io c sz want = Some (Inr (int (length d), d), c') \<and> live c' \<and> incoming c' = rest"

text \<open>A channel that, asked for no particular size, delivers all that is there and fits.\<close>

locale prompt_channel = channel_laws io valid sent incoming
  for io :: "'c channel" and valid :: "'c \<Rightarrow> bool" and sent :: "'c \<Rightarrow> bytes" and incoming :: "'c \<Rightarrow> bytes" +
  fixes ready :: "'c \<Rightarrow> bool"
  assumes ready_valid: "ready c \<Longrightarrow> valid c"
    and prompt: "ready c \<Longrightarrow> incoming c \<noteq> [] \<Longrightarrow> sz \<noteq> 0 \<Longrightarrow>
      \<exists>c'. ch_recv io c sz 0 = Some (Inr (int (length (take (unat sz) (incoming c))), take (unat sz) (incoming c)), c') \<and>
        ready c' \<and> incoming c' = drop (unat sz) (incoming c)"

text \<open>A channel whose own calls never end in undefined behaviour.\<close>

locale defined_channel = channel_laws io valid sent incoming
  for io :: "'c channel" and valid :: "'c \<Rightarrow> bool" and sent :: "'c \<Rightarrow> bytes" and incoming :: "'c \<Rightarrow> bytes" +
  assumes send_defined: "valid c \<Longrightarrow> ch_send io c d \<noteq> Some (Inl (Undefined m), c')"
    and recv_defined: "valid c \<Longrightarrow> ch_recv io c sz want \<noteq> Some (Inl (Undefined m), c')"

text \<open>A connection within the process: \<open>fst\<close> is what is still to be read, \<open>snd\<close> what was written. It
  blocks (-2) when nothing is there, like a non-blocking socket.\<close>

definition loopback :: "(bytes \<times> bytes) channel" where
  "loopback = \<lparr>ch_send = (\<lambda>(i, s) d. Some (Inr (int (length d)), (i, s @ d))),
     ch_recv = (\<lambda>(i, s) sz want.
       if sz < want then Some (Inl (channel_error ''buffer is too small for desired size''), (i, s))
       else if i = [] then Some (Inr (- 2, []), (i, s))
       else let n = unat (if want = 0 then sz else want)
            in Some (Inr (int (length (take n i)), take n i), (drop n i, s))),
     ch_can_read = (\<lambda>(i, s). (Inr (i \<noteq> []), (i, s))), ch_nonblocking = (\<lambda>_. True)\<rparr>"

lemma loopback_eager: "eager_channel loopback (\<lambda>_. True) snd fst (\<lambda>_. True)"
proof
  fix c :: "bytes \<times> bytes" and sz want :: u64
  show "sz < want \<Longrightarrow> \<exists>e. ch_recv loopback c sz want = Some (Inl (channel_error e), c)"
    by (cases c) (simp add: loopback_def)
next
  fix c c' :: "bytes \<times> bytes" and sz want :: u64 and n d
  assume "ch_recv loopback c sz want = Some (Inr (n, d), c')"
  then show "True \<and> - (2 ^ 63) \<le> n \<and> length d = nat n \<and> length d \<le> unat sz \<and>
      (want \<noteq> 0 \<longrightarrow> length d \<le> unat want) \<and> fst c = d @ fst c'"
    by (cases c) (auto simp: loopback_def not_less word_le_nat_alt min_le_iff_disj Let_def split: if_splits)
qed (auto simp: loopback_def Let_def take_eq_Nil not_less split: if_splits)

interpretation loop: eager_channel loopback "\<lambda>_. True" snd fst "\<lambda>_. True"
  by (rule loopback_eager)

lemma loopback_prompt: "prompt_channel loopback (\<lambda>_. True) snd fst (\<lambda>_. True)"
  by unfold_locales (auto simp: loopback_def Let_def)

interpretation loop_prompt: prompt_channel loopback "\<lambda>_. True" snd fst "\<lambda>_. True"
  by (rule loopback_prompt)

lemma loopback_defined: "defined_channel loopback (\<lambda>_. True) snd fst"
  by unfold_locales (auto simp: loopback_def Let_def split: if_splits)

interpretation loop_defined: defined_channel loopback "\<lambda>_. True" snd fst
  by (rule loopback_defined)

text \<open>A connection on which every call moves one character.\<close>

definition trickle :: "(bytes \<times> bytes) channel" where
  "trickle = \<lparr>ch_send = (\<lambda>(i, s) d. Some (Inr (int (length (take 1 d))), (i, s @ take 1 d))),
     ch_recv = (\<lambda>(i, s) sz want.
       if sz < want then Some (Inl (channel_error ''buffer is too small for desired size''), (i, s))
       else if i = [] \<or> sz = 0 then Some (Inr (- 2, []), (i, s))
       else Some (Inr (1, [hd i]), (tl i, s))),
     ch_can_read = (\<lambda>(i, s). (Inr (i \<noteq> []), (i, s))), ch_nonblocking = (\<lambda>_. True)\<rparr>"

lemma trickle_laws: "channel_laws trickle (\<lambda>_. True) snd fst"
proof unfold_locales
  fix c c' :: "bytes \<times> bytes" and sz want :: u64 and n d
  assume "ch_recv trickle c sz want = Some (Inr (n, d), c')"
  then show "True \<and> - (2 ^ 63) \<le> n \<and> length d = nat n \<and> length d \<le> unat sz \<and>
      (want \<noteq> 0 \<longrightarrow> length d \<le> unat want) \<and> fst c = d @ fst c'"
    by (cases c) (auto simp: trickle_def unat_gt_0 Suc_le_eq split: if_splits)
qed (auto simp: trickle_def min_def le_Suc_eq Suc_le_eq split: if_splits)

interpretation trickling: channel_laws trickle "\<lambda>_. True" snd fst
  by (rule trickle_laws)

section \<open>Buffers held by value\<close>

text \<open>A buffer object with its array. A component's own buffers do not share their arrays with each
  other; the messages it hands out are modelled as their bytes.\<close>

record local_buffer = buffer_impl +
  array :: bytes

definition local_of_bytes :: "bytes \<Rightarrow> local_buffer" where
  "local_of_bytes bs = \<lparr>m_data = Some 0, m_size = of_nat (length bs), m_orig_size = of_nat (length bs),
     m_position = 0, m_own_data = True, m_refs = 1, array = bs\<rparr>"

definition local_sized :: "nat \<Rightarrow> local_buffer" where
  "local_sized n = local_of_bytes (replicate n 0)"

definition local_empty :: local_buffer where
  "local_empty = \<lparr>m_data = None, m_size = 0, m_orig_size = 0, m_position = 0, m_own_data = True, m_refs = 1, array = []\<rparr>"

definition local_contents :: "local_buffer \<Rightarrow> bytes" where
  "local_contents b = take (unat (buffer_size b)) (drop (unat (m_position b)) (array b))"

text \<open>Bytes written at \<open>ptr()\<close>, and the position moved on.\<close>

definition local_write :: "bytes \<Rightarrow> local_buffer \<Rightarrow> local_buffer" where
  "local_write d b = b\<lparr>array := memcpy_at (array b) (unat (m_position b)) d\<rparr>"

definition local_advance :: "int \<Rightarrow> local_buffer \<Rightarrow> local_buffer" where
  "local_advance n b = set_position (position b + of_int n) b"

text \<open>A negative \<open>ssize_t\<close>, converted to \<open>size_t\<close>, is at least 2^63.\<close>

lemma unat_negative:
  assumes "- (2 ^ 63) \<le> n" and "n < 0"
  shows "2 ^ 63 \<le> unat (of_int n :: u64)"
proof -
  have "uint (of_int n :: u64) = n mod 2 ^ 64" unfolding uint_word_of_int by simp
  also have "\<dots> = (n + 2 ^ 64) mod 2 ^ 64" by (simp only: mod_add_self2)
  also have "\<dots> = n + 2 ^ 64" using assms by (intro mod_pos_pos_trivial) simp_all
  finally have "uint (of_int n :: u64) = n + 2 ^ 64" .
  then have "int (unat (of_int n :: u64)) = n + 2 ^ 64" by (simp only: uint_nat [symmetric] of_nat_unat)
  then have "int (2 ^ 63) \<le> int (unat (of_int n :: u64))" using assms by simp
  then show ?thesis by (simp only: of_nat_le_iff)
qed

lemma local_contents_of_bytes: "length bs < 2 ^ 64 \<Longrightarrow> local_contents (local_of_bytes bs) = bs"
  by (simp add: local_contents_def local_of_bytes_def buffer_size_def unat_of_nat_eq)

definition local_ok :: "local_buffer \<Rightarrow> bool" where
  "local_ok b \<longleftrightarrow> m_position b \<le> m_size b \<and> m_size b \<le> m_orig_size b \<and> unat (m_orig_size b) = length (array b)"

lemma local_of_bytes_ok: "length bs < 2 ^ 64 \<Longrightarrow> local_ok (local_of_bytes bs)"
  by (simp add: local_ok_def local_of_bytes_def unat_of_nat_eq)

lemma local_empty_ok: "local_ok local_empty"
  by (simp add: local_ok_def local_empty_def)

lemma length_local_contents: "local_ok b \<Longrightarrow> length (local_contents b) = unat (m_size b) - unat (m_position b)"
  by (auto simp: local_ok_def local_contents_def buffer_size_def unat_sub word_le_nat_alt)

lemma local_advance_contents:
  assumes "local_ok b" and "0 \<le> n" and "nat n \<le> length (local_contents b)"
  shows "local_contents (local_advance n b) = drop (nat n) (local_contents b)" and "local_ok (local_advance n b)"
proof -
  have l: "length (local_contents b) = unat (m_size b) - unat (m_position b)"
    using length_local_contents [OF assms(1)] .
  have sz: "unat (m_position b) \<le> unat (m_size b)" "unat (m_size b) < 2 ^ 64"
    using assms(1) unsigned_less [of "m_size b", where 'a = nat] by (simp_all add: local_ok_def word_le_nat_alt)
  have w: "(of_int n :: u64) = of_nat (nat n)" using assms(2) by simp
  have p: "unat (m_position b + of_int n) = unat (m_position b) + nat n"
    unfolding w using assms(3) l sz by (subst unat_add_small) (simp_all add: unat_of_nat_eq)
  have a: "local_advance n b = b\<lparr>m_position := m_position b + of_int n\<rparr>"
    using assms(3) l sz p by (simp add: local_advance_def set_position_def position_def word_less_nat_alt)
  show "local_ok (local_advance n b)" using assms(1,3) l sz p unfolding a by (simp add: local_ok_def word_le_nat_alt)
  have "unat (m_size b - (m_position b + of_int n)) = unat (m_size b) - (unat (m_position b) + nat n)"
    using p assms(3) l sz by (subst unat_sub) (simp_all add: word_le_nat_alt)
  moreover have "unat (m_size b - m_position b) = unat (m_size b) - unat (m_position b)"
    using sz by (subst unat_sub) (simp_all add: word_le_nat_alt)
  ultimately show "local_contents (local_advance n b) = drop (nat n) (local_contents b)"
    unfolding a by (simp add: local_contents_def buffer_size_def p drop_take add.commute)
qed

text \<open>The count that \<open>send\<close> returns, compared with the size of the buffer as a \<open>size_t\<close>.\<close>

lemma buffer_size_contents: "local_ok b \<Longrightarrow> unat (buffer_size b) = length (local_contents b)"
  by (simp add: length_local_contents unat_buffer_size local_ok_def)

lemma local_contents_bound: "local_ok b \<Longrightarrow> length (local_contents b) \<le> length (array b)"
  using length_local_contents unfolding local_ok_def word_le_nat_alt by fastforce

lemma count_is_nat:
  assumes "- (2 ^ 63) \<le> n" and "k < 2 ^ 63" and "n \<le> int k"
  shows "(of_int n :: u64) = of_nat k \<longleftrightarrow> n = int k"
proof (cases "0 \<le> n")
  case True
  have "unat (of_int n :: u64) = nat n"
    using True assms(2,3) unat_of_nat_eq [of "nat n", where 'a = 64] by simp
  moreover have "unat (of_nat k :: u64) = k" using assms(2) by (intro unat_of_nat_eq) simp
  ultimately show ?thesis using True by (auto simp: unat_inject [symmetric])
next
  case False
  then have "2 ^ 63 \<le> unat (of_int n :: u64)" using assms(1) by (intro unat_negative) simp_all
  moreover have "unat (of_nat k :: u64) = k" using assms(2) by (intro unat_of_nat_eq) simp
  ultimately have "(of_int n :: u64) \<noteq> of_nat k" using assms(2) by auto
  then show ?thesis using False by simp
qed

lemma count_is_size:
  assumes "local_ok b" and "length (array b) < 2 ^ 63" and "- (2 ^ 63) \<le> n" and "n \<le> int (length (local_contents b))"
  shows "of_int n = buffer_size b \<longleftrightarrow> n = int (length (local_contents b))"
proof -
  have "buffer_size b = of_nat (length (local_contents b))" by (simp add: buffer_size_contents [OF assms(1), symmetric])
  then show ?thesis using count_is_nat assms local_contents_bound [OF assms(1)] by simp
qed

lemma local_advance_array [simp]: "array (local_advance n b) = array b"
  by (simp add: local_advance_def set_position_def)

end
