(* ===== verification/Ez_Smp.thy ===== *)
theory Ez_Smp
  imports Ez_Channel Ez_Bytes
begin

text \<open>
  \<open>ez::smp\<close> (\<open>include/ez/smp.hpp\<close>, \<open>source/smp.cpp\<close>): messages of a header and a body over a channel.
  A frame is the magic word, the two sizes and the two parts. The channel is a parameter. Every
  operation gives the returned value or the thrown exception together with the state it leaves, and
  \<open>None\<close> when the channel does not return.
\<close>

section \<open>State\<close>

datatype state_e = waiting_meta | waiting_header | waiting_body | sending_data | send_complete

record 'c smp =
  m_state :: state_e
  m_header :: local_buffer
  m_body :: local_buffer
  m_send_buffer :: local_buffer
  m_new_header :: bool
  m_meta :: bytes
  m_header_size :: u32
  m_body_size :: u32
  m_channel :: 'c

type_synonym message = "bytes \<times> bytes"

definition MAX_HEADER :: u32 where "MAX_HEADER = 1024 * 1024 * 10"
definition MAX_DATA :: u32 where "MAX_DATA = 1024 * 1024 * 10"
definition MAGIC :: bytes where "MAGIC = str ''SMPm''"

abbreviation smp_error :: "string \<Rightarrow> fault" where
  "smp_error msg \<equiv> Throw (Smp_error msg)"

definition smp_reset :: "'c smp \<Rightarrow> 'c smp" where
  "smp_reset st =
     (let st = st\<lparr>m_state := waiting_meta\<rparr>;
          st = (if m_new_header st \<or> buffer_size (m_header st) < 12 then st\<lparr>m_header := local_sized 4096\<rparr> else st);
          st = st\<lparr>m_new_header := False, m_body := local_empty, m_header_size := 0, m_body_size := 0\<rparr>
      in st\<lparr>m_header := set_position 0 (m_header st)\<rparr>)"

text \<open>The constructor; \<open>junk\<close> is the uninitialised \<open>m_meta\<close>.\<close>

definition smp_new :: "bytes \<Rightarrow> 'c \<Rightarrow> 'c smp" where
  "smp_new junk io = smp_reset \<lparr>m_state = waiting_meta, m_header = local_empty, m_body = local_empty,
     m_send_buffer = local_empty, m_new_header = False, m_meta = junk, m_header_size = 0, m_body_size = 0,
     m_channel = io\<rparr>"

definition have_body :: "'c smp \<Rightarrow> bool" where
  "have_body st \<longleftrightarrow> m_body_size st \<noteq> 0"

section \<open>Sending\<close>

text \<open>What \<open>send\<close> and \<open>send_more\<close> do with the count that the channel returns; the count is compared with
  the size as a \<open>size_t\<close>.\<close>

definition smp_sent :: "'c smp \<Rightarrow> int \<Rightarrow> 'c smp" where
  "smp_sent st sz =
     (if of_int sz = buffer_size (m_send_buffer st)
      then st\<lparr>m_state := send_complete, m_send_buffer := local_empty\<rparr>
      else if sz > 0 then st\<lparr>m_send_buffer := local_advance sz (m_send_buffer st)\<rparr>
      else st)"

definition smp_push :: "'c channel \<Rightarrow> 'c smp \<Rightarrow> (unit res \<times> 'c smp) option" where
  "smp_push io st =
     (case ch_send io (m_channel st) (local_contents (m_send_buffer st)) of
        None \<Rightarrow> None
      | Some (Inl e, c) \<Rightarrow> Some (Inl e, st\<lparr>m_channel := c\<rparr>)
      | Some (Inr sz, c) \<Rightarrow> Some (Inr (), smp_sent (st\<lparr>m_channel := c\<rparr>) sz))"

definition smp_send_more :: "'c channel \<Rightarrow> 'c smp \<Rightarrow> (unit res \<times> 'c smp) option" where
  "smp_send_more io st = (if m_state st = sending_data then smp_push io st else Some (Inr (), st))"

text \<open>The frame as \<open>send\<close> builds it: the sizes are 32 bits, the \<open>memcpy\<close> calls copy \<open>size()\<close> bytes.\<close>

definition smp_frame :: "bytes \<Rightarrow> bytes \<Rightarrow> local_buffer res" where
  "smp_frame header body =
     (let header_size = of_nat (length header) :: u32; body_size = of_nat (length body) :: u32;
          total = unat (12 + header_size + body_size);
          a = replicate total 0;
          a = memcpy_at a 0 MAGIC;
          a = memcpy_at a 4 (STORE32LE header_size);
          a = memcpy_at a 8 (STORE32LE body_size)
      in if total < 12 + length header then Inl (Undefined ''memcpy past the end of the send buffer'')
         else
           let a = memcpy_at a 12 header
           in if body_size > 0 then
                if total < 12 + unat header_size + length body
                then Inl (Undefined ''memcpy past the end of the send buffer'')
                else Inr (local_of_bytes (memcpy_at a (12 + unat header_size) body))
              else Inr (local_of_bytes a))"

definition smp_send :: "'c channel \<Rightarrow> bytes \<Rightarrow> bytes \<Rightarrow> 'c smp \<Rightarrow> (unit res \<times> 'c smp) option" where
  "smp_send io header body st =
     (let st = st\<lparr>m_state := sending_data\<rparr>;
          header_size = of_nat (length header) :: u32; body_size = of_nat (length body) :: u32
      in if header_size = 0 \<or> header_size > MAX_HEADER then Some (Inl (smp_error ''invalid header size''), st)
         else if body_size > MAX_DATA then Some (Inl (smp_error ''invalid body size''), st)
         else
           (case smp_frame header body of
              Inl e \<Rightarrow> Some (Inl e, st)
            | Inr b \<Rightarrow> smp_push io (st\<lparr>m_send_buffer := b\<rparr>)))"

section \<open>Receiving\<close>

text \<open>The cases of the \<open>switch\<close>, in the order in which they fall through.\<close>

definition smp_recv_body :: "'c channel \<Rightarrow> 'c smp \<Rightarrow> (message res \<times> 'c smp) option" where
  "smp_recv_body io st =
     (let need = ucast (m_body_size st) - position (m_body st)
      in case ch_recv io (m_channel st) (buffer_size (m_body st)) need of
           None \<Rightarrow> None
         | Some (Inl e, c) \<Rightarrow> Some (Inl e, st\<lparr>m_channel := c\<rparr>)
         | Some (Inr (sz, d), c) \<Rightarrow>
             let st = st\<lparr>m_channel := c, m_body := local_write d (m_body st)\<rparr>
             in if of_int sz = need then
                  let st = st\<lparr>m_body := set_position 0 (m_body st), m_state := waiting_meta\<rparr>
                  in Some (Inr (local_contents (m_header st), local_contents (m_body st)), st)
                else if sz > 0 then
                  Some (Inl (Throw (Runtime_error ''smp: should never come here'')),
                        st\<lparr>m_body := local_advance sz (m_body st)\<rparr>)
                else Some (Inr ([], []), st))"

definition smp_header_done :: "'c channel \<Rightarrow> 'c smp \<Rightarrow> (message res \<times> 'c smp) option" where
  "smp_header_done io st =
     (if m_body_size st > 0 \<and> m_body_size st \<le> MAX_DATA then
        smp_recv_body io (st\<lparr>m_body := local_sized (unat (m_body_size st)), m_state := waiting_body\<rparr>)
      else if m_body_size st > 0 then Some (Inl (smp_error ''smp: body size is bigger than allowed''), st)
      else Some (Inr (local_contents (m_header st), []), st))"

definition smp_recv_header :: "'c channel \<Rightarrow> 'c smp \<Rightarrow> (message res \<times> 'c smp) option" where
  "smp_recv_header io st =
     (let need = ucast (m_header_size st) - position (m_header st)
      in case ch_recv io (m_channel st) (buffer_size (m_header st)) need of
           None \<Rightarrow> None
         | Some (Inl e, c) \<Rightarrow> Some (Inl e, st\<lparr>m_channel := c\<rparr>)
         | Some (Inr (sz, d), c) \<Rightarrow>
             let st = st\<lparr>m_channel := c, m_header := local_write d (m_header st)\<rparr>
             in if of_int sz = need then
                  smp_header_done io (st\<lparr>m_header := set_size (ucast (m_header_size st)) (set_position 0 (m_header st))\<rparr>)
                else if sz > 0 then
                  smp_header_done io (st\<lparr>m_header := local_advance sz (m_header st)\<rparr>)
                else Some (Inr ([], []), st))"

definition smp_recv_meta :: "'c channel \<Rightarrow> 'c smp \<Rightarrow> (message res \<times> 'c smp) option" where
  "smp_recv_meta io st =
     (let need = 12 - position (m_header st)
      in case ch_recv io (m_channel st) (buffer_size (m_header st)) need of
           None \<Rightarrow> None
         | Some (Inl e, c) \<Rightarrow> Some (Inl e, st\<lparr>m_channel := c\<rparr>)
         | Some (Inr (sz, d), c) \<Rightarrow>
             let st = st\<lparr>m_channel := c, m_header := local_write d (m_header st)\<rparr>
             in if of_int sz = need then
                  let st = st\<lparr>m_header := set_position 0 (m_header st)\<rparr>;
                      st = st\<lparr>m_meta := take 12 (drop (unat (position (m_header st))) (array (m_header st)))\<rparr>
                  in if take 4 (m_meta st) = MAGIC then
                       let st = st\<lparr>m_header_size := LOAD32LE (m_meta st) 4, m_body_size := LOAD32LE (m_meta st) 8\<rparr>
                       in if m_header_size st = 0 \<or> m_header_size st > MAX_HEADER
                          then Some (Inl (smp_error ''smp: wrong data format''), st)
                          else
                            let st = (if ucast (m_header_size st) > buffer_size (m_header st)
                                      then st\<lparr>m_new_header := True, m_header := local_sized (unat (m_header_size st))\<rparr>
                                      else st)
                            in smp_recv_header io (st\<lparr>m_state := waiting_header\<rparr>)
                     else Some (Inl (smp_error ''smp: wrong data format''), st)
                else if sz > 0 then smp_recv_header io (st\<lparr>m_header := local_advance sz (m_header st)\<rparr>)
                else Some (Inr ([], []), st))"

definition smp_recv :: "'c channel \<Rightarrow> 'c smp \<Rightarrow> (message res \<times> 'c smp) option" where
  "smp_recv io st =
     (case m_state st of
        sending_data \<Rightarrow> Some (Inl (smp_error ''smp: can't recv while sending''), st)
      | send_complete \<Rightarrow> smp_recv_meta io (smp_reset st)
      | waiting_meta \<Rightarrow> smp_recv_meta io st
      | waiting_header \<Rightarrow> smp_recv_header io st
      | waiting_body \<Rightarrow> smp_recv_body io st)"

section \<open>The wire format\<close>

definition frame :: "bytes \<Rightarrow> bytes \<Rightarrow> bytes" where
  "frame header body = MAGIC @ STORE32LE (of_nat (length header)) @ STORE32LE (of_nat (length body)) @ header @ body"

definition sizes_ok :: "bytes \<Rightarrow> bytes \<Rightarrow> bool" where
  "sizes_ok header body \<longleftrightarrow> 0 < length header \<and> length header \<le> 10485760 \<and> length body \<le> 10485760"

lemma unat_sizes:
  assumes "sizes_ok h b"
  shows "unat (of_nat (length h) :: u32) = length h" and "unat (of_nat (length b) :: u32) = length b"
    and "unat (12 + of_nat (length h) + of_nat (length b) :: u32) = 12 + length h + length b"
    and "(of_nat (length h) :: u32) \<noteq> 0" and "\<not> of_nat (length h) > MAX_HEADER" and "\<not> of_nat (length b) > MAX_DATA"
proof -
  show h: "unat (of_nat (length h) :: u32) = length h" and b: "unat (of_nat (length b) :: u32) = length b"
    using assms by (simp_all add: sizes_ok_def unat_of_nat_eq)
  show "unat (12 + of_nat (length h) + of_nat (length b) :: u32) = 12 + length h + length b"
    using assms h b by (simp add: unat_add_small sizes_ok_def)
  show "(of_nat (length h) :: u32) \<noteq> 0" using h assms by (auto simp: sizes_ok_def)
  show "\<not> of_nat (length h) > MAX_HEADER" "\<not> of_nat (length b) > MAX_DATA"
    using assms h b by (simp_all add: word_less_nat_alt sizes_ok_def MAX_HEADER_def MAX_DATA_def)
qed

lemma length_MAGIC [simp]: "length MAGIC = 4" by (simp add: MAGIC_def)

lemma memcpy_fill:
  assumes "off = length xs" and "length ys = n"
  shows "memcpy_at (xs @ replicate (n + m) 0) off ys = (xs @ ys) @ replicate m 0"
  using assms by (simp add: memcpy_at_def)

lemma smp_frame_frame:
  assumes "sizes_ok h b"
  shows "smp_frame h b = Inr (local_of_bytes (frame h b))"
proof -
  note u = unat_sizes [OF assms]
  have 1: "memcpy_at (replicate (12 + length h + length b) 0) 0 MAGIC = MAGIC @ replicate (8 + length h + length b) 0"
    using memcpy_fill [of 0 "[]" MAGIC 4 "8 + length h + length b"] by (simp add: add.assoc)
  have 2: "memcpy_at (MAGIC @ replicate (8 + length h + length b) 0) 4 s =
      (MAGIC @ s) @ replicate (4 + length h + length b) 0" if "length s = 4" for s
    using memcpy_fill [of 4 MAGIC s 4 "4 + length h + length b"] that by (simp add: add.assoc)
  have 3: "memcpy_at ((MAGIC @ s) @ replicate (4 + length h + length b) 0) 8 t =
      ((MAGIC @ s) @ t) @ replicate (length h + length b) 0" if "length s = 4" "length t = 4" for s t
    using memcpy_fill [of 8 "MAGIC @ s" t 4 "length h + length b"] that by (simp add: add.assoc)
  have 4: "memcpy_at (((MAGIC @ s) @ t) @ replicate (length h + length b) 0) 12 h =
      (((MAGIC @ s) @ t) @ h) @ replicate (length b) 0" if "length s = 4" "length t = 4" for s t
    using memcpy_fill [of 12 "(MAGIC @ s) @ t" h "length h" "length b"] that by simp
  have 5: "memcpy_at ((((MAGIC @ s) @ t) @ h) @ replicate (length b) 0) (12 + length h) b =
      (((MAGIC @ s) @ t) @ h) @ b" if "length s = 4" "length t = 4" for s t
    using memcpy_fill [of "12 + length h" "((MAGIC @ s) @ t) @ h" b "length b" 0] that by simp
  have z: "\<not> 0 < (of_nat (length b) :: u32) \<longleftrightarrow> b = []" using u(2) by (auto simp: word_less_nat_alt)
  show ?thesis
    using u z by (simp only: smp_frame_def Let_def u 1 2 3 4 5 length_STORE32LE) (auto simp: frame_def)
qed

section \<open>Lemmas for every channel\<close>

text \<open>The state of a sender: what the channel has taken and what is left make up the frame.\<close>

definition sending :: "('c \<Rightarrow> bool) \<Rightarrow> ('c \<Rightarrow> bytes) \<Rightarrow> bytes \<Rightarrow> 'c smp \<Rightarrow> bool" where
  "sending valid sent F st \<longleftrightarrow> valid (m_channel st) \<and>
     ((m_state st = sending_data \<and> local_ok (m_send_buffer st) \<and> local_contents (m_send_buffer st) \<noteq> [] \<and>
        sent (m_channel st) @ local_contents (m_send_buffer st) = F \<and> length (array (m_send_buffer st)) < 2 ^ 32) \<or>
     (m_state st = send_complete \<and> sent (m_channel st) = F))"

lemma smp_sent_sending:
  assumes "local_ok (m_send_buffer st)" and "local_contents (m_send_buffer st) \<noteq> []" and "m_state st = sending_data"
    and "length (array (m_send_buffer st)) < 2 ^ 32" and "sz \<le> int (length (local_contents (m_send_buffer st)))"
    and "sent (m_channel st) = S @ take (nat sz) (local_contents (m_send_buffer st))"
    and "- (2 ^ 63) \<le> sz" and "valid (m_channel st)"
  shows "sending valid sent (S @ local_contents (m_send_buffer st)) (smp_sent st sz)"
proof -
  let ?b = "m_send_buffer st"
  have eq: "of_int sz = buffer_size ?b \<longleftrightarrow> sz = int (length (local_contents ?b))"
    using assms by (intro count_is_size) simp_all
  show ?thesis
  proof (cases "sz = int (length (local_contents ?b))")
    case full: True
    then show ?thesis using eq assms(6,8) by (simp add: smp_sent_def sending_def)
  next
    case False
    show ?thesis
    proof (cases "0 < sz")
      case True
      then have n: "nat sz < length (local_contents ?b)" using False assms(5) by linarith
      then show ?thesis using False True eq local_advance_contents [OF assms(1), of sz] assms
        by (simp add: smp_sent_def sending_def)
    next
      case neg: False
      then show ?thesis using False eq assms by (simp add: smp_sent_def sending_def)
    qed
  qed
qed

lemma length_frame: "length (frame h b) = 12 + length h + length b"
  by (simp add: frame_def)

context channel_laws
begin

lemma push_sending:
  assumes "smp_push io st = Some (r, st')" and "local_ok (m_send_buffer st)"
    and "local_contents (m_send_buffer st) \<noteq> []" and "m_state st = sending_data"
    and "length (array (m_send_buffer st)) < 2 ^ 32" and "valid (m_channel st)"
  shows "sending valid sent (sent (m_channel st) @ local_contents (m_send_buffer st)) st'"
proof -
  consider e c where "ch_send io (m_channel st) (local_contents (m_send_buffer st)) = Some (Inl e, c)" "st' = st\<lparr>m_channel := c\<rparr>"
    | sz c where "ch_send io (m_channel st) (local_contents (m_send_buffer st)) = Some (Inr sz, c)"
      "st' = smp_sent (st\<lparr>m_channel := c\<rparr>) sz"
    using assms(1) by (auto simp: smp_push_def split: option.splits sum.splits prod.splits)
  then show ?thesis
  proof cases
    case 1
    then show ?thesis using send_fault [OF assms(6) 1(1)] assms by (simp add: sending_def)
  next
    case 2
    then show ?thesis
      using send_value [OF assms(6) 2(1)] assms smp_sent_sending [of "st\<lparr>m_channel := c\<rparr>" sz sent "sent (m_channel st)" valid] by simp
  qed
qed

lemma send_sending:
  assumes "smp_send io h b st = Some (r, st')" and "sizes_ok h b" and "valid (m_channel st)"
  shows "sending valid sent (sent (m_channel st) @ frame h b) st'"
proof -
  have l: "length (frame h b) < 2 ^ 32" using assms(2) by (simp add: length_frame sizes_ok_def)
  have c: "local_contents (local_of_bytes (frame h b)) = frame h b"
    using l by (intro local_contents_of_bytes) simp
  have o: "local_ok (local_of_bytes (frame h b))" using l by (intro local_of_bytes_ok) simp
  have ne: "frame h b \<noteq> []" using length_frame [of h b] by auto
  have "smp_push io (st\<lparr>m_state := sending_data, m_send_buffer := local_of_bytes (frame h b)\<rparr>) = Some (r, st')"
    using assms(1) unat_sizes [OF assms(2)] smp_frame_frame [OF assms(2)] by (simp add: smp_send_def Let_def)
  from push_sending [OF this] show ?thesis using c o ne l assms(3) by (simp add: local_of_bytes_def)
qed

lemma send_more_sending:
  assumes "smp_send_more io st = Some (r, st')" and "sending valid sent F st"
  shows "sending valid sent F st'"
proof (cases "m_state st = sending_data")
  case True
  then have s: "local_ok (m_send_buffer st)" "local_contents (m_send_buffer st) \<noteq> []"
    "sent (m_channel st) @ local_contents (m_send_buffer st) = F" "length (array (m_send_buffer st)) < 2 ^ 32"
    "valid (m_channel st)"
    using assms(2) by (simp_all add: sending_def)
  have "smp_push io st = Some (r, st')" using assms(1) True by (simp add: smp_send_more_def)
  from push_sending [OF this s(1,2) True s(4,5)] show ?thesis using s(3) by simp
next
  case False
  then show ?thesis using assms by (simp add: smp_send_more_def)
qed

end

text \<open>Sending with any number of later calls of \<open>send_more\<close>, whatever each of them gives.\<close>

fun smp_send_runs :: "'c channel \<Rightarrow> nat \<Rightarrow> 'c smp \<Rightarrow> 'c smp option" where
  "smp_send_runs io 0 st = Some st"
| "smp_send_runs io (Suc n) st =
     (case smp_send_more io st of None \<Rightarrow> None | Some (r, st) \<Rightarrow> smp_send_runs io n st)"

context channel_laws
begin

lemma send_runs_sending:
  "smp_send_runs io n st = Some st' \<Longrightarrow> sending valid sent F st \<Longrightarrow> sending valid sent F st'"
proof (induction n arbitrary: st)
  case (Suc n)
  then show ?case using send_more_sending by (auto split: option.splits prod.splits)
qed simp

lemma send_all:
  assumes "smp_send io h b st = Some (r, st1)" and "sizes_ok h b" and "smp_send_runs io n st1 = Some st2"
    and "valid (m_channel st)"
  shows "(m_state st2 = send_complete \<longrightarrow> sent (m_channel st2) = sent (m_channel st) @ frame h b) \<and>
    (m_state st2 \<noteq> send_complete \<longrightarrow> m_state st2 = sending_data \<and>
      sent (m_channel st2) @ local_contents (m_send_buffer st2) = sent (m_channel st) @ frame h b)"
  using send_runs_sending [OF assms(3) send_sending [OF assms(1,2,4)]] by (auto simp: sending_def)

end

section \<open>Receiving a frame\<close>

lemma memcpy_at_0: "memcpy_at a 0 d = d @ drop (length d) a"
  by (simp add: memcpy_at_def)

text \<open>Bytes written at the start of a buffer and the buffer cut to them.\<close>

lemma local_write_cut:
  assumes "local_ok b" and "m_position b = 0" and "length d \<le> unat (m_size b)" and "unat n = length d"
  shows "local_contents (set_size n (set_position 0 (local_write d b))) = d"
    and "local_ok (set_size n (set_position 0 (local_write d b)))"
    and "m_position (set_size n (set_position 0 (local_write d b))) = 0"
    and "m_size (set_size n (set_position 0 (local_write d b))) = n"
proof -
  have n: "n \<le> m_orig_size b" "length d \<le> length (array b)" "\<not> m_size b < 0"
    using assms by (simp_all add: local_ok_def word_le_nat_alt)
  let ?b = "set_size n (set_position 0 (local_write d b))"
  have b: "?b = b\<lparr>array := d @ drop (length d) (array b), m_position := 0, m_size := n\<rparr>"
    using n assms(2) by (simp add: set_size_def set_position_def local_write_def memcpy_at_0)
  show "local_contents ?b = d" "m_position ?b = 0" "m_size ?b = n"
    unfolding b using assms(4) by (simp_all add: local_contents_def buffer_size_def)
  show "local_ok ?b" unfolding b using n assms(1) by (simp add: local_ok_def)
qed

lemma local_sized_simps [simp]:
  "m_position (local_sized n) = 0" "m_size (local_sized n) = of_nat n" "m_orig_size (local_sized n) = of_nat n"
  "array (local_sized n) = replicate n 0"
  by (simp_all add: local_sized_def local_of_bytes_def)

lemma local_sized_ok: "n < 2 ^ 64 \<Longrightarrow> local_ok (local_sized n)"
  unfolding local_sized_def by (rule local_of_bytes_ok) simp

context eager_channel
begin

lemma recv_body_all:
  assumes "live (m_channel st)" and "incoming (m_channel st) = b @ rest" and "b \<noteq> []"
    and "m_body st = local_sized (length b)" and "unat (m_body_size st) = length b" and "length b < 2 ^ 32"
  shows "\<exists>c'. smp_recv_body io st = Some (Inr (local_contents (m_header st), b),
      st\<lparr>m_channel := c', m_body := set_position 0 (local_write b (m_body st)), m_state := waiting_meta\<rparr>) \<and>
    live c' \<and> incoming c' = rest"
proof -
  have n: "(ucast (m_body_size st) :: u64) = of_nat (length b)" unfolding assms(5) [symmetric] by simp
  have u: "unat (of_nat (length b) :: u64) = length b" using assms(6) by (intro unat_of_nat_eq) simp
  obtain c' where c': "ch_recv io (m_channel st) (of_nat (length b)) (of_nat (length b)) = Some (Inr (int (length b), b), c')"
    "live c'" "incoming c' = rest"
    using eager [OF assms(1,2), of "of_nat (length b)" "of_nat (length b)"] assms(3) u by auto
  have "local_contents (set_position 0 (local_write b (m_body st))) = b"
    using assms(6) u by (simp add: assms(4) local_contents_def set_position_def local_write_def memcpy_at_0 buffer_size_def)
  then show ?thesis
    using c' by (intro exI [of _ c']) (simp add: smp_recv_body_def n assms(4) position_def buffer_size_def Let_def)
qed

lemma recv_header_all:
  assumes "live (m_channel st)" and "incoming (m_channel st) = h @ b @ rest" and "sizes_ok h b"
    and "m_position (m_header st) = 0" and "local_ok (m_header st)" and "length h \<le> unat (m_size (m_header st))"
    and "m_header_size st = of_nat (length h)" and "m_body_size st = of_nat (length b)"
    and "m_state st = waiting_header"
  shows "\<exists>st'. smp_recv_header io st = Some (Inr (h, b), st') \<and> live (m_channel st') \<and> incoming (m_channel st') = rest \<and>
    m_state st' = (if b = [] then waiting_header else waiting_meta) \<and> local_ok (m_header st') \<and>
    m_position (m_header st') = 0 \<and> unat (m_size (m_header st')) = length h \<and>
    m_header_size st' = m_header_size st \<and> m_body_size st' = m_body_size st"
proof -
  note u = unat_sizes [OF assms(3)]
  have h: "h \<noteq> []" "length h < 2 ^ 32" "length b < 2 ^ 32" using assms(3) by (auto simp: sizes_ok_def)
  have uh: "unat (of_nat (length h) :: u64) = length h" using h(2) by (intro unat_of_nat_eq) simp
  have n: "(ucast (m_header_size st) :: u64) = of_nat (length h)"
    unfolding assms(7) by (subst (2) u(1) [symmetric]) (simp only: of_nat_unat)
  obtain c' where c': "ch_recv io (m_channel st) (m_size (m_header st)) (of_nat (length h)) = Some (Inr (int (length h), h), c')"
    "live c'" "incoming c' = b @ rest"
    using eager [OF assms(1,2), of "of_nat (length h)" "m_size (m_header st)"] assms(6) h(1) uh
    by (auto simp: word_le_nat_alt)
  let ?hd = "set_size (of_nat (length h)) (set_position 0 (local_write h (m_header st)))"
  note w = local_write_cut [OF assms(5,4,6) uh]
  let ?st = "st\<lparr>m_channel := c', m_header := ?hd\<rparr>"
  have step: "smp_recv_header io st = smp_header_done io ?st"
    using c'(1) by (simp add: smp_recv_header_def n assms(4) position_def buffer_size_def Let_def)
  show ?thesis
  proof (cases "b = []")
    case True
    then show ?thesis using c' w uh assms(8,9) by (simp add: step smp_header_done_def)
  next
    case False
    then have bs: "0 < m_body_size st" "m_body_size st \<le> MAX_DATA" using u(2,6) by (auto simp: assms(8) word_less_nat_alt word_le_nat_alt not_less)
    let ?st2 = "?st\<lparr>m_body := local_sized (unat (m_body_size st)), m_state := waiting_body\<rparr>"
    have "smp_header_done io ?st = smp_recv_body io ?st2" using bs by (simp add: smp_header_done_def)
    moreover obtain c2 where "smp_recv_body io ?st2 = Some (Inr (local_contents (m_header ?st2), b),
        ?st2\<lparr>m_channel := c2, m_body := set_position 0 (local_write b (m_body ?st2)), m_state := waiting_meta\<rparr>)"
      "live c2" "incoming c2 = rest"
      using recv_body_all [of ?st2 b rest] c' False u(2) h(3) by (auto simp: assms(8))
    ultimately show ?thesis using step w uh False by simp
  qed
qed

end

definition meta :: "bytes \<Rightarrow> bytes \<Rightarrow> bytes" where
  "meta h b = MAGIC @ STORE32LE (of_nat (length h)) @ STORE32LE (of_nat (length b))"

lemma length_meta [simp]: "length (meta h b) = 12"
  by (simp add: meta_def)

lemma frame_meta: "frame h b = meta h b @ h @ b"
  by (simp add: frame_def meta_def)

lemma LOAD32LE_append: "LOAD32LE (xs @ ys) (length xs + k) = LOAD32LE ys k"
  by (simp add: LOAD32LE_def nth_append add.assoc)

lemma LOAD32LE_prefix: "k + 4 \<le> length xs \<Longrightarrow> LOAD32LE (xs @ ys) k = LOAD32LE xs k"
  by (simp add: LOAD32LE_def nth_append)

lemma meta_fields:
  "take 4 (meta h b) = MAGIC" "LOAD32LE (meta h b) 4 = of_nat (length h)" "LOAD32LE (meta h b) 8 = of_nat (length b)"
proof -
  show "take 4 (meta h b) = MAGIC" by (simp add: meta_def)
  show "LOAD32LE (meta h b) 4 = of_nat (length h)"
    using LOAD32LE_append [of MAGIC _ 0] by (simp add: meta_def LOAD32LE_prefix LOAD32LE_STORE32LE)
  show "LOAD32LE (meta h b) 8 = of_nat (length b)"
    using LOAD32LE_append [of "MAGIC @ STORE32LE (of_nat (length h))" "STORE32LE (of_nat (length b))" 0]
    by (simp add: meta_def LOAD32LE_STORE32LE)
qed

text \<open>A receiver between two messages: the header buffer is at its start and has room for the sizes.\<close>

definition between :: "'c smp \<Rightarrow> bool" where
  "between st \<longleftrightarrow> m_state st = waiting_meta \<and> local_ok (m_header st) \<and> m_position (m_header st) = 0 \<and>
     12 \<le> m_size (m_header st)"

lemma set_position_0: "local_ok b \<Longrightarrow> set_position 0 b = b\<lparr>m_position := 0\<rparr>"
  by (simp add: set_position_def)

lemma reset_between:
  assumes "local_ok (m_header st)" and "m_position (m_header st) = 0"
  shows "between (smp_reset st)" and "m_channel (smp_reset st) = m_channel st"
  using assms local_sized_ok [of 4096]
  by (auto simp: smp_reset_def between_def Let_def set_position_0 buffer_size_def not_less local_ok_def)

lemma new_between: "between (smp_new junk c)" "m_channel (smp_new junk c) = c"
proof -
  have e: "local_ok local_empty" "m_position local_empty = 0" by (simp add: local_empty_ok, simp add: local_empty_def)
  show "between (smp_new junk c)" "m_channel (smp_new junk c) = c"
    unfolding smp_new_def using e by (simp_all add: reset_between)
qed

context eager_channel
begin

lemma recv_frame:
  assumes "live (m_channel st)" and "incoming (m_channel st) = frame h b @ rest" and "sizes_ok h b" and "between st"
  shows "\<exists>st'. smp_recv io st = Some (Inr (h, b), st') \<and> live (m_channel st') \<and> incoming (m_channel st') = rest \<and>
    m_state st' = (if b = [] then waiting_header else waiting_meta) \<and> local_ok (m_header st') \<and>
    m_position (m_header st') = 0 \<and> unat (m_size (m_header st')) = length h \<and>
    m_header_size st' = of_nat (length h) \<and> m_body_size st' = of_nat (length b)"
proof -
  note u = unat_sizes [OF assms(3)]
  let ?hd = "m_header st"
  have hd: "m_state st = waiting_meta" "local_ok ?hd" "m_position ?hd = 0" "12 \<le> m_size ?hd"
    using assms(4) by (simp_all add: between_def)
  have h: "h \<noteq> []" "length h < 2 ^ 32" using assms(3) by (auto simp: sizes_ok_def)
  obtain c' where c': "ch_recv io (m_channel st) (m_size ?hd) 12 = Some (Inr (12, meta h b), c')"
    "live c'" "incoming c' = h @ b @ rest"
    using eager [OF assms(1), of "meta h b" "h @ b @ rest" 12 "m_size ?hd"] assms(2) hd(4)
    by (auto simp: frame_meta simp flip: length_0_conv)
  define st1 where "st1 = st\<lparr>m_channel := c', m_header := set_position 0 (local_write (meta h b) ?hd), m_meta := meta h b,
      m_header_size := of_nat (length h), m_body_size := of_nat (length b)\<rparr>"
  define st2 where "st2 = (if ucast (of_nat (length h) :: u32) > m_size ?hd
      then st1\<lparr>m_new_header := True, m_header := local_sized (length h)\<rparr> else st1)\<lparr>m_state := waiting_header\<rparr>"
  have w: "set_position 0 (local_write (meta h b) ?hd) = ?hd\<lparr>array := meta h b @ drop 12 (array ?hd)\<rparr>"
    using hd(3) by (simp add: set_position_def local_write_def memcpy_at_0)
  have step: "smp_recv io st = smp_recv_header io st2"
    using c'(1) u hd
    by (simp add: smp_recv_def smp_recv_meta_def position_def buffer_size_def w meta_fields st2_def st1_def Let_def)
  have "(ucast (of_nat (length h) :: u32) :: u64) = of_nat (length h)"
    by (subst (2) u(1) [symmetric]) (simp only: of_nat_unat)
  then have uh: "unat (ucast (of_nat (length h) :: u32) :: u64) = length h"
    using h(2) by (simp only:) (rule unat_of_nat_eq, simp)
  have len: "length (array ?hd) = unat (m_orig_size ?hd)" "unat (m_size ?hd) \<le> unat (m_orig_size ?hd)"
    using hd(2) by (simp_all add: local_ok_def word_le_nat_alt)
  have "12 \<le> length (array ?hd)" using hd(4) len by (simp add: word_le_nat_alt)
  then have ok1: "local_ok (m_header st1)"
    using hd(2,3) unfolding st1_def w by (simp add: local_ok_def)
  have "local_ok (m_header st2)" "m_position (m_header st2) = 0" "length h \<le> unat (m_size (m_header st2))"
    using ok1 local_sized_ok [of "length h"] h(2) uh hd(3)
    by (auto simp: st2_def st1_def w word_less_nat_alt unat_of_nat_eq not_less)
  moreover have "m_channel st2 = c'" "m_header_size st2 = of_nat (length h)" "m_body_size st2 = of_nat (length b)"
    "m_state st2 = waiting_header"
    by (simp_all add: st2_def st1_def)
  ultimately show ?thesis
    using recv_header_all [of st2 h b rest] c'(2,3) assms(3) by (simp add: step)
qed

text \<open>After a message without a body the receiver still waits for a header of the old size.\<close>

lemma recv_after_bodyless:
  assumes "live (m_channel st)" and "incoming (m_channel st) = frame h [] @ rest" and "sizes_ok h []"
    and "between st" and "length h \<le> length rest"
  shows "\<exists>st1 st2. smp_recv io st = Some (Inr (h, []), st1) \<and>
    smp_recv io st1 = Some (Inr (take (length h) rest, []), st2) \<and> m_state st2 = waiting_header \<and>
    incoming (m_channel st2) = drop (length h) rest"
proof -
  obtain st1 where st1: "smp_recv io st = Some (Inr (h, []), st1)" "live (m_channel st1)" "incoming (m_channel st1) = rest"
    "m_state st1 = waiting_header" "local_ok (m_header st1)" "m_position (m_header st1) = 0"
    "unat (m_size (m_header st1)) = length h" "m_header_size st1 = of_nat (length h)" "m_body_size st1 = of_nat (length [])"
    using recv_frame [OF assms(1-4)] by auto
  have l: "length (take (length h) rest) = length h" using assms(5) by simp
  then have "sizes_ok (take (length h) rest) []" using assms(3) unfolding sizes_ok_def by argo
  then have "\<exists>st2. smp_recv_header io st1 = Some (Inr (take (length h) rest, []), st2) \<and>
      incoming (m_channel st2) = drop (length h) rest \<and> m_state st2 = waiting_header"
    using recv_header_all [of st1 "take (length h) rest" "[]" "drop (length h) rest"] st1 l by auto
  then show ?thesis using st1(1,4) by (auto simp: smp_recv_def)
qed

text \<open>After a message whose header is shorter than the 12 bytes of the sizes the header buffer is too
  small for the next ones.\<close>

lemma recv_after_short_header:
  assumes "live (m_channel st)" and "incoming (m_channel st) = frame h b @ rest" and "sizes_ok h b"
    and "between st" and "b \<noteq> []" and "length h < 12"
  shows "\<exists>st1 e. smp_recv io st = Some (Inr (h, b), st1) \<and> smp_recv io st1 = Some (Inl (channel_error e), st1)"
proof -
  obtain st1 where st1: "smp_recv io st = Some (Inr (h, b), st1)" "m_state st1 = waiting_meta"
    "m_position (m_header st1) = 0" "unat (m_size (m_header st1)) = length h"
    using recv_frame [OF assms(1-4)] assms(5) by auto
  have "m_size (m_header st1) < 12" using st1(4) assms(6) by (simp add: word_less_nat_alt)
  then obtain e where "ch_recv io (m_channel st1) (m_size (m_header st1)) 12 = Some (Inl (channel_error e), m_channel st1)"
    using recv_too_big by blast
  then have "smp_recv io st1 = Some (Inl (channel_error e), st1)"
    using st1(2,3) by (simp add: smp_recv_def smp_recv_meta_def position_def buffer_size_def)
  with st1(1) show ?thesis by blast
qed

end

text \<open>Receiving several messages.\<close>

fun smp_recv_runs :: "'c channel \<Rightarrow> nat \<Rightarrow> 'c smp \<Rightarrow> (message list \<times> 'c smp) option" where
  "smp_recv_runs io 0 st = Some ([], st)"
| "smp_recv_runs io (Suc n) st =
     (case smp_recv io st of
        Some (Inr m, st) \<Rightarrow> (case smp_recv_runs io n st of Some (ms, st) \<Rightarrow> Some (m # ms, st) | None \<Rightarrow> None)
      | _ \<Rightarrow> None)"

text \<open>The messages that the receiver survives: a body, and a header of 12 bytes or more.\<close>

definition keeps_framing :: "message \<Rightarrow> bool" where
  "keeps_framing m \<longleftrightarrow> (case m of (h, b) \<Rightarrow> sizes_ok h b \<and> 12 \<le> length h \<and> b \<noteq> [])"

context eager_channel
begin

lemma recv_messages:
  assumes "live (m_channel st)" and "incoming (m_channel st) = concat (map (\<lambda>(h, b). frame h b) ms) @ rest"
    and "between st" and "list_all keeps_framing ms"
  shows "\<exists>st'. smp_recv_runs io (length ms) st = Some (ms, st') \<and> live (m_channel st') \<and>
    incoming (m_channel st') = rest \<and> between st'"
  using assms
proof (induction ms arbitrary: st)
  case Nil
  then show ?case by simp
next
  case (Cons m ms)
  obtain h b where m: "m = (h, b)" by (cases m)
  have "keeps_framing (h, b)" and k4: "list_all keeps_framing ms" using Cons.prems(4) by (simp_all add: m)
  then have k: "sizes_ok h b" "12 \<le> length h" "b \<noteq> []" by (simp_all add: keeps_framing_def)
  obtain st1 where st1: "smp_recv io st = Some (Inr (h, b), st1)" "live (m_channel st1)"
    "incoming (m_channel st1) = concat (map (\<lambda>(h, b). frame h b) ms) @ rest" "between st1"
    using recv_frame [OF Cons.prems(1) _ k(1) Cons.prems(3), of "concat (map (\<lambda>(h, b). frame h b) ms) @ rest"]
      Cons.prems(2) k by (auto simp: m between_def word_le_nat_alt)
  from Cons.IH [OF st1(2,3,4) k4] show ?case using st1(1) by (auto simp: m)
qed

end

section \<open>Pieces and wrong sizes\<close>

context channel_laws
begin

lemma recv_short_meta:
  assumes "ch_recv io c 4096 12 = Some (Inr (n, d), c')" and "0 < n" and "n < 12"
  shows "\<exists>e st'. smp_recv io (smp_new junk c) = Some (Inl (channel_error e), st') \<and>
    m_state st' = waiting_meta \<and> m_channel st' = c' \<and> position (m_header st') = of_int n"
proof -
  let ?st = "smp_new junk c"
  have st: "m_state ?st = waiting_meta" "m_header ?st = local_sized 4096" "m_header_size ?st = 0" "m_channel ?st = c"
    by (simp_all add: smp_new_def smp_reset_def Let_def buffer_size_def local_empty_def set_position_def)
  have u: "unat (of_int n :: u64) = nat n" "of_int n \<noteq> (12 :: u64)"
  proof -
    have "(of_int n :: u64) = of_nat (nat n)" using assms(2) by simp
    then show "unat (of_int n :: u64) = nat n" using assms(3) unat_of_nat_eq [of "nat n", where 'a = 64] by simp
    then show "of_int n \<noteq> (12 :: u64)" using assms(3) by auto
  qed
  let ?b = "local_advance n (local_write d (local_sized 4096))"
  have "\<not> 4096 < (of_int n :: u64)" using u(1) assms(3) by (simp add: word_less_nat_alt)
  then have b: "m_position ?b = of_int n" "m_size ?b = 4096"
    by (simp_all add: local_advance_def local_write_def set_position_def position_def)
  have "2 ^ 63 \<le> unat (- of_int n :: u64)" using unat_negative [of "- n"] assms(2,3) by simp
  moreover have "unat (4096 - of_int n :: u64) \<le> 4096"
    using u(1) assms(3) by (subst unat_sub) (simp_all add: word_le_nat_alt)
  ultimately have "4096 - of_int n < (- of_int n :: u64)" by (simp add: word_less_nat_alt)
  from recv_too_big [OF this] obtain e where
    "ch_recv io c' (4096 - of_int n) (- of_int n) = Some (Inl (channel_error e), c')" by blast
  then show ?thesis
    using assms(1,2) st u(2) b
    by (simp add: smp_recv_def smp_recv_meta_def smp_recv_header_def position_def buffer_size_def Let_def)
qed

end

lemma partial_body:
  assumes "m_state st = waiting_body" and "need = ucast (m_body_size st) - position (m_body st)"
    and "ch_recv io (m_channel st) (buffer_size (m_body st)) need = Some (Inr (n, d), c')"
    and "0 < n" and "of_int n \<noteq> need"
  shows "\<exists>st'. smp_recv io st = Some (Inl (Throw (Runtime_error ''smp: should never come here'')), st') \<and>
    m_state st' = waiting_body \<and> m_channel st' = c' \<and> m_body st' = local_advance n (local_write d (m_body st))"
  using assms by (simp add: smp_recv_def smp_recv_body_def Let_def)

lemma smp_frame_overflow:
  assumes "2 ^ 32 \<le> length h" and "h32 = (of_nat (length h) :: u32)" and "h32 \<le> MAX_HEADER"
    and "b32 = (of_nat (length b) :: u32)" and "b32 \<le> MAX_DATA"
  shows "smp_frame h b = Inl (Undefined ''memcpy past the end of the send buffer'')"
proof -
  have "unat (12 + h32 + b32) < 12 + length h"
    using unsigned_less [of "12 + h32 + b32", where 'a = nat] assms(1) by simp
  then show ?thesis using assms(2,4) by (simp add: smp_frame_def Let_def)
qed

section \<open>Properties\<close>

text \<open>C10: Sending over any channel that keeps its contract: after \<open>send\<close> of a header of 1 to 10 MiB and a
  body of at most 10 MiB, and any number of calls of \<open>send_more\<close>, whether the channel takes all, a part
  or nothing each time or throws, the state is \<open>send_complete\<close> exactly when the channel has taken the whole
  frame once, and otherwise what it has taken followed by what is left in the send buffer is the frame.\<close>

theorem smp_send_delivers:
  assumes "channel_laws io valid sent incoming" and "valid (m_channel st)" and "sizes_ok h b"
    and "smp_send io h b st = Some (r, st1)" and "smp_send_runs io n st1 = Some st2"
  shows "(m_state st2 = send_complete \<longrightarrow> sent (m_channel st2) = sent (m_channel st) @ frame h b) \<and>
    (m_state st2 \<noteq> send_complete \<longrightarrow> m_state st2 = sending_data \<and> local_contents (m_send_buffer st2) \<noteq> [] \<and>
      sent (m_channel st2) @ local_contents (m_send_buffer st2) = sent (m_channel st) @ frame h b)"
  using channel_laws.send_runs_sending [OF assms(1,5) channel_laws.send_sending [OF assms(1,4,3,2)]]
  by (auto simp: sending_def)

theorem smp_send_delivers_witness:
  "\<exists>r st1. smp_send loopback [1] [2, 3] (smp_new [] ([], [])) = Some (r, st1) \<and>
    (m_state st1 = send_complete \<longrightarrow> snd (m_channel st1) = frame [1] [2, 3])"
proof -
  have "\<exists>r st1. smp_send loopback [1] [2, 3] (smp_new [] ([], [])) = Some (r, st1)"
    by (simp add: smp_send_def smp_push_def loopback_def new_between(2) MAX_HEADER_def MAX_DATA_def smp_frame_frame sizes_ok_def Let_def)
  then obtain r st1 where 1: "smp_send loopback [1] [2, 3] (smp_new [] ([], [])) = Some (r, st1)" by blast
  have "sizes_ok [1] [2, 3]" by (simp add: sizes_ok_def)
  from smp_send_delivers [OF loop.channel_laws_axioms TrueI this 1, of 0 st1] 1 show ?thesis
    by (simp add: new_between(2))
qed



text \<open>A message without a body breaks the framing: the receiver delivers it but goes on waiting for a
  header, so the next call returns as a message the first bytes of whatever follows, as many as the old header had.\<close>

theorem smp_bodyless_breaks_framing:
  assumes "eager_channel io valid sent incoming live" and "live c" and "incoming c = frame h [] @ rest"
    and "sizes_ok h []" and "length h \<le> length rest"
  shows "\<exists>st1 st2. smp_recv io (smp_new junk c) = Some (Inr (h, []), st1) \<and>
    smp_recv io st1 = Some (Inr (take (length h) rest, []), st2) \<and> incoming (m_channel st2) = drop (length h) rest"
  using eager_channel.recv_after_bodyless [OF assms(1), of "smp_new junk c" h rest] assms(2-5) new_between [of junk c]
  by auto

theorem smp_bodyless_breaks_framing_witness:
  "\<exists>st1 st2. smp_recv loopback (smp_new [] (frame [1, 2] [] @ frame [3] [4], [])) = Some (Inr ([1, 2], []), st1) \<and>
    smp_recv loopback st1 = Some (Inr (str ''SM'', []), st2)"
  using smp_bodyless_breaks_framing [OF loopback_eager TrueI, of "(frame [1, 2] [] @ frame [3] [4], [])" "[1, 2]" "frame [3] [4]" "[]"]
  by (auto simp: sizes_ok_def frame_def MAGIC_def)

text \<open>After a message whose header has fewer than 12 bytes the receiver is stuck: its header buffer was
  shrunk to that header, so every further call throws the channel's error and changes nothing.\<close>

theorem smp_short_header_blocks:
  assumes "eager_channel io valid sent incoming live" and "live c" and "incoming c = frame h b @ rest"
    and "sizes_ok h b" and "b \<noteq> []" and "length h < 12"
  shows "\<exists>st1 e. smp_recv io (smp_new junk c) = Some (Inr (h, b), st1) \<and>
    smp_recv io st1 = Some (Inl (channel_error e), st1)"
  using eager_channel.recv_after_short_header [OF assms(1), of "smp_new junk c" h b rest] assms(2-6) new_between [of junk c]
  by simp

theorem smp_short_header_blocks_witness:
  "\<exists>st1 e. smp_recv loopback (smp_new [] (frame [1] [2] @ frame [3] [4], [])) = Some (Inr ([1], [2]), st1) \<and>
    smp_recv loopback st1 = Some (Inl (channel_error e), st1)"
  using smp_short_header_blocks [OF loopback_eager TrueI, of "(frame [1] [2] @ frame [3] [4], [])" "[1]" "[2]" "frame [3] [4]" "[]"]
  by (simp add: sizes_ok_def)

text \<open>A read that gives only a part is not waited for. When the first read of a new receiver gives fewer than
  the 12 bytes of the sizes, the code goes on to read a header of size 0 minus what was read, which wraps, and the
  channel's error is thrown; when a read of the body gives a part, the call throws "smp: should never come here".
  In both cases what was read is kept, and a further call goes on from there.\<close>

theorem smp_partial_reads_throw:
  assumes "channel_laws io valid sent incoming"
  shows "(ch_recv io c 4096 12 = Some (Inr (n, d), c') \<and> 0 < n \<and> n < 12 \<longrightarrow>
      (\<exists>e st'. smp_recv io (smp_new junk c) = Some (Inl (channel_error e), st') \<and>
        m_state st' = waiting_meta \<and> m_channel st' = c' \<and> position (m_header st') = of_int n)) \<and>
    (m_state st = waiting_body \<and>
      ch_recv io (m_channel st) (buffer_size (m_body st)) (ucast (m_body_size st) - position (m_body st)) = Some (Inr (n, d), c') \<and>
      0 < n \<and> of_int n \<noteq> (ucast (m_body_size st) - position (m_body st) :: u64) \<longrightarrow>
      (\<exists>st'. smp_recv io st = Some (Inl (Throw (Runtime_error ''smp: should never come here'')), st') \<and>
        m_state st' = waiting_body \<and> m_channel st' = c' \<and> m_body st' = local_advance n (local_write d (m_body st))))"
  using channel_laws.recv_short_meta [OF assms, of c n d c' junk] partial_body [OF _ refl, of st io n d c'] by blast

theorem smp_partial_reads_throw_witness:
  "\<exists>e st'. smp_recv loopback (smp_new [] ([1, 2, 3], [])) = Some (Inl (channel_error e), st') \<and>
    position (m_header st') = 3"
proof -
  have "ch_recv loopback ([1, 2, 3], []) 4096 12 = Some (Inr (3, [1, 2, 3]), ([], []))"
    by (simp add: loopback_def Let_def)
  then show ?thesis
    using smp_partial_reads_throw [OF loop.channel_laws_axioms, of "([1, 2, 3], [])" 3 "[1, 2, 3]" "([], [])" "[]" "smp_new [] ([], [])"]
    by auto
qed

text \<open>The checks of \<open>send\<close> are made on the sizes cut to 32 bits, the copies with the full sizes: a header of
  4 GiB or more whose size modulo 2^32 is between 1 and 10 MiB passes them and is written past the send buffer.\<close>

theorem smp_send_overflows:
  assumes "2 ^ 32 \<le> length h" and "0 < length h mod 2 ^ 32" and "length h mod 2 ^ 32 \<le> 10485760"
    and "length b mod 2 ^ 32 \<le> 10485760"
  shows "\<exists>st'. smp_send io h b st = Some (Inl (Undefined ''memcpy past the end of the send buffer''), st')"
proof -
  have u: "unat (of_nat (length h) :: u32) = length h mod 2 ^ 32" "unat (of_nat (length b) :: u32) = length b mod 2 ^ 32"
    by (simp_all add: unat_of_nat)
  have m: "unat MAX_HEADER = 10485760" "unat MAX_DATA = 10485760" by (simp_all add: MAX_HEADER_def MAX_DATA_def)
  have h: "(of_nat (length h) :: u32) \<noteq> 0" using u(1) assms(2) by (metis unsigned_0 less_irrefl)
  have le: "(of_nat (length h) :: u32) \<le> MAX_HEADER" "(of_nat (length b) :: u32) \<le> MAX_DATA"
    unfolding word_le_nat_alt u m using assms(3,4) by simp_all
  show ?thesis
    using h le smp_frame_overflow [OF assms(1) refl le(1) refl le(2)] by (simp add: smp_send_def Let_def not_less)
qed

theorem smp_send_overflows_witness:
  "\<exists>st'. smp_send loopback (replicate (2 ^ 32 + 1) 0) [] (smp_new [] ([], [])) =
    Some (Inl (Undefined ''memcpy past the end of the send buffer''), st')"
  by (rule smp_send_overflows) (simp_all del: replicate_Suc)

end
