(* ===== verification/Ez_Socket.thy ===== *)
theory Ez_Socket
  imports Ez_Channel Ez_Bytes Ez_System
begin

text \<open>
  \<open>ez::socket\<close> (\<open>include/ez/socket.hpp\<close>, \<open>source/socket.cpp\<close>), the Linux branches. The operating
  system is a parameter, a record of the system calls over its own state; a call that fails gives the
  \<open>errno\<close>. Operations give the result or the exception together with the socket and the state of the
  system they leave; \<open>send\<close>, \<open>recv\<close> and \<open>accept\<close>, which repeat a call that a signal interrupted, give
  \<open>None\<close> when they do not return.
\<close>

section \<open>System calls\<close>

datatype domain = AF_INET | AF_UNIX

datatype sockaddr = Sockaddr_in u32 u16 | Sockaddr_un bytes nat

datatype sockopt = SO_RCVTIMEO u32 | SO_SNDTIMEO u32 | SO_REUSEADDR | SO_REUSEPORT

text \<open>\<open>getsockopt\<close> of \<open>SO_ERROR\<close> gives the pending error, and \<open>ioctl\<close> of \<open>FIONREAD\<close> the count.\<close>

record 'k os =
  os_socket :: "'k \<Rightarrow> domain \<Rightarrow> (int + int) \<times> 'k"
  os_bind :: "'k \<Rightarrow> int \<Rightarrow> sockaddr \<Rightarrow> (int + unit) \<times> 'k"
  os_listen :: "'k \<Rightarrow> int \<Rightarrow> int \<Rightarrow> (int + unit) \<times> 'k"
  os_accept :: "'k \<Rightarrow> int \<Rightarrow> (int + nat) \<times> 'k"
  os_connect :: "'k \<Rightarrow> int \<Rightarrow> sockaddr \<Rightarrow> (int + unit) \<times> 'k"
  os_select :: "'k \<Rightarrow> int \<Rightarrow> u32 \<Rightarrow> (int + nat) \<times> 'k"
  os_so_error :: "'k \<Rightarrow> int \<Rightarrow> (int + int) \<times> 'k"
  os_setsockopt :: "'k \<Rightarrow> int \<Rightarrow> sockopt \<Rightarrow> 'k"
  os_getfl :: "'k \<Rightarrow> int \<Rightarrow> (int + int) \<times> 'k"
  os_setfl :: "'k \<Rightarrow> int \<Rightarrow> int \<Rightarrow> (int + unit) \<times> 'k"
  os_setfd :: "'k \<Rightarrow> int \<Rightarrow> 'k"
  os_nread :: "'k \<Rightarrow> int \<Rightarrow> (int + int) \<times> 'k"
  os_send :: "'k \<Rightarrow> int \<Rightarrow> bytes \<Rightarrow> (int + nat) \<times> 'k"
  os_recv :: "'k \<Rightarrow> int \<Rightarrow> nat \<Rightarrow> (int + bytes) \<times> 'k"
  os_shutdown :: "'k \<Rightarrow> int \<Rightarrow> 'k"
  os_close :: "'k \<Rightarrow> int \<Rightarrow> 'k"
  os_unlink :: "'k \<Rightarrow> bytes \<Rightarrow> 'k"

text \<open>The value of \<open>fcntl.h\<close> on Linux.\<close>

definition O_NONBLOCK :: int where "O_NONBLOCK = 2048"

definition would_block :: "int \<Rightarrow> bool" where
  "would_block errno \<longleftrightarrow> errno = EAGAIN \<or> errno = EWOULDBLOCK \<or> errno = EINPROGRESS"

definition connection_reset :: "int \<Rightarrow> bool" where
  "connection_reset errno \<longleftrightarrow> errno = EPIPE \<or> errno = ECONNRESET"

section \<open>State\<close>

datatype socket_state = disconnected | connecting | connected | listening

record socket =
  m_fd :: int
  m_port :: u16
  m_state :: socket_state
  m_nonblocking :: bool

definition socket_new :: socket where
  "socket_new = \<lparr>m_fd = - 1, m_port = 0, m_state = disconnected, m_nonblocking = False\<rparr>"

definition socket_of_fd :: "int \<Rightarrow> socket_state \<Rightarrow> socket" where
  "socket_of_fd fd state = socket_new\<lparr>m_fd := fd, m_state := state\<rparr>"

text \<open>The move constructor: the new socket and what is left of the old one.\<close>

definition socket_move :: "socket \<Rightarrow> socket \<times> socket" where
  "socket_move right =
     (\<lparr>m_fd = m_fd right, m_port = m_port right, m_state = m_state right, m_nonblocking = m_nonblocking right\<rparr>,
      right\<lparr>m_fd := - 1\<rparr>)"

definition socket_fd :: "socket \<Rightarrow> int" where
  "socket_fd s = m_fd s"

definition socket_is :: "socket \<Rightarrow> socket_state \<Rightarrow> bool" where
  "socket_is s st \<longleftrightarrow> m_state s = st"

definition socket_port :: "socket \<Rightarrow> u16" where
  "socket_port s = m_port s"

text \<open>The result of the \<open>ioctl\<close> is not checked: when it fails \<open>nread\<close> is read uninitialised.\<close>

definition can_read :: "'k os \<Rightarrow> socket \<Rightarrow> 'k \<Rightarrow> bool res \<times> 'k" where
  "can_read os s k =
     (if m_fd s = - 1 then (Inr False, k)
      else case os_nread os k (m_fd s) of
        (Inl _, k) \<Rightarrow> (Inl (Undefined ''nread is not initialised''), k)
      | (Inr nread, k) \<Rightarrow> (Inr (nread > 0), k))"

definition is_nonblocking :: "socket \<Rightarrow> bool" where
  "is_nonblocking s = m_nonblocking s"

definition set_nonblocking :: "'k os \<Rightarrow> bool \<Rightarrow> socket \<Rightarrow> 'k \<Rightarrow> unit res \<times> socket \<times> 'k" where
  "set_nonblocking os flag s k =
     (if m_fd s = - 1 then (Inr (), s, k)
      else case os_getfl os k (m_fd s) of
        (Inl _, k) \<Rightarrow> (Inl (channel_error ''can't get socket options''), s, k)
      | (Inr opts, k) \<Rightarrow>
          (case os_setfl os k (m_fd s) (if flag then opts OR O_NONBLOCK else opts AND NOT O_NONBLOCK) of
             (Inl _, k) \<Rightarrow> (Inl (channel_error ''can't set socket options''), s, k)
           | (Inr _, k) \<Rightarrow> (Inr (), s\<lparr>m_nonblocking := flag\<rparr>, k)))"

definition set_timeout :: "'k os \<Rightarrow> u32 \<Rightarrow> socket \<Rightarrow> 'k \<Rightarrow> 'k" where
  "set_timeout os timeout s k =
     (if m_fd s = - 1 then k
      else os_setsockopt os (os_setsockopt os k (m_fd s) (SO_RCVTIMEO timeout)) (m_fd s) (SO_SNDTIMEO timeout))"

definition socket_close :: "'k os \<Rightarrow> socket \<Rightarrow> 'k \<Rightarrow> socket \<times> 'k" where
  "socket_close os s k =
     (let (s, k) = (if m_fd s \<noteq> - 1 then (s\<lparr>m_fd := - 1\<rparr>, os_close os (os_shutdown os k (m_fd s)) (m_fd s)) else (s, k))
      in (s\<lparr>m_state := disconnected\<rparr>, k))"

definition set_close_on_exec :: "'k os \<Rightarrow> socket \<Rightarrow> 'k \<Rightarrow> 'k" where
  "set_close_on_exec os s k = (if m_fd s \<noteq> - 1 then os_setfd os k (m_fd s) else k)"

section \<open>Sending and receiving\<close>

partial_function (option) socket_send_loop ::
  "'k os \<Rightarrow> socket \<Rightarrow> 'k \<Rightarrow> bytes \<Rightarrow> (int res \<times> socket \<times> 'k) option" where
  "socket_send_loop os s k data =
     (case os_send os k (m_fd s) data of
        (Inr n, k) \<Rightarrow> Some (Inr (int n), s, k)
      | (Inl errno, k) \<Rightarrow>
          if would_block errno then
            Some (if m_nonblocking s then Inr (- 3) else Inl (Throw Channel_timeout), s, k)
          else if errno = EINTR then socket_send_loop os s k data
          else if connection_reset errno then
            (let nonblocking = m_nonblocking s; (s, k) = socket_close os s k
             in Some (if nonblocking then Inr 0 else Inl (channel_error ''socket: disconnected''), s, k))
          else Some (Inl (channel_error ''socket: unknown error''), s, k))"

definition socket_send :: "'k os \<Rightarrow> socket \<Rightarrow> 'k \<Rightarrow> bytes \<Rightarrow> (int res \<times> socket \<times> 'k) option" where
  "socket_send os s k data =
     (if data = [] then Some (Inr 0, s, k)
      else if m_state s \<noteq> connected then Some (Inl (channel_error ''send fail: socket is not connected''), s, k)
      else socket_send_loop os s k data)"

text \<open>The value is the returned count and the bytes written at \<open>_data\<close>.\<close>

partial_function (option) socket_recv_loop ::
  "'k os \<Rightarrow> socket \<Rightarrow> 'k \<Rightarrow> u64 \<Rightarrow> u64 \<Rightarrow> ((int \<times> bytes) res \<times> socket \<times> 'k) option" where
  "socket_recv_loop os s k sz desired =
     (case os_recv os k (m_fd s) (unat (if desired > 0 then desired else sz)) of
        (Inr d, k) \<Rightarrow>
          if d \<noteq> [] then Some (Inr (int (length d), d), s, k)
          else
            (let nonblocking = m_nonblocking s; (s, k) = socket_close os s k
             in Some (if nonblocking then Inr (0, []) else Inl (channel_error ''socket: disconnected''), s, k))
      | (Inl errno, k) \<Rightarrow>
          if would_block errno then
            Some (if m_nonblocking s then Inr (- 2, []) else Inl (Throw Channel_timeout), s, k)
          else if errno = EINTR then socket_recv_loop os s k sz desired
          else Some (Inl (channel_error ''socket: unknown error''), s, k))"

definition socket_recv ::
  "'k os \<Rightarrow> socket \<Rightarrow> 'k \<Rightarrow> u64 \<Rightarrow> u64 \<Rightarrow> ((int \<times> bytes) res \<times> socket \<times> 'k) option" where
  "socket_recv os s k sz desired =
     (if m_state s \<noteq> connected then Some (Inl (channel_error ''recv fail: socket is not connected''), s, k)
      else if sz = 0 then Some (Inl (channel_error ''recv fail: buffer is full or empty''), s, k)
      else if sz < desired then Some (Inl (channel_error ''recv fail: buffer is too small for desired size''), s, k)
      else socket_recv_loop os s k sz desired)"

partial_function (option) socket_accept_loop ::
  "'k os \<Rightarrow> socket \<Rightarrow> 'k \<Rightarrow> (socket res \<times> 'k) option" where
  "socket_accept_loop os s k =
     (case os_accept os k (m_fd s) of
        (Inr fd, k) \<Rightarrow> Some (Inr (socket_of_fd (int fd) connected), k)
      | (Inl errno, k) \<Rightarrow>
          if would_block errno then
            Some (if m_nonblocking s then Inr socket_new else Inl (channel_error ''EAGAIN on blocking socket''), k)
          else if errno = EINTR then socket_accept_loop os s k
          else Some (Inl (channel_error ''unknown error while accepting client''), k))"

definition socket_accept :: "'k os \<Rightarrow> socket \<Rightarrow> 'k \<Rightarrow> (socket res \<times> 'k) option" where
  "socket_accept os s k =
     (if m_state s \<noteq> listening then Some (Inl (channel_error ''accept fail: socket is not listening''), k)
      else socket_accept_loop os s k)"

section \<open>Listening\<close>

text \<open>What \<open>listen\<close> and \<open>connect\<close> do first: a descriptor is made when there is none.\<close>

definition socket_open :: "'k os \<Rightarrow> domain \<Rightarrow> socket \<Rightarrow> 'k \<Rightarrow> unit res \<times> socket \<times> 'k" where
  "socket_open os family s k =
     (if m_fd s = - 1 then
        (case os_socket os k family of
           (Inl _, k) \<Rightarrow> (Inl (channel_error ''can't create socket''), s, k)
         | (Inr fd, k) \<Rightarrow> (Inr (), s\<lparr>m_fd := fd\<rparr>, k))
      else (Inr (), s, k))"

definition socket_share :: "'k os \<Rightarrow> bool \<Rightarrow> socket \<Rightarrow> 'k \<Rightarrow> 'k" where
  "socket_share os share s k =
     (if share then os_setsockopt os (os_setsockopt os k (m_fd s) SO_REUSEADDR) (m_fd s) SO_REUSEPORT else k)"

text \<open>\<open>bind\<close> and \<open>listen\<close> with their errors; \<open>_max_clients\<close> is cut to an \<open>int\<close>.\<close>

definition socket_bind_listen :: "'k os \<Rightarrow> sockaddr \<Rightarrow> u64 \<Rightarrow> socket \<Rightarrow> 'k \<Rightarrow> unit res \<times> 'k" where
  "socket_bind_listen os addr max_clients s k =
     (case os_bind os k (m_fd s) addr of
        (Inl _, k) \<Rightarrow> (Inl (channel_error ''can't bind to selected address''), k)
      | (Inr _, k) \<Rightarrow>
          (case os_listen os k (m_fd s) (sint (ucast max_clients :: u32)) of
             (Inl errno, k) \<Rightarrow> (Inl (channel_error (''can't listen on socket, errno='' @ int_text errno)), k)
           | (Inr _, k) \<Rightarrow> (Inr (), k)))"

definition htons :: "u16 \<Rightarrow> u16" where
  "htons = SWAPINT16"

definition socket_listen ::
  "'k os \<Rightarrow> u32 \<Rightarrow> u16 \<Rightarrow> u64 \<Rightarrow> bool \<Rightarrow> socket \<Rightarrow> 'k \<Rightarrow> unit res \<times> socket \<times> 'k" where
  "socket_listen os address port max_clients share s k =
     (case socket_open os AF_INET s k of
        (Inl e, s, k) \<Rightarrow> (Inl e, s, k)
      | (Inr _, s, k) \<Rightarrow>
          (case socket_bind_listen os (Sockaddr_in address (htons port)) max_clients s (socket_share os share s k) of
             (Inl e, k) \<Rightarrow> (Inl e, s, k)
           | (Inr _, k) \<Rightarrow> (Inr (), s\<lparr>m_port := port, m_state := listening\<rparr>, k)))"

text \<open>\<open>sun_path\<close> is an array of 108 bytes at the end of the structure, filled with zeros; the length of
  the copy is the maximum of the length of the name and 107. A name of 108 bytes leaves no zero at the end.\<close>

definition sun_path :: "bytes \<Rightarrow> bytes res" where
  "sun_path adr =
     (let sz = max (length adr) (108 - 1)
      in if length (take sz adr) \<le> 108 then Inr (memcpy_at (replicate 108 0) 0 (take sz adr))
         else Inl (Undefined ''copy past the end of sun_path''))"

definition socket_listen_unix ::
  "'k os \<Rightarrow> bytes \<Rightarrow> u64 \<Rightarrow> bool \<Rightarrow> socket \<Rightarrow> 'k \<Rightarrow> unit res \<times> socket \<times> 'k" where
  "socket_listen_unix os adr max_clients share s k =
     (case socket_open os AF_UNIX s k of
        (Inl e, s, k) \<Rightarrow> (Inl e, s, k)
      | (Inr _, s, k) \<Rightarrow>
          (let k = socket_share os share s k in
           case sun_path adr of
             Inl e \<Rightarrow> (Inl e, s, k)
           | Inr path \<Rightarrow>
               if 0 \<notin> set path then (Inl (Undefined ''unlink reads past the end of sun_path''), s, k)
               else
                 let k = os_unlink os k (takeWhile (\<lambda>c. c \<noteq> 0) path) in
                 (case socket_bind_listen os (Sockaddr_un path (max (length adr) (108 - 1) + 2)) max_clients s k of
                    (Inl e, k) \<Rightarrow> (Inl e, s, k)
                  | (Inr _, k) \<Rightarrow> (Inr (), s\<lparr>m_state := listening\<rparr>, k))))"

section \<open>Connecting\<close>

text \<open>Waiting for a connection that is in progress, as both \<open>connect\<close> functions do it.\<close>

definition socket_await :: "'k os \<Rightarrow> u32 \<Rightarrow> socket \<Rightarrow> 'k \<Rightarrow> unit res \<times> socket \<times> 'k" where
  "socket_await os timeout s k =
     (case os_select os k (m_fd s) timeout of
        (Inl _, k) \<Rightarrow> (Inl (channel_error ''select() error in connect()''), s, k)
      | (Inr resultsize, k) \<Rightarrow>
          if resultsize = 0 then (Inl (Throw Channel_timeout), s, k)
          else
            (case os_so_error os k (m_fd s) of
               (Inl _, k) \<Rightarrow> (Inl (Throw Channel_timeout), s, k)
             | (Inr so_error, k) \<Rightarrow>
                 if so_error \<noteq> 0 then (Inl (Throw Channel_timeout), s, k)
                 else (Inr (), s\<lparr>m_state := connected\<rparr>, k)))"

text \<open>The call of \<open>connect\<close> and what follows it; when it succeeds at once the function returns before
  \<open>set_nonblocking(false)\<close>.\<close>

definition socket_finish_connect ::
  "'k os \<Rightarrow> sockaddr \<Rightarrow> u32 \<Rightarrow> socket \<Rightarrow> 'k \<Rightarrow> unit res \<times> socket \<times> 'k" where
  "socket_finish_connect os addr timeout s k =
     (case os_connect os k (m_fd s) addr of
        (Inr _, k) \<Rightarrow> (Inr (), s\<lparr>m_state := connected\<rparr>, k)
      | (Inl errno, k) \<Rightarrow>
          if would_block errno then
            (case socket_await os timeout s k of
               (Inl e, s, k) \<Rightarrow> (Inl e, s, k)
             | (Inr _, s, k) \<Rightarrow> set_nonblocking os False s k)
          else (Inl (channel_error (''error during connect(), errno='' @ int_text errno)), s, k))"

definition socket_connect ::
  "'k os \<Rightarrow> u32 \<Rightarrow> u16 \<Rightarrow> u32 \<Rightarrow> u32 \<Rightarrow> socket \<Rightarrow> 'k \<Rightarrow> unit res \<times> socket \<times> 'k" where
  "socket_connect os address port timeout bind_to s k =
     (case socket_open os AF_INET s k of
        (Inl e, s, k) \<Rightarrow> (Inl e, s, k)
      | (Inr _, s, k) \<Rightarrow>
          (case (if bind_to \<noteq> 0 then os_bind os k (m_fd s) (Sockaddr_in bind_to 0) else (Inr (), k)) of
             (Inl _, k) \<Rightarrow> (Inl (Throw (Runtime_error ''can't bind to selected address'')), s, k)
           | (Inr _, k) \<Rightarrow>
               (case set_nonblocking os True s k of
                  (Inl e, s, k) \<Rightarrow> (Inl e, s, k)
                | (Inr _, s, k) \<Rightarrow>
                    socket_finish_connect os (Sockaddr_in address (htons port)) timeout (s\<lparr>m_state := connecting\<rparr>) k)))"

definition socket_connect_unix ::
  "'k os \<Rightarrow> bytes \<Rightarrow> u32 \<Rightarrow> socket \<Rightarrow> 'k \<Rightarrow> unit res \<times> socket \<times> 'k" where
  "socket_connect_unix os adr timeout s k =
     (case socket_open os AF_UNIX s k of
        (Inl e, s, k) \<Rightarrow> (Inl e, s, k)
      | (Inr _, s, k) \<Rightarrow>
          (case set_nonblocking os True s k of
             (Inl e, s, k) \<Rightarrow> (Inl e, s, k)
           | (Inr _, s, k) \<Rightarrow>
               (case sun_path adr of
                  Inl e \<Rightarrow> (Inl e, s, k)
                | Inr path \<Rightarrow> socket_finish_connect os (Sockaddr_un path 110) timeout s k)))"

text \<open>\<open>connect_async\<close>: the first call starts the connection, later calls ask how it went. The result of
  \<open>getsockopt\<close> is not checked. In the other two states nothing happens.\<close>

definition socket_connect_async ::
  "'k os \<Rightarrow> u32 \<Rightarrow> u16 \<Rightarrow> socket \<Rightarrow> 'k \<Rightarrow> unit res \<times> socket \<times> 'k" where
  "socket_connect_async os address port s k =
     (case socket_open os AF_INET s k of
        (Inl e, s, k) \<Rightarrow> (Inl e, s, k)
      | (Inr _, s, k) \<Rightarrow>
          if m_state s = disconnected then
            (case set_nonblocking os True s k of
               (Inl e, s, k) \<Rightarrow> (Inl e, s, k)
             | (Inr _, s, k) \<Rightarrow>
                 let s = s\<lparr>m_state := connecting\<rparr> in
                 (case os_connect os k (m_fd s) (Sockaddr_in address (htons port)) of
                    (Inr _, k) \<Rightarrow> (Inr (), s\<lparr>m_state := connected\<rparr>, k)
                  | (Inl errno, k) \<Rightarrow>
                      if would_block errno then (Inr (), s, k)
                      else (Inl (channel_error (''error during connect_async(), errno='' @ int_text errno)), s, k)))
          else if m_state s = connecting then
            (case os_so_error os k (m_fd s) of
               (Inl _, k) \<Rightarrow> (Inl (Undefined ''val is not initialised''), s, k)
             | (Inr val, k) \<Rightarrow>
                 if val = 0 then (Inr (), s\<lparr>m_state := connected\<rparr>, k)
                 else (Inl (channel_error (''error during connect_async(), errno='' @ int_text val)), s, k))
          else (Inr (), s, k))"

section \<open>When the loops return\<close>

text \<open>The state of the system after \<open>n\<close> calls that a signal interrupted, if the first \<open>n\<close> are.\<close>

fun interrupted :: "('k \<Rightarrow> (int + 'a) \<times> 'k) \<Rightarrow> nat \<Rightarrow> 'k \<Rightarrow> 'k option" where
  "interrupted f 0 k = Some k"
| "interrupted f (Suc n) k =
     (case f k of (Inl errno, k) \<Rightarrow> if errno = EINTR then interrupted f n k else None | (Inr _, _) \<Rightarrow> None)"

lemma interrupted_one: "\<nexists>k'. f k = (Inl EINTR, k') \<Longrightarrow> interrupted f (Suc 0) k = None"
  by (auto split: prod.split sum.split)

lemma EINTR_other [simp]: "\<not> would_block EINTR" "\<not> connection_reset EINTR"
  by (simp_all add: would_block_def connection_reset_def EINTR_def EAGAIN_def EWOULDBLOCK_def EPIPE_def
      ECONNRESET_def EINPROGRESS_def)

lemma send_loop_returns:
  "interrupted (\<lambda>k. os_send os k (m_fd s) d) n k = None \<Longrightarrow> \<exists>y. socket_send_loop os s k d = Some y"
proof (induction n arbitrary: k)
  case (Suc n)
  then show ?case
    by (subst socket_send_loop.simps) (auto split: prod.splits sum.splits if_splits)
qed simp

lemma send_loop_interrupted:
  assumes "socket_send_loop os s k d = Some y"
  shows "\<exists>n. interrupted (\<lambda>k. os_send os k (m_fd s) d) n k = None"
proof (rule socket_send_loop.raw_induct [where P = "\<lambda>os s k d y. \<exists>n. interrupted (\<lambda>k. os_send os k (m_fd s) d) n k = None",
      OF _ assms], goal_cases)
  case (1 loop os s k d y)
  show ?case
  proof (cases "\<exists>k'. os_send os k (m_fd s) d = (Inl EINTR, k')")
    case True
    then obtain k' where k': "os_send os k (m_fd s) d = (Inl EINTR, k')" by blast
    then have "loop os s k' d = Some y" using 1(2) by simp
    from 1(1) [OF this] obtain n where "interrupted (\<lambda>k. os_send os k (m_fd s) d) n k' = None" by blast
    then show ?thesis using k' by (intro exI [of _ "Suc n"]) simp
  next
    case False
    then show ?thesis by (blast intro: interrupted_one)
  qed
qed

lemma recv_loop_returns:
  "interrupted (\<lambda>k. os_recv os k (m_fd s) (unat (if w > 0 then w else sz))) n k = None \<Longrightarrow>
    \<exists>y. socket_recv_loop os s k sz w = Some y"
proof (induction n arbitrary: k)
  case (Suc n)
  then show ?case
    by (subst socket_recv_loop.simps) (auto simp: Let_def split: prod.splits sum.splits if_splits)
qed simp

lemma recv_loop_interrupted:
  assumes "socket_recv_loop os s k sz w = Some y"
  shows "\<exists>n. interrupted (\<lambda>k. os_recv os k (m_fd s) (unat (if w > 0 then w else sz))) n k = None"
proof (rule socket_recv_loop.raw_induct [where P = "\<lambda>os s k sz w y.
      \<exists>n. interrupted (\<lambda>k. os_recv os k (m_fd s) (unat (if w > 0 then w else sz))) n k = None", OF _ assms], goal_cases)
  case (1 loop os s k sz w y)
  let ?r = "\<lambda>k. os_recv os k (m_fd s) (unat (if w > 0 then w else sz))"
  show ?case
  proof (cases "\<exists>k'. ?r k = (Inl EINTR, k')")
    case True
    then obtain k' where k': "?r k = (Inl EINTR, k')" by blast
    then have "loop os s k' sz w = Some y" using 1(2) by simp
    from 1(1) [OF this] obtain n where "interrupted ?r n k' = None" by blast
    then show ?thesis using k' by (intro exI [of _ "Suc n"]) simp
  next
    case False
    then show ?thesis by (blast intro: interrupted_one)
  qed
qed

section \<open>A socket is a channel\<close>

definition socket_channel :: "'k os \<Rightarrow> (socket \<times> 'k) channel" where
  "socket_channel os = \<lparr>ch_send = (\<lambda>(s, k) d. map_option (\<lambda>(r, s, k). (r, (s, k))) (socket_send os s k d)),
     ch_recv = (\<lambda>(s, k) sz want. map_option (\<lambda>(r, s, k). (r, (s, k))) (socket_recv os s k sz want)),
     ch_can_read = (\<lambda>(s, k). case can_read os s k of (r, k) \<Rightarrow> (r, (s, k))), ch_nonblocking = (\<lambda>(s, k). is_nonblocking s)\<rparr>"

text \<open>What the system promises for the connection on the descriptor \<open>fd\<close>: \<open>out\<close> is what it has accepted
  from this process, \<open>inq\<close> what it will still deliver. A \<open>recv\<close> of 0 bytes is the end of the stream.\<close>

locale connection =
  fixes os :: "'k os"
    and fd :: int
    and out :: "'k \<Rightarrow> bytes"
    and inq :: "'k \<Rightarrow> bytes"
  assumes send_ok: "os_send os k fd d = (Inr n, k') \<Longrightarrow> n \<le> length d \<and> out k' = out k @ take n d"
    and send_err: "os_send os k fd d = (Inl e, k') \<Longrightarrow> out k' = out k"
    and recv_ok: "os_recv os k fd n = (Inr d, k') \<Longrightarrow> length d \<le> n \<and> inq k = d @ inq k'"
    and recv_end: "os_recv os k fd n = (Inr [], k') \<Longrightarrow> 0 < n \<Longrightarrow> inq k' = []"
    and recv_err: "os_recv os k fd n = (Inl e, k') \<Longrightarrow> inq k' = inq k"
    and close_out: "out (os_close os (os_shutdown os k fd) fd) = out k"
    and close_inq: "inq k = [] \<Longrightarrow> inq (os_close os (os_shutdown os k fd) fd) = []"

definition socket_on :: "int \<Rightarrow> socket \<times> 'k \<Rightarrow> bool" where
  "socket_on fd c \<longleftrightarrow> (m_state (fst c) = connected \<longrightarrow> m_fd (fst c) = fd)"

context connection
begin

definition send_post :: "bytes \<Rightarrow> 'k \<Rightarrow> int res \<times> socket \<times> 'k \<Rightarrow> bool" where
  "send_post d k y = (case y of (r, s', k') \<Rightarrow> socket_on fd (s', k') \<and>
     (case r of Inr n \<Rightarrow> - 3 \<le> n \<and> n \<le> int (length d) \<and> out k' = out k @ take (nat n) d | Inl _ \<Rightarrow> out k' = out k))"

lemma close_on: "socket_close os s k = (s', k') \<Longrightarrow> socket_on g (s', x)"
  by (auto simp: socket_close_def socket_on_def Let_def split: prod.splits if_splits)

lemma close_laws:
  assumes "socket_close os s k = (s', k')" and "m_fd s = fd \<or> m_fd s = - 1"
  shows "out k' = out k" and "inq k = [] \<Longrightarrow> inq k' = []"
  using assms close_out close_inq by (auto simp: socket_close_def Let_def split: if_splits)

lemma send_loop_post:
  assumes "socket_send_loop os s k d = Some y" and "m_fd s = fd"
  shows "send_post d k y"
proof -
  have "os = os \<longrightarrow> m_fd s = fd \<longrightarrow> send_post d k y"
  proof (rule socket_send_loop.raw_induct [where P = "\<lambda>os' s k d y. os' = os \<longrightarrow> m_fd s = fd \<longrightarrow> send_post d k y",
        OF _ assms(1)], goal_cases)
    case (1 loop os' s k d y)
    show ?case
    proof (intro impI)
      assume a: "os' = os" "m_fd s = fd"
      obtain r k1 where c: "os_send os k fd d = (r, k1)" by (cases "os_send os k fd d")
      show "send_post d k y"
      proof (cases r)
        case (Inr n)
        then show ?thesis using 1(2) a c send_ok [of k d n k1] by (auto simp: send_post_def socket_on_def)
      next
        case (Inl e)
        note o = send_err [OF c [unfolded Inl]]
        consider "would_block e" | "e = EINTR" | "\<not> would_block e" "e \<noteq> EINTR" "connection_reset e"
          | "\<not> would_block e" "e \<noteq> EINTR" "\<not> connection_reset e" by blast
        then show ?thesis
        proof cases
          case 2
          then have "loop os s k1 d = Some y" using 1(2) a c Inl by simp
          from 1(1) [OF this] show ?thesis using a o by (simp add: send_post_def split: prod.splits sum.splits)
        next
          case 3
          then show ?thesis
            using 1(2) a c Inl o close_laws(1) [of s k1]
            by (auto simp: send_post_def Let_def intro: close_on split: prod.splits if_splits)
        qed (use 1(2) a c Inl o in \<open>auto simp: send_post_def socket_on_def split: if_splits\<close>)
      qed
    qed
  qed
  then show ?thesis using assms(2) by simp
qed

definition recv_post :: "u64 \<Rightarrow> u64 \<Rightarrow> 'k \<Rightarrow> (int \<times> bytes) res \<times> socket \<times> 'k \<Rightarrow> bool" where
  "recv_post sz w k y = (case y of (r, s', k') \<Rightarrow> socket_on fd (s', k') \<and>
     (case r of Inr (n, d) \<Rightarrow> - 3 \<le> n \<and> length d = nat n \<and> length d \<le> unat (if w > 0 then w else sz) \<and> inq k = d @ inq k'
      | Inl _ \<Rightarrow> inq k' = inq k))"

lemma recv_loop_post:
  assumes "socket_recv_loop os s k sz w = Some y" and "m_fd s = fd" and "sz \<noteq> 0"
  shows "recv_post sz w k y"
proof -
  have "os = os \<longrightarrow> m_fd s = fd \<longrightarrow> sz \<noteq> 0 \<longrightarrow> recv_post sz w k y"
  proof (rule socket_recv_loop.raw_induct [where P = "\<lambda>os' s k sz w y. os' = os \<longrightarrow> m_fd s = fd \<longrightarrow> sz \<noteq> 0 \<longrightarrow>
        recv_post sz w k y", OF _ assms(1)], goal_cases)
    case (1 loop os' s k sz w y)
    show ?case
    proof (intro impI)
      assume a: "os' = os" "m_fd s = fd" "sz \<noteq> 0"
      let ?n = "unat (if w > 0 then w else sz)"
      have n: "0 < ?n" using a(3) by (simp add: word_less_nat_alt unat_gt_0)
      obtain r k1 where c: "os_recv os k fd ?n = (r, k1)" by (cases "os_recv os k fd ?n")
      show "recv_post sz w k y"
      proof (cases r)
        case (Inr d)
        show ?thesis
        proof (cases "d = []")
          case True
          have q: "inq k1 = []" "inq k = []"
            using recv_end [of k ?n k1] recv_ok [of k ?n d k1] c Inr True n by auto
          obtain s2 k2 where cl: "socket_close os s k1 = (s2, k2)" by (cases "socket_close os s k1")
          have "y = (if m_nonblocking s then Inr (0, []) else Inl (channel_error ''socket: disconnected''), s2, k2)"
            using 1(2) a c Inr True cl by simp
          then show ?thesis using q close_laws(2) [OF cl _ q(1)] a(2) close_on [OF cl] by (auto simp: recv_post_def)
        next
          case False
          then show ?thesis
            using 1(2) a c Inr recv_ok [of k ?n d k1] by (auto simp: recv_post_def socket_on_def)
        qed
      next
        case (Inl e)
        note o = recv_err [OF c [unfolded Inl]]
        consider "would_block e" | "e = EINTR" | "\<not> would_block e" "e \<noteq> EINTR" by blast
        then show ?thesis
        proof cases
          case 2
          then have "loop os s k1 sz w = Some y" using 1(2) a c Inl by simp
          from 1(1) [OF this] show ?thesis using a unfolding recv_post_def o by blast
        qed (use 1(2) a c Inl o in \<open>auto simp: recv_post_def socket_on_def split: if_splits\<close>)
      qed
    qed
  qed
  then show ?thesis using assms(2,3) by simp
qed

lemma socket_send_post:
  assumes "socket_send os s k d = Some y" and "socket_on fd (s, k)"
  shows "send_post d k y"
proof -
  consider "y = (Inr 0, s, k)" | "y = (Inl (channel_error ''send fail: socket is not connected''), s, k)"
    | "m_state s = connected" "socket_send_loop os s k d = Some y"
    using assms(1) by (auto simp: socket_send_def split: if_splits)
  then show ?thesis
    using assms(2) send_loop_post by cases (auto simp: send_post_def socket_on_def)
qed

lemma socket_recv_post:
  assumes "socket_recv os s k sz w = Some y" and "socket_on fd (s, k)"
  shows "recv_post sz w k y \<and> (\<forall>v. fst y = Inr v \<longrightarrow> w \<le> sz)"
proof -
  consider e where "y = (Inl e, s, k)"
    | "m_state s = connected" "sz \<noteq> 0" "w \<le> sz" "socket_recv_loop os s k sz w = Some y"
    using assms(1) by (auto simp: socket_recv_def not_less split: if_splits)
  then show ?thesis
    using assms(2) recv_loop_post by cases (auto simp: recv_post_def socket_on_def)
qed

end

sublocale connection \<subseteq> socket_io: channel_laws "socket_channel os" "socket_on fd" "\<lambda>c. out (snd c)" "\<lambda>c. inq (snd c)"
proof
  fix c c' :: "socket \<times> 'k" and d n
  assume v: "socket_on fd c" and s: "ch_send (socket_channel os) c d = Some (Inr n, c')"
  obtain s k s' k' where c: "c = (s, k)" "c' = (s', k')" by (cases c, cases c')
  then have "socket_send os s k d = Some (Inr n, s', k')" using s by (auto simp: socket_channel_def)
  from socket_send_post [OF this] show
    "socket_on fd c' \<and> - (2 ^ 63) \<le> n \<and> n \<le> int (length d) \<and> out (snd c') = out (snd c) @ take (nat n) d"
    using v c by (simp add: send_post_def)
next
  fix c c' :: "socket \<times> 'k" and d e
  assume v: "socket_on fd c" and s: "ch_send (socket_channel os) c d = Some (Inl e, c')"
  obtain s k s' k' where c: "c = (s, k)" "c' = (s', k')" by (cases c, cases c')
  then have "socket_send os s k d = Some (Inl e, s', k')" using s by (auto simp: socket_channel_def)
  from socket_send_post [OF this] show "socket_on fd c' \<and> out (snd c') = out (snd c)"
    using v c by (simp add: send_post_def)
next
  fix c c' :: "socket \<times> 'k" and sz want n d
  assume v: "socket_on fd c" and s: "ch_recv (socket_channel os) c sz want = Some (Inr (n, d), c')"
  obtain s k s' k' where c: "c = (s, k)" "c' = (s', k')" by (cases c, cases c')
  then have "socket_recv os s k sz want = Some (Inr (n, d), s', k')" using s by (auto simp: socket_channel_def)
  from socket_recv_post [OF this] show "socket_on fd c' \<and> - (2 ^ 63) \<le> n \<and> length d = nat n \<and> length d \<le> unat sz \<and>
      (want \<noteq> 0 \<longrightarrow> length d \<le> unat want) \<and> inq (snd c) = d @ inq (snd c')"
    using v c by (auto simp: recv_post_def word_le_nat_alt word_neq_0_conv split: if_splits)
next
  fix c c' :: "socket \<times> 'k" and sz want e
  assume v: "socket_on fd c" and s: "ch_recv (socket_channel os) c sz want = Some (Inl e, c')"
  obtain s k s' k' where c: "c = (s, k)" "c' = (s', k')" by (cases c, cases c')
  then have "socket_recv os s k sz want = Some (Inl e, s', k')" using s by (auto simp: socket_channel_def)
  from socket_recv_post [OF this] show "socket_on fd c' \<and> inq (snd c') = inq (snd c)"
    using v c by (simp add: recv_post_def)
next
  fix c :: "socket \<times> 'k" and sz want :: u64
  assume "sz < want"
  then show "\<exists>e. ch_recv (socket_channel os) c sz want = Some (Inl (channel_error e), c)"
    by (cases c) (simp add: socket_channel_def socket_recv_def)
qed

text \<open>The two functions throw and block, but nothing that they do is undefined.\<close>

lemma send_loop_defined: "socket_send_loop os s k d = Some y \<Longrightarrow> fst y \<noteq> Inl (Undefined m)"
proof (rule socket_send_loop.raw_induct [where P = "\<lambda>os s k d y. fst y \<noteq> Inl (Undefined m)"], goal_cases)
  case (1 loop os s k d y)
  then show ?case by (auto simp: Let_def split: prod.splits sum.splits if_splits)
qed

lemma recv_loop_defined: "socket_recv_loop os s k sz w = Some y \<Longrightarrow> fst y \<noteq> Inl (Undefined m)"
proof (rule socket_recv_loop.raw_induct [where P = "\<lambda>os s k sz w y. fst y \<noteq> Inl (Undefined m)"], goal_cases)
  case (1 loop os s k sz w y)
  then show ?case by (auto simp: Let_def split: prod.splits sum.splits if_splits)
qed

sublocale connection \<subseteq> socket_defined: defined_channel "socket_channel os" "socket_on fd" "\<lambda>c. out (snd c)" "\<lambda>c. inq (snd c)"
proof
  fix c c' :: "socket \<times> 'k" and d and sz want :: u64 and m
  show "ch_send (socket_channel os) c d \<noteq> Some (Inl (Undefined m), c')"
    using send_loop_defined [of os "fst c" "snd c" d _ m] by (cases c) (auto simp: socket_channel_def socket_send_def split: if_splits)
  show "ch_recv (socket_channel os) c sz want \<noteq> Some (Inl (Undefined m), c')"
    using recv_loop_defined [of os "fst c" "snd c" sz want _ m] by (cases c) (auto simp: socket_channel_def socket_recv_def split: if_splits)
qed

context connection
begin

lemma socket_channel_laws:
  "channel_laws (socket_channel os) (socket_on fd) (\<lambda>c. out (snd c)) (\<lambda>c. inq (snd c))"
  by (rule socket_io.channel_laws_axioms)

lemma socket_channel_defined:
  "defined_channel (socket_channel os) (socket_on fd) (\<lambda>c. out (snd c)) (\<lambda>c. inq (snd c))"
  by (rule socket_defined.defined_channel_axioms)

end

section \<open>A system with one connection\<close>

text \<open>An executable system: the connection on descriptor 3, on which the peer's bytes are waiting, which takes
  at most four bytes in a call, and on which the next calls are interrupted by signals.\<close>

record pipe =
  p_in :: bytes
  p_out :: bytes
  p_signals :: nat
  p_flags :: int

definition interruptible :: "('a \<times> pipe) \<Rightarrow> pipe \<Rightarrow> (int + 'a) \<times> pipe" where
  "interruptible r k =
     (if p_signals k = 0 then (Inr (fst r), snd r) else (Inl EINTR, k\<lparr>p_signals := p_signals k - 1\<rparr>))"

definition pipe_os :: "pipe os" where
  "pipe_os = \<lparr>os_socket = (\<lambda>k _. (Inr 3, k)), os_bind = (\<lambda>k _ _. (Inr (), k)), os_listen = (\<lambda>k _ _. (Inr (), k)),
     os_accept = (\<lambda>k _. interruptible (4, k) k), os_connect = (\<lambda>k _ _. (Inl EINPROGRESS, k)),
     os_select = (\<lambda>k _ _. (Inr 1, k)), os_so_error = (\<lambda>k _. (Inr 0, k)), os_setsockopt = (\<lambda>k _ _. k),
     os_getfl = (\<lambda>k _. (Inr (p_flags k), k)), os_setfl = (\<lambda>k _ f. (Inr (), k\<lparr>p_flags := f\<rparr>)), os_setfd = (\<lambda>k _. k),
     os_nread = (\<lambda>k _. (Inr (int (length (p_in k))), k)),
     os_send = (\<lambda>k _ d. interruptible (min 4 (length d), k\<lparr>p_out := p_out k @ take (min 4 (length d)) d\<rparr>) k),
     os_recv = (\<lambda>k _ n. interruptible (take n (p_in k), k\<lparr>p_in := drop n (p_in k)\<rparr>) k),
     os_shutdown = (\<lambda>k _. k), os_close = (\<lambda>k _. k), os_unlink = (\<lambda>k _. k)\<rparr>"

lemma pipe_connection: "connection pipe_os 3 p_out p_in"
  by unfold_locales (auto simp: pipe_os_def interruptible_def split: if_splits)

interpretation pipe_io: connection pipe_os 3 p_out p_in
  by (rule pipe_connection)

definition pipe_live :: "socket \<times> pipe \<Rightarrow> bool" where
  "pipe_live c \<longleftrightarrow> m_state (fst c) = connected \<and> m_fd (fst c) = 3 \<and> p_signals (snd c) = 0"

lemma pipe_eager:
  "eager_channel (socket_channel pipe_os) (socket_on 3) (\<lambda>c. p_out (snd c)) (\<lambda>c. p_in (snd c)) pipe_live"
proof unfold_locales
  fix c :: "socket \<times> pipe" and d rest and want sz :: u64
  assume a: "pipe_live c" "p_in (snd c) = d @ rest" "unat want = length d" "d \<noteq> []" "want \<le> sz"
  obtain s k where c: "c = (s, k)" by (cases c)
  have "want \<noteq> 0" using a(3,4) by auto
  moreover from this have "sz \<noteq> 0" using a(5) by auto
  ultimately have "socket_recv pipe_os s k sz want = Some (Inr (int (length d), d), s, k\<lparr>p_in := rest\<rparr>)"
    using a by (simp add: c socket_recv_def socket_recv_loop.simps pipe_live_def pipe_os_def interruptible_def
        word_neq_0_conv [symmetric] not_less)
  then show "\<exists>c'. ch_recv (socket_channel pipe_os) c sz want = Some (Inr (int (length d), d), c') \<and> pipe_live c' \<and>
      p_in (snd c') = rest"
    using a(1) by (simp add: c socket_channel_def pipe_live_def)
qed (simp add: pipe_live_def socket_on_def)

interpretation pipe_socket: eager_channel "socket_channel pipe_os" "socket_on 3" "\<lambda>c. p_out (snd c)"
    "\<lambda>c. p_in (snd c)" pipe_live
  by (rule pipe_eager)

lemma pipe_prompt:
  "prompt_channel (socket_channel pipe_os) (socket_on 3) (\<lambda>c. p_out (snd c)) (\<lambda>c. p_in (snd c)) pipe_live"
proof unfold_locales
  fix c :: "socket \<times> pipe" and sz :: u64
  assume a: "pipe_live c" "p_in (snd c) \<noteq> []" "sz \<noteq> 0"
  obtain s k where c: "c = (s, k)" by (cases c)
  have "unat sz \<noteq> 0" using a(3) by (simp add: unat_eq_0)
  then have "socket_recv pipe_os s k sz 0 =
      Some (Inr (int (length (take (unat sz) (p_in k))), take (unat sz) (p_in k)), s, k\<lparr>p_in := drop (unat sz) (p_in k)\<rparr>)"
    using a by (simp add: c socket_recv_def socket_recv_loop.simps pipe_live_def pipe_os_def interruptible_def)
  then show "\<exists>c'. ch_recv (socket_channel pipe_os) c sz 0 =
      Some (Inr (int (length (take (unat sz) (p_in (snd c)))), take (unat sz) (p_in (snd c))), c') \<and>
      pipe_live c' \<and> p_in (snd c') = drop (unat sz) (p_in (snd c))"
    using a(1) by (simp add: c socket_channel_def pipe_live_def)
qed (simp add: pipe_live_def socket_on_def)

interpretation pipe_http: prompt_channel "socket_channel pipe_os" "socket_on 3" "\<lambda>c. p_out (snd c)"
    "\<lambda>c. p_in (snd c)" pipe_live
  by (rule pipe_prompt)

section \<open>The life of a socket\<close>

text \<open>What a program does with one socket object, whatever the system answers.\<close>

inductive socket_step :: "'k os \<Rightarrow> socket \<times> 'k \<Rightarrow> socket \<times> 'k \<Rightarrow> bool" for os where
  step_nonblocking: "set_nonblocking os flag s k = (r, s', k') \<Longrightarrow> socket_step os (s, k) (s', k')"
| step_close: "socket_close os s k = (s', k') \<Longrightarrow> socket_step os (s, k) (s', k')"
| step_send: "socket_send os s k d = Some (r, s', k') \<Longrightarrow> socket_step os (s, k) (s', k')"
| step_recv: "socket_recv os s k sz w = Some (v, s', k') \<Longrightarrow> socket_step os (s, k) (s', k')"
| step_listen: "socket_listen os adr port n share s k = (r, s', k') \<Longrightarrow> socket_step os (s, k) (s', k')"
| step_listen_unix: "socket_listen_unix os name n share s k = (r, s', k') \<Longrightarrow> socket_step os (s, k) (s', k')"
| step_connect: "socket_connect os adr port t bind_to s k = (r, s', k') \<Longrightarrow> socket_step os (s, k) (s', k')"
| step_connect_unix: "socket_connect_unix os name t s k = (r, s', k') \<Longrightarrow> socket_step os (s, k) (s', k')"
| step_connect_async: "socket_connect_async os adr port s k = (r, s', k') \<Longrightarrow> socket_step os (s, k) (s', k')"

definition has_fd :: "socket \<Rightarrow> bool" where
  "has_fd s \<longleftrightarrow> (m_state s \<noteq> disconnected \<longrightarrow> m_fd s \<noteq> - 1)"

definition socket_fds_ok :: "'k os \<Rightarrow> bool" where
  "socket_fds_ok os \<longleftrightarrow> (\<forall>k family k'. os_socket os k family \<noteq> (Inr (- 1), k'))"

lemma open_fd:
  "socket_open os family s k = (r, s', k') \<Longrightarrow> socket_fds_ok os \<Longrightarrow> has_fd s \<Longrightarrow>
    has_fd s' \<and> m_state s' = m_state s \<and> (r = Inr () \<longrightarrow> m_fd s' \<noteq> - 1)"
  by (auto simp: socket_open_def socket_fds_ok_def has_fd_def split: if_splits prod.splits sum.splits)

lemma set_nonblocking_fd:
  "set_nonblocking os flag s k = (r, s', k') \<Longrightarrow> m_fd s' = m_fd s \<and> m_state s' = m_state s \<and>
    (r = Inr () \<and> m_fd s \<noteq> - 1 \<longrightarrow> m_nonblocking s' = flag)"
  by (auto simp: set_nonblocking_def split: if_splits prod.splits sum.splits)

lemma close_fd: "socket_close os s k = (s', k') \<Longrightarrow> m_fd s' = - 1 \<and> m_state s' = disconnected"
  by (auto simp: socket_close_def Let_def split: if_splits)

lemma close_state [simp]: "m_state (fst (socket_close os s k)) = disconnected"
  using close_fd [of os s k] by (cases "socket_close os s k") simp

lemma await_fd:
  "socket_await os t s k = (r, s', k') \<Longrightarrow> m_fd s' = m_fd s \<and> m_nonblocking s' = m_nonblocking s \<and>
    (r = Inr () \<and> m_state s' = connected \<or> r \<noteq> Inr () \<and> m_state s' = m_state s)"
  by (auto simp: socket_await_def split: if_splits prod.splits sum.splits)

lemma finish_connect_fd:
  assumes "socket_finish_connect os adr t s k = (r, s', k')" and "m_fd s \<noteq> - 1"
  shows "m_fd s' = m_fd s" and "r = Inr () \<Longrightarrow> m_state s' = connected"
    and "r = Inr () \<Longrightarrow> m_nonblocking s \<Longrightarrow> m_nonblocking s' \<longleftrightarrow> (\<exists>k1. os_connect os k (m_fd s) adr = (Inr (), k1))"
  using assms
  by (auto simp: socket_finish_connect_def split: if_splits prod.splits sum.splits
      dest!: await_fd set_nonblocking_fd)

lemma send_loop_fd:
  assumes "socket_send_loop os s k d = Some y"
  shows "fst (snd y) = s \<or> m_state (fst (snd y)) = disconnected"
proof (rule socket_send_loop.raw_induct [where P = "\<lambda>os s k d y. fst (snd y) = s \<or> m_state (fst (snd y)) = disconnected",
      OF _ assms], goal_cases)
  case (1 loop os s k d y)
  then show ?case
    by (auto simp: Let_def dest!: close_fd split: if_splits prod.splits sum.splits)
qed

lemma recv_loop_fd:
  assumes "socket_recv_loop os s k sz w = Some y"
  shows "fst (snd y) = s \<or> m_state (fst (snd y)) = disconnected"
proof (rule socket_recv_loop.raw_induct [where P = "\<lambda>os s k sz w y. fst (snd y) = s \<or> m_state (fst (snd y)) = disconnected",
      OF _ assms], goal_cases)
  case (1 loop os s k sz w y)
  then show ?case
    by (auto simp: Let_def dest!: close_fd split: if_splits prod.splits sum.splits)
qed

lemma step_has_fd:
  assumes "socket_step os c c'" and "socket_fds_ok os" and "has_fd (fst c)"
  shows "has_fd (fst c')"
  using assms
proof (induction rule: socket_step.induct)
  case (step_send s k d r s' k')
  then show ?case
    by (auto simp: socket_send_def has_fd_def dest!: send_loop_fd split: if_splits)
next
  case (step_recv s k sz w v s' k')
  then show ?case
    by (auto simp: socket_recv_def has_fd_def dest!: recv_loop_fd split: if_splits)
next
  case (step_connect adr port t bind_to s k r s' k')
  then show ?case
    by (auto simp: socket_connect_def has_fd_def split: prod.splits sum.splits
        dest!: open_fd set_nonblocking_fd finish_connect_fd(1))
next
  case (step_connect_unix name t s k r s' k')
  then show ?case
    by (auto simp: socket_connect_unix_def has_fd_def split: prod.splits sum.splits
        dest!: open_fd set_nonblocking_fd finish_connect_fd(1))
next
  case (step_connect_async adr port s k r s' k')
  then show ?case
    by (auto simp: socket_connect_async_def has_fd_def Let_def split: prod.splits sum.splits if_splits
        dest!: open_fd set_nonblocking_fd)
next
  case (step_listen adr port n share s k r s' k')
  then show ?case
    by (auto simp: socket_listen_def has_fd_def split: prod.splits sum.splits dest!: open_fd)
next
  case (step_listen_unix name n share s k r s' k')
  then show ?case
    by (auto simp: socket_listen_unix_def has_fd_def Let_def split: prod.splits sum.splits if_splits dest!: open_fd)
next
  case (step_nonblocking flag s k r s' k')
  then show ?case using set_nonblocking_fd by (fastforce simp: has_fd_def)
next
  case (step_close s k s' k')
  then show ?case using close_fd by (fastforce simp: has_fd_def)
qed

section \<open>Properties\<close>

text \<open>C12: A socket keeps the contract of a channel over every system that keeps the contract of a connection:
  the counts that \<open>send\<close> and \<open>recv\<close> return are the bytes that went over, interrupted calls are repeated
  without losing or repeating any, a failed call moves none, and what is asked for beyond the buffer is refused.\<close>

theorem socket_is_channel:
  assumes "connection os fd out inq"
  shows "channel_laws (socket_channel os) (socket_on fd) (\<lambda>c. out (snd c)) (\<lambda>c. inq (snd c))"
  by (rule connection.socket_channel_laws [OF assms])

theorem socket_is_channel_witness:
  "channel_laws (socket_channel pipe_os) (socket_on 3) (\<lambda>c. p_out (snd c)) (\<lambda>c. p_in (snd c))"
  by (rule socket_is_channel [OF pipe_connection])

text \<open>C13: \<open>send\<close> and \<open>recv\<close> on a connected socket return exactly when the system does not answer every call
  with \<open>EINTR\<close>: each repeats an interrupted call and stops at the first other answer.\<close>

theorem socket_calls_return_iff:
  assumes "m_state s = connected" and "d \<noteq> []" and "sz \<noteq> 0" and "w \<le> sz"
  shows "((\<exists>y. socket_send os s k d = Some y) \<longleftrightarrow> (\<exists>n. interrupted (\<lambda>k. os_send os k (m_fd s) d) n k = None)) \<and>
    ((\<exists>y. socket_recv os s k sz w = Some y) \<longleftrightarrow>
      (\<exists>n. interrupted (\<lambda>k. os_recv os k (m_fd s) (unat (if w > 0 then w else sz))) n k = None))"
  using assms send_loop_returns [of os s d _ k] send_loop_interrupted [of os s k d]
    recv_loop_returns [of os s w sz _ k] recv_loop_interrupted [of os s k sz w]
  by (auto simp: socket_send_def socket_recv_def not_less)

theorem socket_calls_return_iff_witness:
  "\<exists>y. socket_send pipe_os (socket_of_fd 3 connected)
    \<lparr>p_in = [], p_out = [], p_signals = 2, p_flags = 0\<rparr> [1, 2] = Some y"
proof -
  let ?k = "\<lparr>p_in = [], p_out = [], p_signals = 2, p_flags = 0\<rparr>"
  have i: "\<exists>n. interrupted (\<lambda>k. os_send pipe_os k 3 [1, 2]) n ?k = None"
    by (rule exI [of _ "Suc (Suc (Suc 0))"]) (simp add: pipe_os_def interruptible_def)
  have s: "m_state (socket_of_fd 3 connected) = connected" "m_fd (socket_of_fd 3 connected) = 3"
    by (simp_all add: socket_of_fd_def)
  show ?thesis
    using socket_calls_return_iff [OF s(1), of "[1, 2]" 1 1 pipe_os ?k] i s(2) by auto
qed

text \<open>C14: Whatever is done with a socket and whatever the system answers, a socket that is connecting,
  connected or listening has a descriptor, if the system never gives -1 for one. The move constructor is the
  exception: the socket moved from keeps its state without a descriptor.\<close>

theorem socket_state_has_descriptor:
  assumes "socket_fds_ok os" and "(socket_step os)\<^sup>*\<^sup>* (socket_new, k) (s, k')"
  shows "(m_state s \<noteq> disconnected \<longrightarrow> m_fd s \<noteq> - 1) \<and>
    m_state (snd (socket_move s)) = m_state s \<and> m_fd (snd (socket_move s)) = - 1"
proof -
  have "has_fd (fst (s, k'))"
    using assms(2)
  proof (induction rule: rtranclp_induct)
    case base
    then show ?case by (simp add: has_fd_def socket_new_def)
  next
    case (step c c')
    then show ?case using step_has_fd assms(1) by blast
  qed
  then show ?thesis by (simp add: has_fd_def socket_move_def)
qed

theorem socket_state_has_descriptor_witness:
  "\<exists>s k'. (socket_step pipe_os)\<^sup>*\<^sup>* (socket_new, \<lparr>p_in = [], p_out = [], p_signals = 0, p_flags = 0\<rparr>) (s, k') \<and>
    m_state s = connected \<and> m_fd s \<noteq> - 1"
proof -
  let ?k = "\<lparr>p_in = [], p_out = [], p_signals = 0, p_flags = 0\<rparr>"
  obtain r s k' where c: "socket_connect pipe_os 0 80 5 0 socket_new ?k = (r, s, k')" by (metis surj_pair)
  then have "m_state s = connected"
    by (auto simp: socket_connect_def socket_open_def socket_new_def set_nonblocking_def socket_finish_connect_def
        socket_await_def pipe_os_def would_block_def)
  moreover have "(socket_step pipe_os)\<^sup>*\<^sup>* (socket_new, ?k) (s, k')"
    using step_connect [OF c] by blast
  moreover have "socket_fds_ok pipe_os" by (simp add: socket_fds_ok_def pipe_os_def)
  ultimately show ?thesis using socket_state_has_descriptor [of pipe_os ?k s k'] by auto
qed

text \<open>When the connection of a non-blocking socket, which is what both \<open>connect\<close> functions make first,
  succeeds, the socket is connected and keeps its descriptor, and it is left non-blocking exactly when the system
  connected it at once: that branch returns before \<open>set_nonblocking(false)\<close>.\<close>

theorem socket_connect_mode:
  assumes "socket_finish_connect os addr t s k = (Inr (), s', k')" and "m_fd s \<noteq> - 1" and "m_nonblocking s"
  shows "m_state s' = connected \<and> m_fd s' = m_fd s \<and>
    (m_nonblocking s' \<longleftrightarrow> (\<exists>k1. os_connect os k (m_fd s) addr = (Inr (), k1)))"
  using finish_connect_fd [OF assms(1,2)] assms(3) by simp

theorem socket_connect_mode_witness:
  "\<exists>s' k'. socket_finish_connect pipe_os (Sockaddr_in 0 80) 5 ((socket_of_fd 3 connecting)\<lparr>m_nonblocking := True\<rparr>)
      \<lparr>p_in = [], p_out = [], p_signals = 0, p_flags = 0\<rparr> = (Inr (), s', k') \<and> m_state s' = connected \<and> \<not> m_nonblocking s'"
proof -
  let ?k = "\<lparr>p_in = [], p_out = [], p_signals = 0, p_flags = 0\<rparr>"
  let ?s = "(socket_of_fd 3 connecting)\<lparr>m_nonblocking := True\<rparr>"
  have s: "m_fd ?s \<noteq> - 1" "m_nonblocking ?s" by (simp_all add: socket_of_fd_def)
  have "\<exists>s' k'. socket_finish_connect pipe_os (Sockaddr_in 0 80) 5 ?s ?k = (Inr (), s', k')"
    by (auto simp: socket_of_fd_def socket_new_def set_nonblocking_def socket_finish_connect_def
        socket_await_def pipe_os_def would_block_def)
  then obtain s' k' where c: "socket_finish_connect pipe_os (Sockaddr_in 0 80) 5 ?s ?k = (Inr (), s', k')" by blast
  have "\<nexists>k1. os_connect pipe_os ?k (m_fd ?s) (Sockaddr_in 0 80) = (Inr (), k1)" by (simp add: pipe_os_def)
  then have "m_state s' = connected \<and> \<not> m_nonblocking s'" using socket_connect_mode [OF c s] by blast
  with c show ?thesis by blast
qed

text \<open>The name of a local socket is copied with the larger of its length and the room, not the smaller: a
  name of more than 108 bytes is written past the end of \<open>sun_path\<close> by \<open>listen\<close> and by \<open>connect\<close>, one of
  exactly 108 makes \<open>listen\<close> read past it, and a shorter one is stored with zeros after it.\<close>

theorem socket_unix_name:
  assumes "m_fd s \<noteq> - 1" and "fst (set_nonblocking os True s k) = Inr ()"
  shows "(108 < length adr \<longrightarrow>
      fst (socket_listen_unix os adr n share s k) = Inl (Undefined ''copy past the end of sun_path'') \<and>
      fst (socket_connect_unix os adr t s k) = Inl (Undefined ''copy past the end of sun_path'')) \<and>
    (length adr = 108 \<and> 0 \<notin> set adr \<longrightarrow>
      fst (socket_listen_unix os adr n share s k) = Inl (Undefined ''unlink reads past the end of sun_path'')) \<and>
    (length adr < 108 \<longrightarrow> sun_path adr = Inr (adr @ replicate (108 - length adr) 0))"
proof -
  obtain s' k' where nb: "set_nonblocking os True s k = (Inr (), s', k')"
    using assms(2) by (cases "set_nonblocking os True s k") auto
  have o: "socket_open os family s k = (Inr (), s, k)" for family using assms(1) by (simp add: socket_open_def)
  have p: "108 < length adr \<Longrightarrow> sun_path adr = Inl (Undefined ''copy past the end of sun_path'')"
    "length adr \<le> 108 \<Longrightarrow> sun_path adr = Inr (adr @ replicate (108 - length adr) 0)"
    by (simp_all add: sun_path_def memcpy_at_def Let_def)
  show ?thesis using o nb p by (simp add: socket_listen_unix_def socket_connect_unix_def Let_def)
qed

theorem socket_unix_name_witness:
  "fst (socket_listen_unix pipe_os (replicate 109 1) 5 False (socket_of_fd 3 disconnected)
      \<lparr>p_in = [], p_out = [], p_signals = 0, p_flags = 0\<rparr>) = Inl (Undefined ''copy past the end of sun_path'')"
proof -
  let ?k = "\<lparr>p_in = [], p_out = [], p_signals = 0, p_flags = 0\<rparr>"
  have "m_fd (socket_of_fd 3 disconnected) \<noteq> - 1" "fst (set_nonblocking pipe_os True (socket_of_fd 3 disconnected) ?k) = Inr ()"
    by (simp_all add: socket_of_fd_def set_nonblocking_def pipe_os_def)
  from socket_unix_name [OF this, of "replicate 109 1" 5 False 0] show ?thesis by (simp del: replicate.simps)
qed

end
