(* ===== verification/Ez_Phr.thy ===== *)
theory Ez_Phr
  imports Ez_Bytes
begin

text \<open>
  The HTTP parser \<open>picohttpparser\<close> (\<open>source/picohttpparser.h\<close>, \<open>source/picohttpparser.c\<close>), as it
  is compiled without SSE 4.2 (the other build is in \<open>Ez_Phr_Sse\<close>). A parser works on the array from \<open>buf_start\<close> to \<open>buf_end\<close> and a position in it: it is
  done with a result and a new position, stops with a return code, or has read outside the array.
  What a call that stops leaves in its output parameters is not modelled.
\<close>

section \<open>Parsers\<close>

datatype 'a parse = Done 'a nat | Stop int | Oob

type_synonym 'a parser = "bytes \<Rightarrow> nat \<Rightarrow> 'a parse"

definition ret :: "'a \<Rightarrow> 'a parser" where
  "ret x buf i = Done x i"

definition stop :: "int \<Rightarrow> 'a parser" where
  "stop r buf i = Stop r"

definition pbind :: "'a parser \<Rightarrow> ('a \<Rightarrow> 'b parser) \<Rightarrow> 'b parser" where
  "pbind p f buf i = (case p buf i of Done x j \<Rightarrow> f x buf j | Stop r \<Rightarrow> Stop r | Oob \<Rightarrow> Oob)"

text \<open>\<open>*buf\<close>, \<open>++buf\<close>, and the pointer itself.\<close>

definition peek :: "u8 parser" where
  "peek buf i = (if i < length buf then Done (buf ! i) i else Oob)"

definition step :: "unit parser" where
  "step buf i = Done () (i + 1)"

definition here :: "nat parser" where
  "here buf i = Done i i"

definition pseq :: "unit parser \<Rightarrow> 'b parser \<Rightarrow> 'b parser" where
  "pseq p q = pbind p (\<lambda>_. q)"

definition IS_PRINTABLE_ASCII :: "u8 \<Rightarrow> bool" where
  "IS_PRINTABLE_ASCII c \<longleftrightarrow> (ucast c :: u32) - 32 < 95"

definition CHECK_EOF :: "unit parser" where
  "CHECK_EOF buf i = (if i = length buf then Stop (- 2) else Done () i)"

definition EXPECT_CHAR_NO_CHECK :: "u8 \<Rightarrow> unit parser" where
  "EXPECT_CHAR_NO_CHECK c = pbind peek (\<lambda>x. pseq step (if x \<noteq> c then stop (- 1) else ret ()))"

definition EXPECT_CHAR :: "u8 \<Rightarrow> unit parser" where
  "EXPECT_CHAR c = pseq CHECK_EOF (EXPECT_CHAR_NO_CHECK c)"

text \<open>\<open>if (buf_end - buf < n)\<close>.\<close>

definition NEED :: "nat \<Rightarrow> unit parser" where
  "NEED n buf i = (if int (length buf) - int i < int n then Stop (- 2) else Done () i)"

definition PARSE_INT :: "int \<Rightarrow> int parser" where
  "PARSE_INT mul = pbind peek (\<lambda>c.
     if c <s ch CHR ''0'' \<or> ch CHR ''9'' <s c then pseq step (stop (- 1))
     else pseq step (ret (mul * (sint c - 48))))"

definition PARSE_INT_3 :: "int parser" where
  "PARSE_INT_3 = pbind (PARSE_INT 100) (\<lambda>a. pbind (PARSE_INT 10) (\<lambda>b. pbind (PARSE_INT 1) (\<lambda>c. ret (a + b + c))))"

text \<open>A token is its first position and its length.\<close>

type_synonym slice = "nat \<times> nat"

section \<open>Loops\<close>

text \<open>The loop of \<open>ADVANCE_TOKEN\<close>.\<close>

function advance_loop :: "unit parser" where
  "advance_loop buf i =
     (if i < length buf then
        if buf ! i = ch CHR '' '' then Done () i
        else if \<not> IS_PRINTABLE_ASCII (buf ! i) \<and> (buf ! i < 32 \<or> buf ! i = 127) then Stop (- 1)
        else if i + 1 = length buf then Stop (- 2)
        else advance_loop buf (i + 1)
      else Oob)"
  by pat_completeness auto
termination by (relation "measure (\<lambda>(buf, i). length buf - i)") auto

definition ADVANCE_TOKEN :: "slice parser" where
  "ADVANCE_TOKEN = pbind here (\<lambda>tok_start. pseq CHECK_EOF (pseq advance_loop
     (pbind here (\<lambda>buf. ret (tok_start, buf - tok_start)))))"

text \<open>The first half of \<open>token_char_map\<close>; the entries from 128 on are 0.\<close>

definition token_char_map :: "nat list" where
  "token_char_map =
     [0,0,0,0,0,0,0,0,0,0,0,0,0,0,0,0,0,0,0,0,0,0,0,0,0,0,0,0,0,0,0,0,
      0,1,0,1,1,1,1,1,0,0,1,1,0,1,1,0,1,1,1,1,1,1,1,1,1,1,0,0,0,0,0,0,
      0,1,1,1,1,1,1,1,1,1,1,1,1,1,1,1,1,1,1,1,1,1,1,1,1,1,1,0,0,0,1,1,
      1,1,1,1,1,1,1,1,1,1,1,1,1,1,1,1,1,1,1,1,1,1,1,1,1,1,1,0,1,0,1,0] @ replicate 128 0"

function token_loop :: "u8 \<Rightarrow> unit parser" where
  "token_loop next_char buf i =
     (if i < length buf then
        if buf ! i = next_char then Done () i
        else if token_char_map ! unat (buf ! i) = 0 then Stop (- 1)
        else if i + 1 = length buf then Stop (- 2)
        else token_loop next_char buf (i + 1)
      else Oob)"
  by pat_completeness auto
termination by (relation "measure (\<lambda>(c, buf, i). length buf - i)") auto

definition parse_token :: "u8 \<Rightarrow> slice parser" where
  "parse_token next_char = pbind here (\<lambda>buf_start. pseq CHECK_EOF (pseq (token_loop next_char)
     (pbind here (\<lambda>buf. ret (buf_start, buf - buf_start)))))"

definition FOUND_CTL :: "u8 \<Rightarrow> bool" where
  "FOUND_CTL c \<longleftrightarrow> (c < 32 \<and> c \<noteq> 9) \<or> c = 127"

text \<open>The eight repetitions of \<open>DOIT\<close>: the position reached, and whether by \<open>goto NonPrintable\<close>.\<close>

fun DOIT :: "nat \<Rightarrow> bytes \<Rightarrow> nat \<Rightarrow> (nat \<times> bool) option" where
  "DOIT 0 buf i = Some (i, False)"
| "DOIT (Suc n) buf i =
     (if i < length buf then
        if \<not> IS_PRINTABLE_ASCII (buf ! i) then Some (i, True) else DOIT n buf (i + 1)
      else None)"

lemma DOIT_bounds: "DOIT n buf i = Some (j, np) \<Longrightarrow> i \<le> j \<and> j \<le> i + n \<and> (np \<or> j = i + n) \<and> (np \<longrightarrow> j < length buf)"
  by (induction n buf i rule: DOIT.induct) (fastforce split: if_splits)+

text \<open>The loop that looks at eight characters at a time: where it leaves, and whether to \<open>FOUND_CTL\<close>.\<close>

function eol_fast :: "bytes \<Rightarrow> nat \<Rightarrow> (nat \<times> bool) option" where
  "eol_fast buf i =
     (if i + 8 \<le> length buf then
        (case DOIT 8 buf i of
           None \<Rightarrow> None
         | Some (j, np) \<Rightarrow>
             if \<not> np then eol_fast buf j
             else if FOUND_CTL (buf ! j) then Some (j, True)
             else eol_fast buf (j + 1))
      else Some (i, False))"
  by pat_completeness auto
termination
  by (relation "measure (\<lambda>(buf, i). length buf - i)") (auto dest!: DOIT_bounds)

text \<open>The loop that looks at one character at a time, up to a control character.\<close>

function eol_slow :: "unit parser" where
  "eol_slow buf i =
     (if i = length buf then Stop (- 2)
      else if i < length buf then
        if \<not> IS_PRINTABLE_ASCII (buf ! i) \<and> FOUND_CTL (buf ! i) then Done () i else eol_slow buf (i + 1)
      else Oob)"
  by pat_completeness auto
termination by (relation "measure (\<lambda>(buf, i). length buf - i)") auto

definition eol_scan :: "unit parser" where
  "eol_scan buf i =
     (case eol_fast buf i of None \<Rightarrow> Oob | Some (j, found) \<Rightarrow> if found then Done () j else eol_slow buf j)"

declare advance_loop.simps [simp del] token_loop.simps [simp del] eol_fast.simps [simp del] eol_slow.simps [simp del]

definition get_token_to_eol :: "slice parser" where
  "get_token_to_eol = pbind here (\<lambda>token_start. pseq eol_scan (pbind peek (\<lambda>c.
     if c = 13 then
       pseq step (pseq (EXPECT_CHAR 10) (pbind here (\<lambda>buf. ret (token_start, buf - 2 - token_start))))
     else if c = 10 then
       pbind here (\<lambda>buf. pseq step (ret (token_start, buf - token_start)))
     else stop (- 1))))"

function complete_loop :: "nat \<Rightarrow> unit parser" where
  "complete_loop ret_cnt buf i =
     (if i = length buf then Stop (- 2)
      else if i < length buf then
        if buf ! i = 13 then
          (if i + 1 = length buf then Stop (- 2)
           else if buf ! (i + 1) \<noteq> 10 then Stop (- 1)
           else if ret_cnt + 1 = 2 then Done () (i + 2) else complete_loop (ret_cnt + 1) buf (i + 2))
        else if buf ! i = 10 then
          (if ret_cnt + 1 = 2 then Done () (i + 1) else complete_loop (ret_cnt + 1) buf (i + 1))
        else complete_loop 0 buf (i + 1)
      else Oob)"
  by pat_completeness auto
termination by (relation "measure (\<lambda>(n, buf, i). length buf - i)") auto

declare complete_loop.simps [simp del]

definition is_complete :: "nat \<Rightarrow> unit parser" where
  "is_complete last_len buf i = complete_loop 0 buf (if last_len < 3 then i else i + last_len - 3)"

section \<open>Headers\<close>

text \<open>A name that is \<open>NULL\<close>, on a continued line, is \<open>None\<close>.\<close>

record phr_header =
  h_name :: "slice option"
  h_value :: slice

text \<open>\<open>for (;; ++buf) { CHECK_EOF(); if (!(*buf == ' ' || *buf == '\t')) break; }\<close>\<close>

function skip_blanks :: "unit parser" where
  "skip_blanks buf i =
     (if i = length buf then Stop (- 2)
      else if i < length buf then
        if buf ! i = ch CHR '' '' \<or> buf ! i = 9 then skip_blanks buf (i + 1) else Done () i
      else Oob)"
  by pat_completeness auto
termination by (relation "measure (\<lambda>(buf, i). length buf - i)") auto

text \<open>\<open>do { ++buf; CHECK_EOF(); } while (*buf == ' ');\<close>\<close>

function skip_spaces :: "unit parser" where
  "skip_spaces buf i =
     (if i + 1 = length buf then Stop (- 2)
      else if i + 1 < length buf then
        if buf ! (i + 1) = ch CHR '' '' then skip_spaces buf (i + 1) else Done () (i + 1)
      else Oob)"
  by pat_completeness auto
termination by (relation "measure (\<lambda>(buf, i). length buf - i)") auto

declare skip_blanks.simps [simp del] skip_spaces.simps [simp del]

text \<open>The trailing blanks of a value: the loop on \<open>value_end\<close> gives the new length.\<close>

fun trim_end :: "bytes \<Rightarrow> nat \<Rightarrow> nat \<Rightarrow> nat option" where
  "trim_end buf v 0 = Some 0"
| "trim_end buf v (Suc n) =
     (if v + n < length buf then
        if buf ! (v + n) = ch CHR '' '' \<or> buf ! (v + n) = 9 then trim_end buf v n else Some (Suc n)
      else None)"

definition trim_value :: "slice \<Rightarrow> slice parser" where
  "trim_value v buf i = (case trim_end buf (fst v) (snd v) of None \<Rightarrow> Oob | Some n \<Rightarrow> Done (fst v, n) i)"

text \<open>The end of a line: CR LF or LF.\<close>

definition line_end :: "unit parser \<Rightarrow> unit parser" where
  "line_end other = pbind peek (\<lambda>c.
     if c = 13 then pseq step (EXPECT_CHAR 10) else if c = 10 then step else other)"

definition header_name :: "u8 \<Rightarrow> nat \<Rightarrow> slice option parser" where
  "header_name c num_headers =
     (if \<not> (num_headers \<noteq> 0 \<and> (c = ch CHR '' '' \<or> c = 9)) then
        pbind (parse_token (ch CHR '':'')) (\<lambda>name.
          if snd name = 0 then stop (- 1) else pseq step (pseq skip_blanks (ret (Some name))))
      else ret None)"

text \<open>One iteration of the loop of \<open>parse_headers\<close>; \<open>None\<close> is its end at the empty line.\<close>

definition header_line :: "nat \<Rightarrow> nat \<Rightarrow> phr_header option parser" where
  "header_line max_headers num_headers = pseq CHECK_EOF (pbind peek (\<lambda>c.
     if c = 13 then pseq step (pseq (EXPECT_CHAR 10) (ret None))
     else if c = 10 then pseq step (ret None)
     else if num_headers = max_headers then stop (- 1)
     else pbind (header_name c num_headers) (\<lambda>name. pbind get_token_to_eol (\<lambda>value. pbind (trim_value value) (\<lambda>value.
       ret (Some \<lparr>h_name = name, h_value = value\<rparr>))))))"

section \<open>What every parser keeps\<close>

text \<open>\<open>sound P p Q\<close>: from a position where \<open>P\<close> holds, \<open>p\<close> reads only inside the array and stops only with
  -1 or -2, \<open>Q\<close> holds of its result, and an outcome other than "incomplete" (-2) does not change when more data
  follows.\<close>

definition sound_at :: "'a parser \<Rightarrow> ('a \<Rightarrow> bytes \<Rightarrow> nat \<Rightarrow> bool) \<Rightarrow> bytes \<Rightarrow> nat \<Rightarrow> bool" where
  "sound_at p Q buf i \<longleftrightarrow>
     (case p buf i of Done x j \<Rightarrow> Q x buf j | Stop r \<Rightarrow> r = - 1 \<or> r = - 2 | Oob \<Rightarrow> False) \<and>
     (p buf i \<noteq> Stop (- 2) \<longrightarrow> (\<forall>more. p (buf @ more) i = p buf i))"

definition sound :: "(bytes \<Rightarrow> nat \<Rightarrow> bool) \<Rightarrow> 'a parser \<Rightarrow> ('a \<Rightarrow> bytes \<Rightarrow> nat \<Rightarrow> bool) \<Rightarrow> bool" where
  "sound P p Q \<longleftrightarrow> (\<forall>buf i. P buf i \<longrightarrow> sound_at p Q buf i)"

named_theorems sound_intro

lemma sound_ret [sound_intro]: "(\<And>buf i. P buf i \<Longrightarrow> Q x buf i) \<Longrightarrow> sound P (ret x) Q"
  by (simp add: sound_def sound_at_def ret_def)

lemma sound_stop [sound_intro]: "r = - 1 \<or> r = - 2 \<Longrightarrow> sound P (stop r) Q"
  by (simp add: sound_def sound_at_def stop_def)

lemma sound_bind [sound_intro]:
  assumes "sound P p Q" and "\<And>x. sound (Q x) (f x) R"
  shows "sound P (pbind p f) R"
  unfolding sound_def
proof (intro allI impI)
  fix buf i assume "P buf i"
  then have p: "sound_at p Q buf i" using assms(1) by (simp add: sound_def)
  show "sound_at (pbind p f) R buf i"
  proof (cases "p buf i")
    case (Done x j)
    then have "sound_at (f x) R buf j" using p assms(2) by (simp add: sound_at_def sound_def)
    moreover have "\<forall>more. p (buf @ more) i = Done x j" using p Done by (simp add: sound_at_def)
    ultimately show ?thesis using Done by (simp add: sound_at_def pbind_def)
  qed (use p in \<open>auto simp: sound_at_def pbind_def\<close>)
qed

lemma sound_seq [sound_intro]: "sound P p (\<lambda>_. Q) \<Longrightarrow> sound Q q R \<Longrightarrow> sound P (pseq p q) R"
  unfolding pseq_def by (rule sound_bind)

lemma sound_cases [sound_intro]: "(b \<Longrightarrow> sound P p Q) \<Longrightarrow> (\<not> b \<Longrightarrow> sound P q Q) \<Longrightarrow> sound P (if b then p else q) Q"
  by simp

lemma sound_weaken:
  "sound P' p Q' \<Longrightarrow> (\<And>buf i. P buf i \<Longrightarrow> P' buf i) \<Longrightarrow> (\<And>x buf i. Q' x buf i \<Longrightarrow> Q x buf i) \<Longrightarrow> sound P p Q"
  unfolding sound_def sound_at_def by (fastforce split: parse.splits)

text \<open>The position stays between \<open>lo\<close> and the end, with \<open>n\<close> characters to come.\<close>

definition avail :: "nat \<Rightarrow> nat \<Rightarrow> bytes \<Rightarrow> nat \<Rightarrow> bool" where
  "avail lo n buf i \<longleftrightarrow> lo \<le> i \<and> i + n \<le> length buf"

lemma sound_step [sound_intro]: "sound (avail lo (Suc n)) step (\<lambda>_. avail lo n)"
  by (simp add: sound_def sound_at_def step_def avail_def)

lemma sound_here [sound_intro]: "sound (avail lo n) here (\<lambda>x buf i. avail lo n buf i \<and> x = i)"
  by (simp add: sound_def sound_at_def here_def)

lemma sound_peek [sound_intro]: "sound (avail lo (Suc n)) peek (\<lambda>_. avail lo (Suc n))"
  by (simp add: sound_def sound_at_def peek_def avail_def nth_append)

lemma sound_EOF [sound_intro]: "sound (avail lo 0) CHECK_EOF (\<lambda>_. avail lo 1)"
  by (auto simp: sound_def sound_at_def CHECK_EOF_def avail_def)

lemma sound_NEED [sound_intro]: "sound (avail lo 0) (NEED n) (\<lambda>_. avail lo n)"
  by (auto simp: sound_def sound_at_def NEED_def avail_def)

lemma sound_EXPECT_NO_CHECK [sound_intro]: "sound (avail lo (Suc n)) (EXPECT_CHAR_NO_CHECK c) (\<lambda>_. avail lo n)"
  unfolding EXPECT_CHAR_NO_CHECK_def by (rule sound_intro | simp)+

lemma sound_EXPECT [sound_intro]: "sound (avail lo 0) (EXPECT_CHAR c) (\<lambda>_. avail lo 0)"
  unfolding EXPECT_CHAR_def One_nat_def [symmetric]
  by (rule sound_seq [OF sound_EOF]) (simp add: sound_EXPECT_NO_CHECK)

lemma sound_PARSE_INT [sound_intro]: "sound (avail lo (Suc n)) (PARSE_INT m) (\<lambda>_. avail lo n)"
  unfolding PARSE_INT_def by (rule sound_intro | simp)+

section \<open>The loops keep it\<close>

lemma sound_at_done: "p buf i = Done x j \<Longrightarrow> (\<And>more. p (buf @ more) i = Done x j) \<Longrightarrow> Q x buf j \<Longrightarrow> sound_at p Q buf i"
  by (simp add: sound_at_def)

lemma sound_at_stop: "p buf i = Stop r \<Longrightarrow> r = - 2 \<or> r = - 1 \<and> (\<forall>more. p (buf @ more) i = Stop r) \<Longrightarrow> sound_at p Q buf i"
  by (auto simp: sound_at_def)

lemma sound_at_jump: "p buf i = p buf j \<Longrightarrow> (\<And>more. p (buf @ more) i = p (buf @ more) j) \<Longrightarrow> sound_at p Q buf j \<Longrightarrow> sound_at p Q buf i"
  by (simp add: sound_at_def)

text \<open>The loops that look at one character after the other: what a character makes the loop do.\<close>

datatype act = Leave | Fail | Go

locale char_loop =
  fixes p :: "unit parser"
    and act :: "u8 \<Rightarrow> act"
  assumes unfold: "i < length buf \<Longrightarrow> p buf i =
    (case act (buf ! i) of
       Leave \<Rightarrow> Done () i
     | Fail \<Rightarrow> Stop (- 1)
     | Go \<Rightarrow> if i + 1 = length buf then Stop (- 2) else p buf (i + 1))"
begin

lemma at_sound:
  "i < length buf \<Longrightarrow> i0 \<le> i \<Longrightarrow>
    sound_at p (\<lambda>_ buf' j. buf' = buf \<and> i0 \<le> j \<and> j < length buf \<and> act (buf ! j) = Leave) buf i"
proof (induction "length buf - i" arbitrary: i rule: less_induct)
  case less
  have more: "p (buf @ more) i =
    (case act (buf ! i) of Leave \<Rightarrow> Done () i | Fail \<Rightarrow> Stop (- 1)
     | Go \<Rightarrow> if i + 1 = length (buf @ more) then Stop (- 2) else p (buf @ more) (i + 1))" for more
    using less.prems(1) by (subst unfold) (simp_all add: nth_append)
  note here = unfold [OF less.prems(1)]
  show ?case
  proof (cases "act (buf ! i)")
    case Leave
    then show ?thesis using less.prems here more by (intro sound_at_done [of _ _ _ "()" i]) simp_all
  next
    case Fail
    then show ?thesis using here more by (intro sound_at_stop [of _ _ _ "- 1"]) simp_all
  next
    case Go
    show ?thesis
    proof (cases "i + 1 = length buf")
      case True
      then show ?thesis using Go here by (intro sound_at_stop [of _ _ _ "- 2"]) simp_all
    next
      case False
      then show ?thesis
        using Go here more less.prems less.hyps [of "i + 1"]
        by (intro sound_at_jump [of _ _ i "i + 1"]) simp_all
    qed
  qed
qed

lemma sound_loop: "sound (avail lo (Suc 0)) p (\<lambda>_. avail lo (Suc 0))"
  unfolding sound_def
proof (intro allI impI)
  fix buf i assume "avail lo (Suc 0) buf i"
  then show "sound_at p (\<lambda>_. avail lo (Suc 0)) buf i"
    using at_sound [of i buf lo] by (auto simp: sound_at_def avail_def split: parse.splits)
qed

lemma reaches:
  "j < length buf \<Longrightarrow> i \<le> j \<Longrightarrow> (\<And>k. i \<le> k \<Longrightarrow> k < j \<Longrightarrow> act (buf ! k) = Go) \<Longrightarrow> act (buf ! j) = Leave \<Longrightarrow>
    p buf i = Done () j"
proof (induction "j - i" arbitrary: i)
  case 0
  then show ?case by (subst unfold) simp_all
next
  case (Suc d)
  then have "p buf i = p buf (i + 1)" by (subst unfold) simp_all
  also have "\<dots> = Done () j" using Suc by (intro Suc.hyps(1)) simp_all
  finally show ?case .
qed

end

definition advance_act :: "u8 \<Rightarrow> act" where
  "advance_act c = (if c = 32 then Leave else if \<not> IS_PRINTABLE_ASCII c \<and> (c < 32 \<or> c = 127) then Fail else Go)"

definition token_act :: "u8 \<Rightarrow> u8 \<Rightarrow> act" where
  "token_act next_char c = (if c = next_char then Leave else if token_char_map ! unat c = 0 then Fail else Go)"

definition eol_act :: "u8 \<Rightarrow> act" where
  "eol_act c = (if \<not> IS_PRINTABLE_ASCII c \<and> FOUND_CTL c then Leave else Go)"

definition blank_act :: "u8 \<Rightarrow> act" where
  "blank_act c = (if c = 32 \<or> c = 9 then Go else Leave)"

interpretation advance: char_loop advance_loop advance_act
  by unfold_locales (subst advance_loop.simps, simp add: advance_act_def)

interpretation token: char_loop "token_loop next_char" "token_act next_char" for next_char
  by unfold_locales (subst token_loop.simps, simp add: token_act_def)

interpretation eol: char_loop eol_slow eol_act
  by unfold_locales (subst eol_slow.simps, simp add: eol_act_def eol_slow.simps [of _ "Suc i" for i])

interpretation blanks: char_loop skip_blanks blank_act
  by unfold_locales (subst skip_blanks.simps, simp add: blank_act_def skip_blanks.simps [of _ "Suc i" for i])

lemmas char_loops_sound [sound_intro] = advance.sound_loop token.sound_loop blanks.sound_loop eol.sound_loop

text \<open>The loop unrolled eight times is the simple loop.\<close>

lemma printable_go: "IS_PRINTABLE_ASCII (buf ! i) \<Longrightarrow> i < length buf \<Longrightarrow> eol_slow buf i = eol_slow buf (i + 1)"
  by (subst eol_slow.simps) simp

lemma DOIT_scan:
  "DOIT n buf i = Some (j, np) \<Longrightarrow> eol_slow buf i = eol_slow buf j \<and> (np \<longrightarrow> j < length buf \<and> \<not> IS_PRINTABLE_ASCII (buf ! j))"
  by (induction n buf i rule: DOIT.induct) (auto simp: printable_go split: if_splits)

lemma DOIT_total: "i + n \<le> length buf \<Longrightarrow> DOIT n buf i \<noteq> None"
  by (induction n buf i rule: DOIT.induct) auto

lemma eol_scan_slow: "eol_scan buf i = eol_slow buf i"
proof (induction buf i rule: eol_fast.induct)
  case (1 buf i)
  show ?case
  proof (cases "i + 8 \<le> length buf")
    case False
    then show ?thesis by (simp add: eol_scan_def eol_fast.simps [of buf i])
  next
    case True
    then obtain j np where d: "DOIT 8 buf i = Some (j, np)" using DOIT_total by fastforce
    note s = DOIT_scan [OF d]
    have f: "eol_fast buf i = (if \<not> np then eol_fast buf j else if FOUND_CTL (buf ! j) then Some (j, True) else eol_fast buf (j + 1))"
      using True d by (simp add: eol_fast.simps [of buf i])
    consider "\<not> np" | "np" "FOUND_CTL (buf ! j)" | "np" "\<not> FOUND_CTL (buf ! j)" by blast
    then show ?thesis
    proof cases
      case 1
      then show ?thesis using "1.IH"(1) [OF True d refl] s f by (simp add: eol_scan_def)
    next
      case 2
      then show ?thesis using s f eol_slow.simps [of buf j] by (simp add: eol_scan_def)
    next
      case 3
      then have "eol_slow buf j = eol_slow buf (j + 1)" using s eol_slow.simps [of buf j] by simp
      then show ?thesis using 3 "1.IH"(2) [OF True d refl] s f by (simp add: eol_scan_def)
    qed
  qed
qed

lemma eol_scan_eq: "eol_scan = eol_slow"
  by (intro ext eol_scan_slow)

lemma sound_eol [sound_intro]: "sound (avail lo (Suc 0)) eol_scan (\<lambda>_. avail lo (Suc 0))"
  unfolding eol_scan_eq by (rule eol.sound_loop)

lemma eol_at_end: "eol_slow buf (length buf) = Stop (- 2)" "skip_blanks buf (length buf) = Stop (- 2)"
  by (simp_all add: eol_slow.simps skip_blanks.simps)

text \<open>Those two loops may also start at the end.\<close>

lemma sound_at_end:
  assumes "sound (avail lo (Suc 0)) p Q" and "\<And>buf. p buf (length buf) = Stop (- 2)"
  shows "sound (avail lo 0) p Q"
  unfolding sound_def
proof (intro allI impI)
  fix buf i assume a: "avail lo 0 buf i"
  show "sound_at p Q buf i"
  proof (cases "i = length buf")
    case True
    then show ?thesis using assms(2) by (simp add: sound_at_def)
  next
    case False
    then show ?thesis using assms(1) a by (auto simp: sound_def avail_def)
  qed
qed

lemma sound_eol_0 [sound_intro]: "sound (avail lo 0) eol_scan (\<lambda>_. avail lo (Suc 0))"
  using sound_at_end [OF eol.sound_loop eol_at_end(1)] by (simp add: eol_scan_eq)

lemma sound_blanks_0 [sound_intro]: "sound (avail lo 0) skip_blanks (\<lambda>_. avail lo (Suc 0))"
  by (rule sound_at_end [OF blanks.sound_loop eol_at_end(2)])

lemma sound_spaces [sound_intro]: "sound (avail lo (Suc 0)) skip_spaces (\<lambda>_. avail lo (Suc 0))"
  unfolding sound_def
proof (intro allI impI)
  fix buf i assume "avail lo (Suc 0) buf i"
  then show "sound_at skip_spaces (\<lambda>_. avail lo (Suc 0)) buf i"
  proof (induction buf i rule: skip_spaces.induct)
    case (1 buf i)
    have more: "i + 1 < length buf \<Longrightarrow> skip_spaces (buf @ more) i =
        (if buf ! (i + 1) = 32 then skip_spaces (buf @ more) (i + 1) else Done () (i + 1))" for more
      by (simp add: skip_spaces.simps [of "buf @ more" i] nth_append)
    show ?case
    proof (cases "i + 1 = length buf")
      case True
      then show ?thesis by (intro sound_at_stop [of _ _ _ "- 2"]) (simp_all add: skip_spaces.simps [of buf i])
    next
      case False
      then have i: "i + 1 < length buf" using "1.prems" by (simp add: avail_def)
      show ?thesis
      proof (cases "buf ! (i + 1) = 32")
        case True
        then show ?thesis
          using 1 i more by (intro sound_at_jump [of _ _ i "i + 1"])
            (simp_all add: avail_def skip_spaces.simps [of buf i])
      next
        case False
        then show ?thesis
          using "1.prems" i more by (intro sound_at_done [of _ _ _ "()" "i + 1"])
            (simp_all add: avail_def skip_spaces.simps [of buf i])
      qed
    qed
  qed
qed

section \<open>Tokens and lines\<close>

definition slice_in :: "slice \<Rightarrow> bytes \<Rightarrow> bool" where
  "slice_in v buf \<longleftrightarrow> fst v + snd v \<le> length buf"

lemma sound_from_here:
  assumes "\<And>s. lo \<le> s \<Longrightarrow> sound (avail s n) (f s) R"
  shows "sound (avail lo n) (pbind here f) R"
  unfolding sound_def
proof (intro allI impI)
  fix buf i assume "avail lo n buf i"
  then have "sound_at (f i) R buf i" using assms [of i] by (simp add: sound_def avail_def)
  then show "sound_at (pbind here f) R buf i" by (simp add: sound_at_def pbind_def here_def)
qed

lemma sound_slice: "sound (avail s n) (pbind here (\<lambda>buf. ret (s, buf - k - s))) (\<lambda>v buf i. avail s n buf i \<and> slice_in v buf)"
  by (auto simp: sound_def sound_at_def pbind_def here_def ret_def avail_def slice_in_def)

lemma sound_raise: "lo \<le> s \<Longrightarrow> sound P p (\<lambda>v buf i. avail s n buf i \<and> R v buf i) \<Longrightarrow> sound P p (\<lambda>v buf i. avail lo n buf i \<and> R v buf i)"
  by (erule sound_weaken) (auto simp: avail_def)

lemma sound_ADVANCE_TOKEN: "sound (avail lo 0) ADVANCE_TOKEN (\<lambda>v buf i. avail lo (Suc 0) buf i \<and> slice_in v buf)"
  unfolding ADVANCE_TOKEN_def
proof (rule sound_from_here)
  fix s assume lo: "lo \<le> s"
  have "sound (avail s 0) (pseq CHECK_EOF (pseq advance_loop (pbind here (\<lambda>buf. ret (s, buf - s)))))
      (\<lambda>v buf i. avail s (Suc 0) buf i \<and> slice_in v buf)"
    using sound_slice [of s "Suc 0" 0] sound_EOF [of s] advance.sound_loop [of s]
    by (auto intro!: sound_seq)
  then show "sound (avail s 0) (pseq CHECK_EOF (pseq advance_loop (pbind here (\<lambda>buf. ret (s, buf - s)))))
      (\<lambda>v buf i. avail lo (Suc 0) buf i \<and> slice_in v buf)"
    by (rule sound_raise [OF lo])
qed

lemma sound_parse_token: "sound (avail lo 0) (parse_token c) (\<lambda>v buf i. avail lo (Suc 0) buf i \<and> slice_in v buf)"
  unfolding parse_token_def
proof (rule sound_from_here)
  fix s assume lo: "lo \<le> s"
  have "sound (avail s 0) (pseq CHECK_EOF (pseq (token_loop c) (pbind here (\<lambda>buf. ret (s, buf - s)))))
      (\<lambda>v buf i. avail s (Suc 0) buf i \<and> slice_in v buf)"
    using sound_slice [of s "Suc 0" 0] sound_EOF [of s] token.sound_loop [of s c]
    by (auto intro!: sound_seq)
  then show "sound (avail s 0) (pseq CHECK_EOF (pseq (token_loop c) (pbind here (\<lambda>buf. ret (s, buf - s)))))
      (\<lambda>v buf i. avail lo (Suc 0) buf i \<and> slice_in v buf)"
    by (rule sound_raise [OF lo])
qed

lemma sound_step_up: "sound (avail lo (Suc n)) step (\<lambda>_. avail (Suc lo) n)"
  by (simp add: sound_def sound_at_def step_def avail_def)

text \<open>The token that runs to the end of a line is followed by a character that is not blank.\<close>

definition ended :: "slice \<Rightarrow> bytes \<Rightarrow> bool" where
  "ended v buf \<longleftrightarrow> fst v + snd v < length buf \<and> buf ! (fst v + snd v) \<noteq> 32"

lemma sound_to_eol_ended:
  "sound (avail lo 0) get_token_to_eol (\<lambda>v buf i. avail (Suc lo) 0 buf i \<and> ended v buf)"
  unfolding get_token_to_eol_def
proof (rule sound_from_here)
  fix s assume lo: "lo \<le> s"
  let ?Q = "\<lambda>v buf i. avail (Suc s) 0 buf i \<and> ended v buf"
  let ?P = "\<lambda>c buf i. avail s (Suc 0) buf i \<and> buf ! i = c"
  have peek: "sound (avail s (Suc 0)) peek ?P"
    by (simp add: sound_def sound_at_def peek_def avail_def nth_append)
  have cr: "sound (?P 13) (pseq step (pseq (EXPECT_CHAR 10) (pbind here (\<lambda>buf. ret (s, buf - 2 - s))))) ?Q"
    by (auto simp: sound_def sound_at_def pbind_def pseq_def here_def step_def ret_def stop_def avail_def ended_def
        EXPECT_CHAR_def CHECK_EOF_def EXPECT_CHAR_NO_CHECK_def peek_def nth_append)
  have lf: "sound (?P 10) (pbind here (\<lambda>buf. pseq step (ret (s, buf - s)))) ?Q"
    by (auto simp: sound_def sound_at_def pbind_def pseq_def here_def step_def ret_def avail_def ended_def)
  have branches: "sound (?P c) (if c = 13 then
        pseq step (pseq (EXPECT_CHAR 10) (pbind here (\<lambda>buf. ret (s, buf - 2 - s))))
      else if c = 10 then pbind here (\<lambda>buf. pseq step (ret (s, buf - s))) else stop (- 1)) ?Q" for c
    using cr lf by (cases "c = 13"; cases "c = 10") (simp_all add: sound_stop)
  have "sound (avail s 0) (pseq eol_scan (pbind peek (\<lambda>c. if c = 13 then
        pseq step (pseq (EXPECT_CHAR 10) (pbind here (\<lambda>buf. ret (s, buf - 2 - s))))
      else if c = 10 then pbind here (\<lambda>buf. pseq step (ret (s, buf - s))) else stop (- 1)))) ?Q"
    by (rule sound_seq [OF sound_eol_0], rule sound_bind [OF peek], rule branches)
  then show "sound (avail s 0) (pseq eol_scan (pbind peek (\<lambda>c. if c = 13 then
        pseq step (pseq (EXPECT_CHAR 10) (pbind here (\<lambda>buf. ret (s, buf - 2 - s))))
      else if c = 10 then pbind here (\<lambda>buf. pseq step (ret (s, buf - s))) else stop (- 1))))
      (\<lambda>v buf i. avail (Suc lo) 0 buf i \<and> ended v buf)"
    by (rule sound_raise [rotated]) (use lo in simp)
qed

lemma sound_get_token_to_eol:
  "sound (avail lo 0) get_token_to_eol (\<lambda>v buf i. avail (Suc lo) 0 buf i \<and> slice_in v buf)"
  by (rule sound_weaken [OF sound_to_eol_ended]) (auto simp: ended_def slice_in_def)

lemma trim_end_bounds:
  "v + n \<le> length buf \<Longrightarrow> \<exists>m. trim_end buf v n = Some m \<and> m \<le> n \<and> (\<forall>more. trim_end (buf @ more) v n = Some m)"
  by (induction buf v n rule: trim_end.induct) (auto simp: nth_append le_SucI)

lemma sound_trim_value:
  "sound (\<lambda>buf i. avail lo n buf i \<and> slice_in v buf) (trim_value v) (\<lambda>v buf i. avail lo n buf i \<and> slice_in v buf)"
  unfolding sound_def
proof (intro allI impI)
  fix buf i assume a: "avail lo n buf i \<and> slice_in v buf"
  then obtain m where "trim_end buf (fst v) (snd v) = Some m" "m \<le> snd v"
    "\<forall>more. trim_end (buf @ more) (fst v) (snd v) = Some m"
    using trim_end_bounds [of "fst v" "snd v" buf] by (auto simp: slice_in_def)
  then show "sound_at (trim_value v) (\<lambda>v buf i. avail lo n buf i \<and> slice_in v buf) buf i"
    using a by (simp add: sound_at_def trim_value_def slice_in_def)
qed

lemma sound_frame: "sound P p Q \<Longrightarrow> sound (\<lambda>buf i. P buf i \<and> F buf) p (\<lambda>x buf i. Q x buf i \<and> F buf)"
  by (auto simp: sound_def sound_at_def split: parse.splits)

definition name_in :: "slice option \<Rightarrow> bytes \<Rightarrow> bool" where
  "name_in n buf \<longleftrightarrow> (case n of None \<Rightarrow> True | Some v \<Rightarrow> slice_in v buf)"

definition header_in :: "phr_header \<Rightarrow> bytes \<Rightarrow> bool" where
  "header_in h buf \<longleftrightarrow> name_in (h_name h) buf \<and> slice_in (h_value h) buf"

lemma sound_header_name:
  "sound (avail lo (Suc 0)) (header_name c n) (\<lambda>name buf i. avail lo 0 buf i \<and> name_in name buf)"
proof -
  have 1: "sound (\<lambda>buf i. avail lo (Suc 0) buf i \<and> slice_in v buf)
      (if snd v = 0 then stop (- 1) else pseq step (pseq skip_blanks (ret (Some v))))
      (\<lambda>name buf i. avail lo 0 buf i \<and> name_in name buf)" for v
  proof (intro sound_cases sound_stop)
    show "sound (\<lambda>buf i. avail lo (Suc 0) buf i \<and> slice_in v buf) (pseq step (pseq skip_blanks (ret (Some v))))
        (\<lambda>name buf i. avail lo 0 buf i \<and> name_in name buf)"
      by (rule sound_seq [OF sound_frame [OF sound_step]], rule sound_seq [OF sound_frame [OF sound_blanks_0]],
          rule sound_ret) (auto simp: avail_def name_in_def)
  qed simp
  have 2: "sound (avail lo (Suc 0)) (parse_token (ch CHR '':'')) (\<lambda>v buf i. avail lo (Suc 0) buf i \<and> slice_in v buf)"
    by (rule sound_weaken [OF sound_parse_token]) (auto simp: avail_def)
  show ?thesis
    unfolding header_name_def
    by (intro sound_cases sound_bind [OF 2 1] sound_ret) (auto simp: avail_def name_in_def)
qed

lemma sound_header_line:
  "sound (avail lo 0) (header_line m n)
    (\<lambda>h buf i. avail (Suc lo) 0 buf i \<and> (\<forall>x. h = Some x \<longrightarrow> header_in x buf))"
proof -
  let ?Q = "\<lambda>h buf i. avail (Suc lo) 0 buf i \<and> (\<forall>x. h = Some x \<longrightarrow> header_in x buf)"
  have up: "sound (avail lo (Suc 0)) step (\<lambda>_. avail (Suc lo) 0)" by (rule sound_step_up)
  have none: "sound (avail (Suc lo) 0) (ret None) ?Q" by (rule sound_ret) simp
  have crlf: "sound (avail lo (Suc 0)) (pseq step (pseq (EXPECT_CHAR 10) (ret None))) ?Q"
    by (rule sound_seq [OF up], rule sound_seq [OF sound_EXPECT], rule none)
  have lf: "sound (avail lo (Suc 0)) (pseq step (ret None)) ?Q" by (rule sound_seq [OF up none])
  have fin: "sound (\<lambda>buf i. (avail (Suc lo) 0 buf i \<and> slice_in v buf) \<and> name_in name buf)
      (ret (Some \<lparr>h_name = name, h_value = v\<rparr>)) ?Q" for v name
    by (rule sound_ret) (auto simp: header_in_def)
  have rest: "sound (avail lo (Suc 0)) (pbind (header_name c n) (\<lambda>name. pbind get_token_to_eol (\<lambda>value.
      pbind (trim_value value) (\<lambda>value. ret (Some \<lparr>h_name = name, h_value = value\<rparr>))))) ?Q" for c
    by (rule sound_bind [OF sound_header_name], rule sound_bind [OF sound_frame [OF sound_get_token_to_eol]],
        rule sound_bind [OF sound_frame [OF sound_trim_value]], rule fin)
  have eof: "sound (avail lo 0) CHECK_EOF (\<lambda>_. avail lo (Suc 0))" using sound_EOF by simp
  show ?thesis
    unfolding header_line_def
    by (rule sound_seq [OF eof], rule sound_bind [OF sound_peek], intro sound_cases crlf lf rest sound_stop) simp
qed

text \<open>From inside the array a line moves on; from its end or beyond it there is none.\<close>

lemma header_line_moves: "header_line m n buf i = Done h j \<Longrightarrow> i < j \<and> j \<le> length buf"
proof -
  assume d: "header_line m n buf i = Done h j"
  have "i \<le> length buf"
  proof (rule ccontr)
    assume "\<not> i \<le> length buf"
    then have "header_line m n buf i = Oob"
      by (simp add: header_line_def pseq_def pbind_def CHECK_EOF_def peek_def)
    then show False using d by simp
  qed
  then have "sound_at (header_line m n) (\<lambda>h buf j. avail (Suc i) 0 buf j \<and> (\<forall>x. h = Some x \<longrightarrow> header_in x buf)) buf i"
    using sound_header_line [of i m n] by (simp add: sound_def avail_def)
  then show ?thesis using d by (simp add: sound_at_def avail_def)
qed

function parse_headers :: "nat \<Rightarrow> phr_header list \<Rightarrow> phr_header list parser" where
  "parse_headers max_headers headers buf i =
     (case header_line max_headers (length headers) buf i of
        Done None j \<Rightarrow> Done headers j
      | Done (Some h) j \<Rightarrow> parse_headers max_headers (headers @ [h]) buf j
      | Stop r \<Rightarrow> Stop r
      | Oob \<Rightarrow> Oob)"
  by pat_completeness auto
termination
  by (relation "measure (\<lambda>(m, hs, buf, i). length buf - i)") (auto dest!: header_line_moves)

declare parse_headers.simps [simp del]

lemma parse_headers_sound:
  "lo \<le> i \<Longrightarrow> i \<le> length buf \<Longrightarrow> \<forall>h \<in> set hs. header_in h buf \<Longrightarrow> length hs \<le> m \<Longrightarrow>
    sound_at (parse_headers m hs) (\<lambda>hs' buf j. avail lo 0 buf j \<and> length hs' \<le> m \<and> (\<forall>h \<in> set hs'. header_in h buf)) buf i"
proof (induction m hs buf i rule: parse_headers.induct)
  case (1 m hs buf i)
  let ?Q = "\<lambda>hs' buf j. avail lo 0 buf j \<and> length hs' \<le> m \<and> (\<forall>h \<in> set hs'. header_in h buf)"
  note simps = parse_headers.simps [of m hs buf i] parse_headers.simps [of m hs "buf @ more" i for more]
  have l: "sound_at (header_line m (length hs)) (\<lambda>h buf j. avail (Suc i) 0 buf j \<and> (\<forall>x. h = Some x \<longrightarrow> header_in x buf)) buf i"
    using sound_header_line [of i m "length hs"] "1.prems" by (simp add: sound_def avail_def)
  show ?case
  proof (cases "header_line m (length hs) buf i")
    case (Done h j)
    then have more: "header_line m (length hs) (buf @ more) i = Done h j" for more using l by (simp add: sound_at_def)
    have j: "i < j" "j \<le> length buf" "\<forall>x. h = Some x \<longrightarrow> header_in x buf"
      using l Done by (auto simp: sound_at_def avail_def)
    show ?thesis
    proof (cases h)
      case None
      then show ?thesis
        using Done more j "1.prems" by (intro sound_at_done [of _ _ _ hs j]) (simp_all add: simps avail_def)
    next
      case (Some x)
      have "length hs < m"
      proof (rule ccontr)
        assume "\<not> length hs < m"
        then have "length hs = m" using "1.prems" by simp
        then show False using Done Some
          by (auto simp: header_line_def pseq_def pbind_def CHECK_EOF_def peek_def stop_def ret_def split: if_splits parse.splits)
      qed
      then have "sound_at (parse_headers m (hs @ [x])) ?Q buf j"
        using "1.IH" [OF Done Some] j Some "1.prems" by auto
      then show ?thesis using Done more Some by (simp add: sound_at_def simps)
    qed
  next
    case (Stop r)
    then show ?thesis using l by (auto simp: sound_at_def simps)
  next
    case Oob
    then show ?thesis using l by (simp add: sound_at_def)
  qed
qed

section \<open>Requests and responses\<close>

record phr_request =
  rq_method :: slice
  rq_path :: slice
  rq_minor_version :: int
  rq_headers :: "phr_header list"

record phr_response =
  rs_minor_version :: int
  rs_status :: int
  rs_msg :: slice
  rs_headers :: "phr_header list"

definition parse_http_version :: "int parser" where
  "parse_http_version = pseq (NEED 9)
     (pseq (EXPECT_CHAR_NO_CHECK (ch CHR ''H'')) (pseq (EXPECT_CHAR_NO_CHECK (ch CHR ''T''))
     (pseq (EXPECT_CHAR_NO_CHECK (ch CHR ''T'')) (pseq (EXPECT_CHAR_NO_CHECK (ch CHR ''P''))
     (pseq (EXPECT_CHAR_NO_CHECK (ch CHR ''/'')) (pseq (EXPECT_CHAR_NO_CHECK (ch CHR ''1''))
     (pseq (EXPECT_CHAR_NO_CHECK (ch CHR ''.'')) (PARSE_INT 1))))))))"

definition parse_request :: "nat \<Rightarrow> phr_request parser" where
  "parse_request max_headers =
     pseq CHECK_EOF
     (pseq (line_end (ret ()))
     (pbind (parse_token (ch CHR '' '')) (\<lambda>meth.
      pseq skip_spaces
     (pbind ADVANCE_TOKEN (\<lambda>path.
      pseq skip_spaces
     (if snd meth = 0 \<or> snd path = 0 then stop (- 1)
      else pbind parse_http_version (\<lambda>minor_version.
        pseq (line_end (stop (- 1)))
       (pbind (parse_headers max_headers []) (\<lambda>headers.
        ret \<lparr>rq_method = meth, rq_path = path, rq_minor_version = minor_version, rq_headers = headers\<rparr>)))))))))"

text \<open>\<open>do { ++*msg; --*msg_len; } while ( **msg == ' ');\<close> The length going below 0 is a fault as well.\<close>

fun msg_spaces :: "bytes \<Rightarrow> nat \<Rightarrow> nat \<Rightarrow> slice option" where
  "msg_spaces buf msg 0 = None"
| "msg_spaces buf msg (Suc msg_len) =
     (if msg + 1 < length buf then
        if buf ! (msg + 1) = ch CHR '' '' then msg_spaces buf (msg + 1) msg_len else Some (msg + 1, msg_len)
      else None)"

definition response_msg :: "slice \<Rightarrow> slice parser" where
  "response_msg v buf i =
     (if snd v = 0 then Done v i
      else if length buf \<le> fst v then Oob
      else if buf ! fst v = ch CHR '' '' then
        (case msg_spaces buf (fst v) (snd v) of None \<Rightarrow> Oob | Some m \<Rightarrow> Done m i)
      else Stop (- 1))"

definition parse_response :: "nat \<Rightarrow> phr_response parser" where
  "parse_response max_headers =
     pbind parse_http_version (\<lambda>minor_version. pbind peek (\<lambda>c.
       if c \<noteq> ch CHR '' '' then stop (- 1)
       else pseq skip_spaces (pseq (NEED 4) (pbind PARSE_INT_3 (\<lambda>status.
         pbind get_token_to_eol (\<lambda>msg. pbind (response_msg msg) (\<lambda>msg.
           pbind (parse_headers max_headers []) (\<lambda>headers.
             ret \<lparr>rs_minor_version = minor_version, rs_status = status, rs_msg = msg, rs_headers = headers\<rparr>))))))))"

text \<open>The check against a request that comes in small pieces; the position it reaches is dropped.\<close>

definition check_complete :: "nat \<Rightarrow> unit parser" where
  "check_complete last_len buf i =
     (if last_len \<noteq> 0 then
        (case is_complete last_len buf i of Done _ _ \<Rightarrow> Done () i | Stop r \<Rightarrow> Stop r | Oob \<Rightarrow> Oob)
      else Done () i)"

text \<open>The value a call returns and, when the parse is done, what it parsed; \<open>None\<close> is a read outside the array.\<close>

definition phr_call :: "'a parser \<Rightarrow> nat \<Rightarrow> bytes \<Rightarrow> (int \<times> 'a option) option" where
  "phr_call parse last_len buf =
     (case pseq (check_complete last_len) parse buf 0 of
        Done x j \<Rightarrow> Some (sint (of_nat j :: u32), Some x)
      | Stop r \<Rightarrow> Some (r, None)
      | Oob \<Rightarrow> None)"

definition phr_parse_request :: "bytes \<Rightarrow> nat \<Rightarrow> nat \<Rightarrow> (int \<times> phr_request option) option" where
  "phr_parse_request buf num_headers last_len = phr_call (parse_request num_headers) last_len buf"

definition phr_parse_response :: "bytes \<Rightarrow> nat \<Rightarrow> nat \<Rightarrow> (int \<times> phr_response option) option" where
  "phr_parse_response buf num_headers last_len = phr_call (parse_response num_headers) last_len buf"

definition phr_parse_headers :: "bytes \<Rightarrow> nat \<Rightarrow> nat \<Rightarrow> (int \<times> phr_header list option) option" where
  "phr_parse_headers buf num_headers last_len = phr_call (parse_headers num_headers []) last_len buf"

section \<open>They keep it too\<close>

lemma sound_line_end:
  "sound (avail lo (Suc 0)) other (\<lambda>_. avail lo 0) \<Longrightarrow> sound (avail lo (Suc 0)) (line_end other) (\<lambda>_. avail lo 0)"
  unfolding line_end_def
  by (rule sound_bind [OF sound_peek], intro sound_cases sound_step sound_seq [OF sound_step sound_EXPECT])

lemma sound_skip_line: "sound (avail lo (Suc 0)) (line_end (ret ())) (\<lambda>_. avail lo 0)"
  by (rule sound_line_end, rule sound_ret) (simp add: avail_def)

lemma sound_must_end: "sound (avail lo (Suc 0)) (line_end (stop (- 1))) (\<lambda>_. avail lo 0)"
  by (rule sound_line_end, rule sound_stop) simp

lemma sound_parse_http_version: "sound (avail lo 0) parse_http_version (\<lambda>_. avail lo (Suc 0))"
proof -
  have "sound (avail lo 0) (NEED 9) (\<lambda>_. avail lo (Suc (Suc (Suc (Suc (Suc (Suc (Suc (Suc (Suc 0))))))))))"
    using sound_NEED [of lo 9] by (simp add: eval_nat_numeral)
  then show ?thesis
    unfolding parse_http_version_def
    by (rule sound_seq) (intro sound_seq [OF sound_EXPECT_NO_CHECK] sound_PARSE_INT)
qed

lemma sound_parse_headers:
  "sound (avail lo 0) (parse_headers m [])
    (\<lambda>hs buf i. avail lo 0 buf i \<and> length hs \<le> m \<and> (\<forall>h \<in> set hs. header_in h buf))"
  unfolding sound_def
proof (intro allI impI)
  fix buf i assume a: "avail lo 0 buf i"
  then have "sound_at (parse_headers m []) (\<lambda>hs' buf j. avail i 0 buf j \<and> length hs' \<le> m \<and> (\<forall>h \<in> set hs'. header_in h buf)) buf i"
    by (intro parse_headers_sound) (simp_all add: avail_def)
  then show "sound_at (parse_headers m []) (\<lambda>hs buf i. avail lo 0 buf i \<and> length hs \<le> m \<and> (\<forall>h \<in> set hs. header_in h buf)) buf i"
    using a unfolding sound_at_def avail_def by (force split: parse.splits)
qed

definition request_in :: "nat \<Rightarrow> phr_request \<Rightarrow> bytes \<Rightarrow> bool" where
  "request_in m rq buf \<longleftrightarrow> slice_in (rq_method rq) buf \<and> slice_in (rq_path rq) buf \<and>
     length (rq_headers rq) \<le> m \<and> (\<forall>h \<in> set (rq_headers rq). header_in h buf)"

definition response_in :: "nat \<Rightarrow> phr_response \<Rightarrow> bytes \<Rightarrow> bool" where
  "response_in m rs buf \<longleftrightarrow> slice_in (rs_msg rs) buf \<and>
     length (rs_headers rs) \<le> m \<and> (\<forall>h \<in> set (rs_headers rs). header_in h buf)"

lemma sound_parse_request:
  "sound (avail lo 0) (parse_request m) (\<lambda>rq buf i. avail lo 0 buf i \<and> request_in m rq buf)"
proof -
  let ?R = "\<lambda>rq buf i. avail lo 0 buf i \<and> request_in m rq buf"
  have eof: "sound (avail lo 0) CHECK_EOF (\<lambda>_. avail lo (Suc 0))" using sound_EOF by simp
  have tok: "sound (avail lo 0) (parse_token c) (\<lambda>v buf i. avail lo (Suc 0) buf i \<and> slice_in v buf)" for c
    by (rule sound_parse_token)
  have path: "sound (avail lo (Suc 0)) ADVANCE_TOKEN (\<lambda>v buf i. avail lo (Suc 0) buf i \<and> slice_in v buf)"
    by (rule sound_weaken [OF sound_ADVANCE_TOKEN]) (auto simp: avail_def)
  have vers: "sound (avail lo (Suc 0)) parse_http_version (\<lambda>_. avail lo (Suc 0))"
    by (rule sound_weaken [OF sound_parse_http_version]) (auto simp: avail_def)
  have tail: "sound (\<lambda>buf i. (avail lo (Suc 0) buf i \<and> slice_in path buf) \<and> slice_in meth buf)
      (if snd meth = 0 \<or> snd path = 0 then stop (- 1)
       else pbind parse_http_version (\<lambda>minor_version. pseq (line_end (stop (- 1)))
         (pbind (parse_headers m []) (\<lambda>headers.
          ret \<lparr>rq_method = meth, rq_path = path, rq_minor_version = minor_version, rq_headers = headers\<rparr>)))) ?R" for meth path
    by (intro sound_cases sound_stop sound_bind [OF sound_frame [OF sound_frame [OF vers]]]
        sound_seq [OF sound_frame [OF sound_frame [OF sound_must_end]]]
        sound_bind [OF sound_frame [OF sound_frame [OF sound_parse_headers]]] sound_ret)
      (auto simp: request_in_def)
  show ?thesis
    unfolding parse_request_def
    by (intro sound_seq [OF eof] sound_seq [OF sound_skip_line] sound_bind [OF tok]
        sound_seq [OF sound_frame [OF sound_spaces]] sound_bind [OF sound_frame [OF path]]
        sound_seq [OF sound_frame [OF sound_frame [OF sound_spaces]] tail])
qed

text \<open>The message of a response.\<close>

lemma msg_spaces_ended:
  "ended (v, n) buf \<Longrightarrow> buf ! v = 32 \<Longrightarrow>
    \<exists>m. msg_spaces buf v n = Some m \<and> slice_in m buf \<and> (\<forall>more. msg_spaces (buf @ more) v n = Some m)"
proof (induction buf v n rule: msg_spaces.induct)
  case (2 buf v n)
  then have "v + 1 < length buf" by (simp add: ended_def)
  then show ?case
    using 2 by (cases "buf ! (v + 1) = 32") (auto simp: nth_append ended_def slice_in_def)
qed (simp add: ended_def)

lemma sound_response_msg:
  "sound (\<lambda>buf i. avail lo n buf i \<and> ended v buf) (response_msg v) (\<lambda>v buf i. avail lo n buf i \<and> slice_in v buf)"
  unfolding sound_def
proof (intro allI impI)
  fix buf i assume a: "avail lo n buf i \<and> ended v buf"
  then have v: "fst v < length buf" by (simp add: ended_def)
  show "sound_at (response_msg v) (\<lambda>v buf i. avail lo n buf i \<and> slice_in v buf) buf i"
  proof (cases "snd v \<noteq> 0 \<and> buf ! fst v = 32")
    case True
    then obtain m where "msg_spaces buf (fst v) (snd v) = Some m" "slice_in m buf"
      "\<forall>more. msg_spaces (buf @ more) (fst v) (snd v) = Some m"
      using msg_spaces_ended [of "fst v" "snd v" buf] a by auto
    then show ?thesis
      using a True v by (simp add: sound_at_def response_msg_def nth_append)
  next
    case False
    then show ?thesis
      using a v by (auto simp: sound_at_def response_msg_def nth_append ended_def slice_in_def)
  qed
qed

lemma sound_PARSE_INT_3: "sound (avail lo (Suc (Suc (Suc n)))) PARSE_INT_3 (\<lambda>_. avail lo n)"
  unfolding PARSE_INT_3_def by (intro sound_bind [OF sound_PARSE_INT] sound_ret)

lemma sound_parse_response:
  "sound (avail lo 0) (parse_response m) (\<lambda>rs buf i. avail lo 0 buf i \<and> response_in m rs buf)"
proof -
  have peek: "sound (avail lo (Suc 0)) peek (\<lambda>_. avail lo (Suc 0))" by (rule sound_peek)
  have need: "sound (avail lo (Suc 0)) (NEED 4) (\<lambda>_. avail lo (Suc (Suc (Suc (Suc 0)))))"
    by (rule sound_weaken [OF sound_NEED]) (auto simp: avail_def)
  have eol: "sound (avail lo (Suc 0)) get_token_to_eol (\<lambda>v buf i. avail lo 0 buf i \<and> ended v buf)"
    by (rule sound_weaken [OF sound_to_eol_ended]) (auto simp: avail_def)
  show ?thesis
    unfolding parse_response_def
    by (intro sound_bind [OF sound_parse_http_version] sound_bind [OF peek] sound_cases sound_stop sound_seq [OF sound_spaces]
        sound_seq [OF need] sound_bind [OF sound_PARSE_INT_3] sound_bind [OF eol] sound_bind [OF sound_response_msg]
        sound_bind [OF sound_frame [OF sound_parse_headers]] sound_ret)
      (auto simp: response_in_def)
qed

text \<open>The check for a complete header.\<close>

lemma complete_loop_stable:
  "i \<le> length buf \<Longrightarrow> sound_at (complete_loop n) (\<lambda>_ buf j. j \<le> length buf) buf i"
proof (induction n buf i rule: complete_loop.induct)
  case (1 n buf i)
  note here = complete_loop.simps [of n buf i]
  show ?case
  proof (cases "i = length buf \<or> buf ! i = 13 \<and> i + 1 = length buf")
    case True
    then show ?thesis using here by (intro sound_at_stop [of _ _ _ "- 2"]) auto
  next
    case False
    then have i: "i < length buf" using "1.prems" by simp
    have more: "complete_loop n (buf @ more) i =
        (if buf ! i = 13 then
          (if buf ! (i + 1) \<noteq> 10 then Stop (- 1)
           else if n + 1 = 2 then Done () (i + 2) else complete_loop (n + 1) (buf @ more) (i + 2))
        else if buf ! i = 10 then
          (if n + 1 = 2 then Done () (i + 1) else complete_loop (n + 1) (buf @ more) (i + 1))
        else complete_loop 0 (buf @ more) (i + 1))" for more
      using i False by (subst complete_loop.simps) (auto simp: nth_append)
    consider "buf ! i = 13" "buf ! (i + 1) \<noteq> 10" | "buf ! i = 13" "buf ! (i + 1) = 10" | "buf ! i = 10"
      | "buf ! i \<noteq> 13" "buf ! i \<noteq> 10" by blast
    then show ?thesis
    proof cases
      case 1
      then show ?thesis using here more [of "[]"] more False i by (intro sound_at_stop [of _ _ _ "- 1"]) simp_all
    next
      case 2
      then show ?thesis
        using "1.IH"(1) here more False i by (cases "n + 1 = 2") (auto simp: sound_at_def)
    next
      case 3
      then show ?thesis
        using "1.IH"(2) here more False i by (cases "n + 1 = 2") (auto simp: sound_at_def)
    next
      case 4
      then show ?thesis
        using "1.IH"(3) here more False i by (auto simp: sound_at_def)
    qed
  qed
qed

lemma check_complete_sound:
  assumes "last_len \<le> length buf"
  shows "sound_at (check_complete last_len) (\<lambda>_ _ j. j = 0) buf 0"
proof -
  define k where "k = (if last_len < 3 then 0 else 0 + last_len - 3)"
  have "sound_at (complete_loop 0) (\<lambda>_ buf j. j \<le> length buf) buf k"
    using assms by (intro complete_loop_stable) (auto simp: k_def)
  then show ?thesis
    by (auto simp: sound_at_def check_complete_def is_complete_def k_def [symmetric] split: parse.splits)
qed

lemma phr_call_sound:
  assumes "sound (avail 0 0) p (\<lambda>x buf i. avail 0 0 buf i \<and> F x buf)" and "last_len \<le> length buf"
    and "length buf < 2 ^ 31"
  shows "\<exists>r v. phr_call p last_len buf = Some (r, v) \<and>
    (case v of Some x \<Rightarrow> 0 \<le> r \<and> r \<le> int (length buf) \<and> F x buf | None \<Rightarrow> r = - 1 \<or> r = - 2) \<and>
    (r \<noteq> - 2 \<longrightarrow> (\<forall>more. length (buf @ more) < 2 ^ 31 \<longrightarrow> phr_call p last_len (buf @ more) = Some (r, v)))"
proof -
  let ?c = "check_complete last_len"
  have c: "sound_at ?c (\<lambda>_ _ j. j = 0) buf 0" using assms(2) by (rule check_complete_sound)
  have p: "sound_at p (\<lambda>x buf i. avail 0 0 buf i \<and> F x buf) buf 0" using assms(1) by (simp add: sound_def avail_def)
  have r: "sint (of_nat j :: u32) = int j" if "j < 2 ^ 31" for j
    using that by (simp add: signed_of_nat signed_take_bit_int_eq_self)
  show ?thesis
  proof (cases "?c buf 0")
    case (Done u j)
    then have j: "j = 0" and c': "?c (buf @ more) 0 = Done () 0" for more using c by (auto simp: sound_at_def)
    then show ?thesis
      using Done p r assms(3)
      by (cases "p buf 0") (auto simp: phr_call_def pseq_def pbind_def sound_at_def avail_def)
  qed (use c in \<open>auto simp: phr_call_def pseq_def pbind_def sound_at_def\<close>)
qed

section \<open>Parsing what was printed\<close>

definition content :: "bytes \<Rightarrow> slice \<Rightarrow> bytes" where
  "content buf v = take (snd v) (drop (fst v) buf)"

definition CRLF :: bytes where
  "CRLF = [13, 10]"

definition token_chars :: "bytes \<Rightarrow> bool" where
  "token_chars x \<longleftrightarrow> x \<noteq> [] \<and> (\<forall>c \<in> set x. token_char_map ! unat c \<noteq> 0)"

definition path_chars :: "bytes \<Rightarrow> bool" where
  "path_chars x \<longleftrightarrow> x \<noteq> [] \<and> (\<forall>c \<in> set x. advance_act c = Go)"

definition line_chars :: "bytes \<Rightarrow> bool" where
  "line_chars x \<longleftrightarrow> (\<forall>c \<in> set x. eol_act c = Go)"

definition value_ok :: "bytes \<Rightarrow> bool" where
  "value_ok x \<longleftrightarrow> line_chars x \<and> (x \<noteq> [] \<longrightarrow> blank_act (hd x) = Leave \<and> blank_act (last x) = Leave)"

definition print_headers :: "(bytes \<times> bytes) list \<Rightarrow> bytes" where
  "print_headers hs = concat (map (\<lambda>(n, v). n @ [58, 32] @ v @ CRLF) hs) @ CRLF"

definition headers_ok :: "(bytes \<times> bytes) list \<Rightarrow> bool" where
  "headers_ok hs \<longleftrightarrow> (\<forall>(n, v) \<in> set hs. token_chars n \<and> value_ok v)"

definition http_version :: "nat \<Rightarrow> bytes" where
  "http_version d = [72, 84, 84, 80, 47, 49, 46, of_nat d + 48]"

definition print_request :: "bytes \<Rightarrow> bytes \<Rightarrow> nat \<Rightarrow> (bytes \<times> bytes) list \<Rightarrow> bytes" where
  "print_request meth path d hs = meth @ [32] @ path @ [32] @ http_version d @ CRLF @ print_headers hs"

definition print_response :: "nat \<Rightarrow> nat \<Rightarrow> nat \<Rightarrow> nat \<Rightarrow> bytes \<Rightarrow> (bytes \<times> bytes) list \<Rightarrow> bytes" where
  "print_response d a b c msg hs =
     http_version d @ [32, of_nat a + 48, of_nat b + 48, of_nat c + 48, 32] @ msg @ CRLF @ print_headers hs"

lemma drop_app: "drop i buf = x @ r \<Longrightarrow> drop (i + length x) buf = r"
  by (metis append_eq_conv_conj drop_drop add.commute)

lemma drop_cons: "drop i buf = c # r \<Longrightarrow> i < length buf \<and> buf ! i = c \<and> drop (Suc i) buf = r"
  by (metis Cons_nth_drop_Suc drop_eq_Nil linorder_not_less list.distinct(1) list.inject)

lemma drop_nth: "drop i buf = x @ r \<Longrightarrow> k < length x \<Longrightarrow> i + k < length buf \<and> buf ! (i + k) = x ! k"
proof -
  assume d: "drop i buf = x @ r" and k: "k < length x"
  have "length buf - i = length x + length r" using d by (metis length_append length_drop)
  moreover have "drop i buf ! k = x ! k" using d k by (simp add: nth_append)
  ultimately show ?thesis using k by (simp add: nth_drop)
qed

lemma content_drop: "drop i buf = x @ r \<Longrightarrow> content buf (i, length x) = x"
  by (simp add: content_def)

text \<open>Where the loops stop.\<close>

lemma loop_reaches:
  assumes "char_loop p act" and "drop i buf = x @ c # r" and "\<forall>c \<in> set x. act c = Go" and "act c = Leave"
  shows "p buf i = Done () (i + length x)"
proof -
  have "drop i buf = (x @ [c]) @ r" using assms(2) by simp
  note n = drop_nth [OF this]
  show ?thesis
  proof (rule char_loop.reaches [OF assms(1)])
    show "i + length x < length buf" using n [of "length x"] by simp
    show "act (buf ! (i + length x)) = Leave" using n [of "length x"] assms(4) by simp
    fix k assume k: "i \<le> k" "k < i + length x"
    then show "act (buf ! k) = Go"
      using n [of "k - i"] assms(3) by (simp add: nth_append)
  qed simp
qed

lemma parse_token_reads:
  assumes d: "drop i buf = x @ c # r" and x: "token_chars x" and c: "token_char_map ! unat c = 0"
  shows "parse_token c buf i = Done (i, length x) (i + length x)"
proof -
  have "token_loop c buf i = Done () (i + length x)"
    using x c by (intro loop_reaches [OF token.char_loop_axioms d]) (auto simp: token_act_def token_chars_def)
  moreover have "i < length buf" using d by (metis drop_eq_Nil append_is_Nil_conv linorder_not_less list.distinct(1))
  ultimately show ?thesis
    by (simp add: parse_token_def pseq_def pbind_def here_def CHECK_EOF_def ret_def)
qed

lemma ADVANCE_TOKEN_reads:
  assumes d: "drop i buf = x @ 32 # r" and x: "path_chars x"
  shows "ADVANCE_TOKEN buf i = Done (i, length x) (i + length x)"
proof -
  have "advance_loop buf i = Done () (i + length x)"
    using x by (intro loop_reaches [OF advance.char_loop_axioms d]) (auto simp: advance_act_def path_chars_def)
  moreover have "i < length buf" using d by (metis drop_eq_Nil append_is_Nil_conv linorder_not_less list.distinct(1))
  ultimately show ?thesis
    by (simp add: ADVANCE_TOKEN_def pseq_def pbind_def here_def CHECK_EOF_def ret_def)
qed

lemma to_eol_reads:
  assumes d: "drop i buf = x @ CRLF @ r" and x: "line_chars x"
  shows "get_token_to_eol buf i = Done (i, length x) (i + length x + 2)"
proof -
  have "eol_slow buf i = Done () (i + length x)"
    using x d by (intro loop_reaches [OF eol.char_loop_axioms, of _ _ _ 13 "10 # r"])
      (auto simp: line_chars_def CRLF_def eol_act_def FOUND_CTL_def IS_PRINTABLE_ASCII_def)
  moreover note drop_nth [of i buf "x @ CRLF" r "length x"] drop_nth [of i buf "x @ CRLF" r "length x + 1"]
  ultimately show ?thesis
    using d by (simp add: get_token_to_eol_def pseq_def pbind_def here_def ret_def peek_def step_def
        EXPECT_CHAR_def CHECK_EOF_def EXPECT_CHAR_NO_CHECK_def eol_scan_eq CRLF_def nth_append)
qed

lemma skip_spaces_reads:
  "drop i buf = 32 # c # r \<Longrightarrow> c \<noteq> 32 \<Longrightarrow> skip_spaces buf i = Done () (i + 1)"
  by (subst skip_spaces.simps) (auto dest!: drop_cons)

lemma trim_end_reads:
  assumes "drop i buf = x @ r" and "x \<noteq> [] \<longrightarrow> blank_act (last x) = Leave"
  shows "trim_end buf i (length x) = Some (length x)"
proof (cases "length x")
  case (Suc k)
  then show ?thesis
    using drop_nth [OF assms(1), of k] assms(2) by (cases "x = []") (auto simp: last_conv_nth blank_act_def split: if_splits)
qed simp

lemma token_first: "token_chars n \<Longrightarrow> \<exists>c x. n = c # x \<and> c \<noteq> 13 \<and> c \<noteq> 10 \<and> c \<noteq> 32 \<and> c \<noteq> 9"
  by (cases n) (auto simp: token_chars_def token_char_map_def)

lemma no_token_char [simp]: "token_char_map ! 58 = 0" "token_char_map ! 32 = 0"
  by (simp_all add: token_char_map_def)

lemma header_name_reads:
  assumes d: "drop i buf = n @ [58, 32] @ c # r" and n: "token_chars n" and c: "blank_act c = Leave"
  shows "header_name (hd n) k buf i = Done (Some (i, length n)) (i + length n + 2)"
proof -
  obtain c0 n' where n': "n = c0 # n'" "c0 \<noteq> 32" "c0 \<noteq> 9" using token_first [OF n] by blast
  have t: "parse_token 58 buf i = Done (i, length n) (i + length n)"
    using d n by (intro parse_token_reads [of _ _ _ _ "32 # c # r"]) simp_all
  have "drop (i + length n) buf = 58 # 32 # c # r" using drop_app [OF d] by simp
  then have "drop (Suc (i + length n)) buf = [32] @ c # r" by (auto dest: drop_cons)
  then have "skip_blanks buf (Suc (i + length n)) = Done () (Suc (i + length n) + length [32::u8])"
    using c by (intro loop_reaches [OF blanks.char_loop_axioms]) (simp_all add: blank_act_def)
  then show ?thesis
    using t n' by (simp add: header_name_def pbind_def pseq_def step_def ret_def)
qed

lemma header_line_reads:
  assumes d: "drop i buf = n @ [58, 32] @ v @ CRLF @ r" and n: "token_chars n" and v: "value_ok v" and m: "k \<noteq> m"
  shows "header_line m k buf i =
    Done (Some \<lparr>h_name = Some (i, length n), h_value = (i + length n + 2, length v)\<rparr>) (i + length n + 2 + length v + 2)"
proof -
  obtain c0 n' where n': "n = c0 # n'" "c0 \<noteq> 13" "c0 \<noteq> 10" using token_first [OF n] by blast
  have i: "i < length buf" "buf ! i = c0" using d n' by (auto dest: drop_cons)
  obtain c r' where c: "v @ CRLF @ r = c # r'" "blank_act c = Leave"
    using v by (cases v) (auto simp: value_ok_def CRLF_def blank_act_def)
  have name: "header_name c0 k buf i = Done (Some (i, length n)) (i + length n + 2)"
    using header_name_reads [of i buf n c r' k] d n c n' by simp
  have dv: "drop (i + length n + 2) buf = v @ CRLF @ r"
    using drop_app [of i buf "n @ [58, 32]" "v @ CRLF @ r"] d by (simp add: add.assoc)
  have eol: "get_token_to_eol buf (i + length n + 2) = Done (i + length n + 2, length v) (i + length n + 2 + length v + 2)"
    using to_eol_reads [OF dv] v by (simp add: value_ok_def)
  have trim: "trim_end buf (i + length n + 2) (length v) = Some (length v)"
    using v by (intro trim_end_reads [OF dv]) (simp add: value_ok_def)
  show ?thesis
    using i n' m name eol trim
    by (simp add: header_line_def pseq_def pbind_def CHECK_EOF_def peek_def ret_def trim_value_def)
qed

definition headers_text :: "bytes \<Rightarrow> phr_header list \<Rightarrow> (bytes option \<times> bytes) list" where
  "headers_text buf hs = map (\<lambda>h. (map_option (content buf) (h_name h), content buf (h_value h))) hs"

lemma parse_headers_reads:
  "drop i buf = print_headers hs @ r \<Longrightarrow> headers_ok hs \<Longrightarrow> length acc + length hs \<le> m \<Longrightarrow>
    \<exists>hs'. parse_headers m acc buf i = Done (acc @ hs') (i + length (print_headers hs)) \<and>
      headers_text buf hs' = map (\<lambda>(n, v). (Some n, v)) hs"
proof (induction hs arbitrary: i acc)
  case Nil
  then have d: "i < length buf" "buf ! i = 13" "Suc i < length buf" "buf ! Suc i = 10"
    by (auto simp: print_headers_def CRLF_def dest!: drop_cons)
  then show ?case
    by (simp add: parse_headers.simps [of m acc] header_line_def pseq_def pbind_def CHECK_EOF_def peek_def step_def
        EXPECT_CHAR_def EXPECT_CHAR_NO_CHECK_def ret_def headers_text_def print_headers_def CRLF_def)
next
  case (Cons h hs)
  obtain n v where h: "h = (n, v)" by (cases h)
  have ok: "token_chars n" "value_ok v" "headers_ok hs" using Cons.prems(2) h by (auto simp: headers_ok_def)
  let ?l = "i + length n + 2 + length v + 2"
  let ?h = "\<lparr>h_name = Some (i, length n), h_value = (i + length n + 2, length v)\<rparr>"
  have p: "print_headers (h # hs) = n @ [58, 32] @ v @ CRLF @ print_headers hs" by (simp add: print_headers_def h)
  have d: "drop i buf = n @ [58, 32] @ v @ CRLF @ (print_headers hs @ r)" using Cons.prems(1) p by simp
  have line: "header_line m (length acc) buf i = Done (Some ?h) ?l"
    using header_line_reads [OF d ok(1,2)] Cons.prems(3) by simp
  have "drop ?l buf = print_headers hs @ r"
    using drop_app [of i buf "n @ [58, 32] @ v @ CRLF" "print_headers hs @ r"] d by (simp add: CRLF_def ac_simps)
  then obtain hs' where hs': "parse_headers m (acc @ [?h]) buf ?l = Done ((acc @ [?h]) @ hs') (?l + length (print_headers hs))"
    "headers_text buf hs' = map (\<lambda>(n, v). (Some n, v)) hs"
    using Cons.IH [of ?l "acc @ [?h]"] ok(3) Cons.prems(3) by auto
  have "content buf (i, length n) = n" "content buf (i + length n + 2, length v) = v"
    using content_drop [OF d] content_drop [OF drop_app [of i buf "n @ [58, 32]" "v @ CRLF @ print_headers hs @ r"]] d
    by (simp_all add: add.assoc)
  then show ?case
    using line hs' p h
    by (intro exI [of _ "?h # hs'"]) (simp add: parse_headers.simps [of m acc] headers_text_def CRLF_def)
qed

lemma http_version_reads:
  assumes d: "drop i buf = http_version v @ c # r" and v: "v < 10"
  shows "parse_http_version buf i = Done (int v) (i + 8)"
proof -
  have n: "k < 8 \<Longrightarrow> i + k < length buf \<and> buf ! (i + k) = http_version v ! k" for k
    using drop_nth [OF d] by (simp add: http_version_def)
  have len: "i + 8 < length buf" using drop_nth [of i buf "http_version v @ [c]" r 8] d by (simp add: http_version_def)
  have dig: "\<not> (of_nat v + 48 :: u8) <s 48" "\<not> (57::u8) <s of_nat v + 48" "sint (of_nat v + 48 :: u8) = int v + 48"
    using v by (auto simp: numeral_eq_Suc less_Suc_eq)
  have expect: "pseq (EXPECT_CHAR_NO_CHECK x) q buf j = q buf (Suc j)" if "j < length buf" "buf ! j = x"
    for x j and q :: "int parser"
    using that by (simp add: pseq_def pbind_def EXPECT_CHAR_NO_CHECK_def peek_def step_def ret_def)
  have need: "pseq (NEED 9) q buf i = q buf i" for q :: "int parser" using len by (simp add: NEED_def pseq_def pbind_def)
  have "parse_http_version buf i = PARSE_INT 1 buf (i + 7)"
    unfolding parse_http_version_def need
    using n [of 0] n [of 1] n [of 2] n [of 3] n [of 4] n [of 5] n [of 6]
    by (simp add: http_version_def expect eval_nat_numeral)
  then show ?thesis
    using n [of 7] dig by (simp add: PARSE_INT_def pbind_def pseq_def peek_def step_def ret_def http_version_def)
qed

lemma pbind_done: "p buf i = Done x j \<Longrightarrow> pbind p f buf i = f x buf j"
  by (simp add: pbind_def)

lemma pseq_done: "p buf i = Done () j \<Longrightarrow> pseq p q buf i = q buf j"
  by (simp add: pseq_def pbind_def)

lemma line_end_reads: "drop i buf = CRLF @ r \<Longrightarrow> line_end q buf i = Done () (i + 2)"
  by (auto simp: line_end_def CRLF_def pseq_def pbind_def peek_def step_def EXPECT_CHAR_def CHECK_EOF_def
      EXPECT_CHAR_NO_CHECK_def ret_def dest!: drop_cons)

lemma no_line_end: "drop i buf = c # r \<Longrightarrow> c \<noteq> 13 \<Longrightarrow> c \<noteq> 10 \<Longrightarrow> line_end (ret ()) buf i = Done () i"
  by (auto simp: line_end_def pbind_def peek_def ret_def dest!: drop_cons)

lemma printed_fits: "drop 0 buf = x @ r \<Longrightarrow> length x \<le> length buf"
  by simp

definition request_text :: "bytes \<Rightarrow> phr_request \<Rightarrow> bytes \<times> bytes \<times> int \<times> (bytes option \<times> bytes) list" where
  "request_text buf rq =
     (content buf (rq_method rq), content buf (rq_path rq), rq_minor_version rq, headers_text buf (rq_headers rq))"

lemma parse_request_reads:
  assumes "token_chars meth" and "path_chars path" and "v < 10" and "headers_ok hs" and "length hs \<le> m"
    and buf_def: "buf = print_request meth path v hs @ rest"
  shows "\<exists>rq. parse_request m buf 0 = Done rq (length (print_request meth path v hs)) \<and>
    request_text buf rq = (meth, path, int v, map (\<lambda>(n, v). (Some n, v)) hs)"
proof -
  let ?tail = "CRLF @ print_headers hs @ rest"
  let ?i1 = "length meth" and ?i2 = "length meth + 1" and ?i3 = "length meth + 1 + length path"
  have d0: "drop 0 buf = meth @ 32 # path @ 32 # http_version v @ ?tail" by (simp add: buf_def print_request_def)
  have d1: "drop ?i1 buf = 32 # path @ 32 # http_version v @ ?tail" using drop_app [OF d0] by simp
  have d2: "drop ?i2 buf = path @ 32 # http_version v @ ?tail" using drop_cons [OF d1] by simp
  have d3: "drop ?i3 buf = 32 # http_version v @ ?tail" using drop_app [OF d2] .
  have d4: "drop (?i3 + 1) buf = http_version v @ 13 # 10 # print_headers hs @ rest" using drop_cons [OF d3] by (simp add: CRLF_def)
  have d5: "drop (?i3 + 1 + 8) buf = CRLF @ print_headers hs @ rest" using drop_app [OF d4] by (simp add: http_version_def CRLF_def eval_nat_numeral)
  have d6: "drop (?i3 + 1 + 8 + 2) buf = print_headers hs @ rest" using drop_app [OF d5] by (simp add: CRLF_def)
  obtain c x where c: "meth = c # x" "c \<noteq> 13" "c \<noteq> 10" using token_first [OF assms(1)] by blast
  obtain e y where e: "path = e # y" "e \<noteq> 32"
    using assms(2) by (cases path) (auto simp: path_chars_def advance_act_def split: if_splits)
  have empty: "line_end (ret ()) buf 0 = Done () 0" using d0 c by (intro no_line_end) simp_all
  have eof: "CHECK_EOF buf 0 = Done () 0" using d0 c by (auto simp: CHECK_EOF_def)
  have meth: "parse_token (ch CHR '' '') buf 0 = Done (0, length meth) ?i1"
    using parse_token_reads [OF d0 assms(1)] by simp
  have sp1: "skip_spaces buf ?i1 = Done () ?i2" using skip_spaces_reads [of ?i1 buf e] d1 e by simp
  have path: "ADVANCE_TOKEN buf ?i2 = Done (?i2, length path) ?i3" by (rule ADVANCE_TOKEN_reads [OF d2 assms(2)])
  have sp2: "skip_spaces buf ?i3 = Done () (?i3 + 1)"
    using skip_spaces_reads [of ?i3 buf 72] d3 by (simp add: http_version_def)
  have vers: "parse_http_version buf (?i3 + 1) = Done (int v) (?i3 + 1 + 8)"
    by (rule http_version_reads [OF d4 assms(3)])
  have crlf: "line_end (stop (- 1)) buf (?i3 + 1 + 8) = Done () (?i3 + 1 + 8 + 2)" by (rule line_end_reads [OF d5])
  obtain hs' where hs': "parse_headers m [] buf (?i3 + 1 + 8 + 2) = Done hs' (?i3 + 1 + 8 + 2 + length (print_headers hs))"
    "headers_text buf hs' = map (\<lambda>(n, v). (Some n, v)) hs"
    using parse_headers_reads [OF d6 assms(4), of "[]"] assms(5) by auto
  have "content buf (0, length meth) = meth" "content buf (?i2, length path) = path"
    by (rule content_drop [OF d0], rule content_drop [OF d2])
  moreover have ne: "(snd (0::nat, length meth) = 0 \<or> snd (?i2, length path) = 0) = False" using c e by simp
  have "parse_request m buf 0 =
    Done \<lparr>rq_method = (0, length meth), rq_path = (?i2, length path), rq_minor_version = int v, rq_headers = hs'\<rparr>
      (?i3 + 1 + 8 + 2 + length (print_headers hs))"
    unfolding parse_request_def pseq_done [of CHECK_EOF, OF eof] pseq_done [of "line_end (ret ())", OF empty]
      pbind_done [of "parse_token _", OF meth] pseq_done [of skip_spaces, OF sp1] pbind_done [of ADVANCE_TOKEN, OF path]
      pseq_done [of skip_spaces, OF sp2] ne if_False pbind_done [of parse_http_version, OF vers]
      pseq_done [of "line_end _", OF crlf] pbind_done [of "parse_headers _ _", OF hs'(1)] ret_def ..
  ultimately show ?thesis
    using hs'(2) by (simp add: request_text_def print_request_def http_version_def CRLF_def)
qed

definition status_digits :: "nat \<Rightarrow> nat \<Rightarrow> nat \<Rightarrow> bytes" where
  "status_digits a b c = [of_nat a + 48, of_nat b + 48, of_nat c + 48]"

lemma PARSE_INT_reads:
  assumes "drop i buf = (of_nat v + 48) # r" and "v < 10"
  shows "PARSE_INT mul buf i = Done (mul * int v) (i + 1)"
proof -
  have "\<not> (of_nat v + 48 :: u8) <s 48" "\<not> (57::u8) <s of_nat v + 48" "sint (of_nat v + 48 :: u8) = int v + 48"
    using assms(2) by (auto simp: numeral_eq_Suc less_Suc_eq)
  then show ?thesis
    using drop_cons [OF assms(1)] by (simp add: PARSE_INT_def pbind_def pseq_def peek_def step_def ret_def)
qed

lemma digit_not_space: "v < 10 \<Longrightarrow> (of_nat v + 48 :: u8) \<noteq> 32"
proof -
  assume "v < 10"
  then have "v = 0 \<or> v = 1 \<or> v = 2 \<or> v = 3 \<or> v = 4 \<or> v = 5 \<or> v = 6 \<or> v = 7 \<or> v = 8 \<or> v = 9" by presburger
  then show ?thesis by (elim disjE) simp_all
qed

lemma PARSE_INT_3_reads:
  assumes d: "drop i buf = status_digits a b c @ r" and v: "a < 10" "b < 10" "c < 10"
  shows "PARSE_INT_3 buf i = Done (int (100 * a + 10 * b + c)) (i + 3)"
proof -
  have d0: "drop i buf = (of_nat a + 48) # (of_nat b + 48) # (of_nat c + 48) # r" using d by (simp add: status_digits_def)
  have d1: "drop (i + 1) buf = (of_nat b + 48) # (of_nat c + 48) # r" using drop_cons [OF d0] by simp
  have d2: "drop (i + 1 + 1) buf = (of_nat c + 48) # r" using drop_cons [OF d1] by simp
  show ?thesis
    unfolding PARSE_INT_3_def pbind_done [of "PARSE_INT 100", OF PARSE_INT_reads [OF d0 v(1)]]
      pbind_done [of "PARSE_INT 10", OF PARSE_INT_reads [OF d1 v(2)]]
      pbind_done [of "PARSE_INT 1", OF PARSE_INT_reads [OF d2 v(3)]]
    by (simp add: ret_def)
qed

definition msg_ok :: "bytes \<Rightarrow> bool" where
  "msg_ok x \<longleftrightarrow> line_chars x \<and> (x \<noteq> [] \<longrightarrow> hd x \<noteq> 32)"

definition response_text :: "bytes \<Rightarrow> phr_response \<Rightarrow> int \<times> int \<times> bytes \<times> (bytes option \<times> bytes) list" where
  "response_text buf rs =
     (rs_minor_version rs, rs_status rs, content buf (rs_msg rs), headers_text buf (rs_headers rs))"

lemma response_msg_reads:
  assumes d: "drop i buf = 32 # msg @ CRLF @ r" and m: "msg_ok msg"
  shows "response_msg (i, length msg + 1) buf j = Done (i + 1, length msg) j"
proof -
  obtain c x where c: "msg @ CRLF @ r = c # x" "c \<noteq> 32" using m by (cases msg) (auto simp: msg_ok_def CRLF_def)
  have "i < length buf" "buf ! i = 32" "i + 1 < length buf" "buf ! (i + 1) = c"
    using d c by (auto dest!: drop_cons)
  then show ?thesis using c by (simp add: response_msg_def)
qed

lemma parse_response_reads:
  assumes v: "v < 10" "a < 10" "b < 10" "c < 10" and msg: "msg_ok msg" and hs: "headers_ok hs" "length hs \<le> m"
    and buf_def: "buf = print_response v a b c msg hs @ rest"
  shows "\<exists>rs. parse_response m buf 0 = Done rs (length (print_response v a b c msg hs)) \<and>
    response_text buf rs = (int v, int (100 * a + 10 * b + c), msg, map (\<lambda>(n, v). (Some n, v)) hs)"
proof -
  let ?tail = "print_headers hs @ rest"
  let ?i = "0 + 8 + 1 + 3" and ?j = "0 + 8 + 1 + 3 + length (32 # msg) + 2"
  have d0: "drop 0 buf = http_version v @ 32 # status_digits a b c @ 32 # msg @ CRLF @ ?tail"
    by (simp add: buf_def print_response_def status_digits_def)
  have d1: "drop (0 + 8) buf = 32 # status_digits a b c @ 32 # msg @ CRLF @ ?tail"
    using drop_app [OF d0] by (simp add: http_version_def eval_nat_numeral)
  have d2: "drop (0 + 8 + 1) buf = status_digits a b c @ 32 # msg @ CRLF @ ?tail" using drop_cons [OF d1] by simp
  have d3: "drop ?i buf = 32 # msg @ CRLF @ ?tail" using drop_app [OF d2] by (simp add: status_digits_def)
  have d4: "drop ?i buf = (32 # msg) @ CRLF @ ?tail" using d3 by simp
  have d5: "drop (?i + 1) buf = msg @ CRLF @ ?tail" using drop_cons [OF d3] by simp
  have d6: "drop ?j buf = ?tail" using drop_app [OF drop_app [OF d4]] by (simp add: CRLF_def)
  have vers: "parse_http_version buf 0 = Done (int v) (0 + 8)" by (rule http_version_reads [OF d0 v(1)])
  have peek: "peek buf (0 + 8) = Done 32 (0 + 8)" using drop_cons [OF d1] by (simp add: peek_def)
  have "\<exists>x y. status_digits a b c @ 32 # msg @ CRLF @ ?tail = x # y \<and> x \<noteq> 32"
    using digit_not_space [OF v(2)] by (auto simp: status_digits_def)
  then have sp: "skip_spaces buf (0 + 8) = Done () (0 + 8 + 1)" using skip_spaces_reads d1 by metis
  have "4 \<le> length (drop (0 + 8 + 1) buf)" unfolding d2 by (simp add: status_digits_def)
  then have need: "NEED 4 buf (0 + 8 + 1) = Done () (0 + 8 + 1)" by (simp add: NEED_def)
  have status: "PARSE_INT_3 buf (0 + 8 + 1) = Done (int (100 * a + 10 * b + c)) ?i"
    by (rule PARSE_INT_3_reads [OF d2 v(2,3,4)])
  have eol: "get_token_to_eol buf ?i = Done (?i, length (32 # msg)) ?j"
    using msg by (intro to_eol_reads [OF d4])
      (simp add: msg_ok_def line_chars_def eol_act_def IS_PRINTABLE_ASCII_def)
  have strip: "response_msg (?i, length (32 # msg)) buf ?j = Done (?i + 1, length msg) ?j"
    using response_msg_reads [OF d3 msg] by simp
  obtain hs' where hs': "parse_headers m [] buf ?j = Done hs' (?j + length (print_headers hs))"
    "headers_text buf hs' = map (\<lambda>(n, v). (Some n, v)) hs"
    using parse_headers_reads [OF d6 hs(1), of "[]"] hs(2) by auto
  have sp32: "((32::u8) \<noteq> ch CHR '' '') = False" by simp
  have "parse_response m buf 0 =
    Done \<lparr>rs_minor_version = int v, rs_status = int (100 * a + 10 * b + c), rs_msg = (?i + 1, length msg), rs_headers = hs'\<rparr>
      (?j + length (print_headers hs))"
    unfolding parse_response_def pbind_done [of parse_http_version, OF vers] pbind_done [of peek, OF peek] sp32 if_False
      pseq_done [of skip_spaces, OF sp] pseq_done [of "NEED _", OF need] pbind_done [of PARSE_INT_3, OF status]
      pbind_done [of get_token_to_eol, OF eol] pbind_done [of "response_msg _", OF strip]
      pbind_done [of "parse_headers _ _", OF hs'(1)] ret_def ..
  moreover have "content buf (?i + 1, length msg) = msg" by (rule content_drop [OF d5])
  ultimately show ?thesis
    using hs'(2) by (simp add: response_text_def print_response_def http_version_def CRLF_def)
qed

lemma phr_request_parsed:
  assumes "token_chars meth" and "path_chars path" and "v < 10" and "headers_ok hs" and "length hs \<le> m"
    and "length (print_request meth path v hs) < 2 ^ 31"
  shows "\<exists>rq. phr_parse_request (print_request meth path v hs @ rest) m 0 =
      Some (int (length (print_request meth path v hs)), Some rq) \<and>
    request_text (print_request meth path v hs @ rest) rq = (meth, path, int v, map (\<lambda>(n, v). (Some n, v)) hs)"
proof -
  have "sint (of_nat (length (print_request meth path v hs)) :: u32) = int (length (print_request meth path v hs))"
    using assms(6) by (simp add: signed_of_nat signed_take_bit_int_eq_self)
  then show ?thesis
    using parse_request_reads [OF assms(1-5) refl, of rest]
    by (auto simp: phr_parse_request_def phr_call_def check_complete_def pseq_def pbind_def)
qed

lemma phr_response_parsed:
  assumes "v < 10" and "a < 10" and "b < 10" and "c < 10" and "msg_ok msg" and "headers_ok hs" and "length hs \<le> m"
    and "length (print_response v a b c msg hs) < 2 ^ 31"
  shows "\<exists>rs. phr_parse_response (print_response v a b c msg hs @ rest) m 0 =
      Some (int (length (print_response v a b c msg hs)), Some rs) \<and>
    response_text (print_response v a b c msg hs @ rest) rs =
      (int v, int (100 * a + 10 * b + c), msg, map (\<lambda>(n, v). (Some n, v)) hs)"
proof -
  have "sint (of_nat (length (print_response v a b c msg hs)) :: u32) = int (length (print_response v a b c msg hs))"
    using assms(8) by (simp add: signed_of_nat signed_take_bit_int_eq_self)
  then show ?thesis
    using parse_response_reads [OF assms(1-7) refl, of rest]
    by (auto simp: phr_parse_response_def phr_call_def check_complete_def pseq_def pbind_def)
qed

text \<open>Before its end a printed request is incomplete.\<close>

lemma phr_request_prefix:
  assumes "token_chars meth" and "path_chars path" and "v < 10" and "headers_ok hs" and "length hs \<le> m"
    and "length (print_request meth path v hs) < 2 ^ 31" and "print_request meth path v hs = buf @ later" and "later \<noteq> []"
  shows "phr_parse_request buf m 0 = Some (- 2, None)"
proof -
  let ?T = "print_request meth path v hs"
  have l: "length buf < length ?T" using assms(7,8) by simp
  obtain rq where rq: "phr_parse_request ?T m 0 = Some (int (length ?T), Some rq)"
    using phr_request_parsed [OF assms(1-6), of "[]"] by auto
  obtain r x where r: "phr_parse_request buf m 0 = Some (r, x)"
    "case x of Some rq \<Rightarrow> 0 \<le> r \<and> r \<le> int (length buf) \<and> request_in m rq buf | None \<Rightarrow> r = - 1 \<or> r = - 2"
    "r \<noteq> - 2 \<longrightarrow> phr_parse_request ?T m 0 = Some (r, x)"
    using phr_call_sound [OF sound_parse_request [of 0 m], of 0 buf] l assms(6)
    unfolding phr_parse_request_def assms(7) by auto
  have "r = - 2"
  proof (rule ccontr)
    assume "r \<noteq> - 2"
    then have "r = int (length ?T)" "x = Some rq" using r(3) rq by auto
    then show False using r(2) l by simp
  qed
  then show ?thesis using r(1,2) by (cases x) auto
qed

section \<open>Properties\<close>

text \<open>C25: The functions of the parser read only inside the array, and return the number of characters consumed with
  slices that lie inside the array and at most \<open>num_headers\<close> headers, or -1 or -2.\<close>

theorem phr_reads_in_bounds:
  assumes "last_len \<le> length buf" and "length buf < 2 ^ 31"
  shows "(\<exists>r v. phr_parse_request buf m last_len = Some (r, v) \<and>
      (case v of Some rq \<Rightarrow> 0 \<le> r \<and> r \<le> int (length buf) \<and> request_in m rq buf | None \<Rightarrow> r = - 1 \<or> r = - 2)) \<and>
    (\<exists>r v. phr_parse_response buf m last_len = Some (r, v) \<and>
      (case v of Some rs \<Rightarrow> 0 \<le> r \<and> r \<le> int (length buf) \<and> response_in m rs buf | None \<Rightarrow> r = - 1 \<or> r = - 2)) \<and>
    (\<exists>r v. phr_parse_headers buf m last_len = Some (r, v) \<and>
      (case v of Some hs \<Rightarrow> 0 \<le> r \<and> r \<le> int (length buf) \<and> length hs \<le> m \<and> (\<forall>h \<in> set hs. header_in h buf)
       | None \<Rightarrow> r = - 1 \<or> r = - 2))"
  using phr_call_sound [OF sound_parse_request [of 0 m] assms] phr_call_sound [OF sound_parse_response [of 0 m] assms]
    phr_call_sound [OF sound_parse_headers [of 0 m] assms]
  unfolding phr_parse_request_def phr_parse_response_def phr_parse_headers_def by blast

theorem phr_reads_in_bounds_witness:
  "\<exists>r v. phr_parse_request [71, 69] 4 2 = Some (r, v) \<and>
    (case v of Some rq \<Rightarrow> 0 \<le> r \<and> r \<le> int (length [71::u8, 69]) \<and> request_in 4 rq [71, 69] | None \<Rightarrow> r = - 1 \<or> r = - 2)"
  using phr_reads_in_bounds [of 2 "[71, 69]" 4] by simp

text \<open>An answer other than "incomplete" is final: with more data behind it, a request or a response gets the same
  return value and the same slices.\<close>

theorem phr_answer_is_final:
  assumes "last_len \<le> length buf" and "length (buf @ later) < 2 ^ 31"
  shows "(fst (the (phr_parse_request buf m last_len)) \<noteq> - 2 \<longrightarrow>
      phr_parse_request (buf @ later) m last_len = phr_parse_request buf m last_len) \<and>
    (fst (the (phr_parse_response buf m last_len)) \<noteq> - 2 \<longrightarrow>
      phr_parse_response (buf @ later) m last_len = phr_parse_response buf m last_len)"
proof -
  have l: "length buf < 2 ^ 31" using assms(2) by simp
  show ?thesis
    using phr_call_sound [OF sound_parse_request [of 0 m] assms(1) l]
      phr_call_sound [OF sound_parse_response [of 0 m] assms(1) l] assms(2)
    unfolding phr_parse_request_def phr_parse_response_def by fastforce
qed

theorem phr_answer_is_final_witness:
  "fst (the (phr_parse_request [0, 71] 4 0)) = - 1 \<and> phr_parse_request ([0, 71] @ [72]) 4 0 = phr_parse_request [0, 71] 4 0"
proof -
  have "fst (the (phr_parse_request [0, 71] 4 0)) = - 1"
    by (simp add: phr_parse_request_def phr_call_def check_complete_def parse_request_def pseq_def pbind_def CHECK_EOF_def
        line_end_def peek_def ret_def parse_token_def here_def token_loop.simps token_char_map_def)
  then show ?thesis using phr_answer_is_final [of 0 "[0, 71]" "[72]" 4] by simp
qed

text \<open>The scan for the end of a line that looks at eight characters at a time stops at the same place, with the
  same code, as the loop that looks at one.\<close>

theorem eol_scan_unrolled: "eol_scan buf i = eol_slow buf i"
  by (rule eol_scan_slow)

text \<open>C26: A request that is printed, whatever follows it, is parsed back: its method, path, version and headers, and
  the length of the printed text as the return value.\<close>

theorem phr_request_roundtrip:
  assumes "token_chars meth" and "path_chars path" and "v < 10" and "headers_ok hs" and "length hs \<le> m"
    and "length (print_request meth path v hs) < 2 ^ 31"
  shows "\<exists>rq. phr_parse_request (print_request meth path v hs @ rest) m 0 =
      Some (int (length (print_request meth path v hs)), Some rq) \<and>
    request_text (print_request meth path v hs @ rest) rq = (meth, path, int v, map (\<lambda>(n, v). (Some n, v)) hs)"
  using phr_request_parsed [OF assms] .

theorem phr_request_roundtrip_witness:
  "\<exists>rq. phr_parse_request (print_request [71, 69, 84] [47] 1 [([65], [66])] @ [1]) 1 0 = Some (24, Some rq) \<and>
    request_text (print_request [71, 69, 84] [47] 1 [([65], [66])] @ [1]) rq = ([71, 69, 84], [47], 1, [(Some [65], [66])])"
  using phr_request_roundtrip [of "[71, 69, 84]" "[47]" 1 "[([65], [66])]" 1 "[1]"]
  by (simp add: token_chars_def token_char_map_def path_chars_def advance_act_def IS_PRINTABLE_ASCII_def headers_ok_def
      value_ok_def line_chars_def eol_act_def blank_act_def print_request_def print_headers_def http_version_def CRLF_def)

text \<open>C27: A response that is printed is parsed back: its version, its three digits as a number, the message without
  the space before it, and its headers.\<close>

theorem phr_response_roundtrip:
  assumes "v < 10" and "a < 10" and "b < 10" and "c < 10" and "msg_ok msg" and "headers_ok hs" and "length hs \<le> m"
    and "length (print_response v a b c msg hs) < 2 ^ 31"
  shows "\<exists>rs. phr_parse_response (print_response v a b c msg hs @ rest) m 0 =
      Some (int (length (print_response v a b c msg hs)), Some rs) \<and>
    response_text (print_response v a b c msg hs @ rest) rs =
      (int v, int (100 * a + 10 * b + c), msg, map (\<lambda>(n, v). (Some n, v)) hs)"
  using phr_response_parsed [OF assms] .

theorem phr_response_roundtrip_witness:
  "\<exists>rs. phr_parse_response (print_response 1 4 0 4 [78, 111] [] @ [1]) 1 0 = Some (19, Some rs) \<and>
    response_text (print_response 1 4 0 4 [78, 111] [] @ [1]) rs = (1, 404, [78, 111], [])"
  using phr_response_roundtrip [of 1 4 0 4 "[78, 111]" "[]" 1 "[1]"]
  by (simp add: headers_ok_def msg_ok_def line_chars_def eol_act_def IS_PRINTABLE_ASCII_def
      print_response_def print_headers_def http_version_def CRLF_def)

end
