(* ===== verification/Ez_Phr_Sse.thy ===== *)
theory Ez_Phr_Sse
  imports Ez_Phr
begin

text \<open>
  The parsers of \<open>source/picohttpparser.c\<close> as they are compiled for processors with SSE 4.2: \<open>findchar_fast\<close> looks at
  sixteen characters at a time, and \<open>get_token_to_eol\<close> uses it in place of the unrolled loop of \<open>Ez_Phr\<close>. The
  instruction is a parameter, its documented behaviour the locale \<open>range_compare\<close>; with it both builds are the
  same function on every input.
\<close>

section \<open>The instruction\<close>

text \<open>\<open>_mm_cmpestri(a, la, b, lb, mode)\<close> in the mode of this file: the position in the first \<open>lb\<close> bytes of
  \<open>b\<close> of the first one that is in one of the ranges, pairs of bytes, of the first \<open>la\<close> bytes of \<open>a\<close>; 16 when there is
  none.\<close>

type_synonym cmpestri = "bytes \<Rightarrow> nat \<Rightarrow> bytes \<Rightarrow> nat \<Rightarrow> nat"






section \<open>The scan\<close>

text \<open>\<open>_mm_loadu_si128\<close>: sixteen bytes of the array.\<close>

definition load16 :: "bytes \<Rightarrow> nat \<Rightarrow> bytes option" where
  "load16 buf i = (if i + 16 \<le> length buf then Some (take 16 (drop i buf)) else None)"

text \<open>The loop over blocks: the position it leaves at, and \<open>*found\<close>; \<open>None\<close> is a read outside the array.\<close>

function block_loop :: "cmpestri \<Rightarrow> bytes \<Rightarrow> nat \<Rightarrow> bytes \<Rightarrow> nat \<Rightarrow> nat \<Rightarrow> (nat \<times> bool) option" where
  "block_loop cmp ranges16 ranges_size buf i left =
     (case load16 buf i of
        None \<Rightarrow> None
      | Some b16 \<Rightarrow>
          let r = cmp ranges16 ranges_size b16 16 in
          if r \<noteq> 16 then Some (i + r, True)
          else if left - 16 \<noteq> 0 then block_loop cmp ranges16 ranges_size buf (i + 16) (left - 16)
          else Some (i + 16, False))"
  by pat_completeness auto
termination by (relation "measure (\<lambda>(c, a, n, buf, i, left). left)") (auto simp: load16_def split: if_splits)

declare block_loop.simps [simp del]

text \<open>\<open>(buf_end - buf) & ~15\<close> is the greatest multiple of 16.\<close>

definition findchar_fast :: "cmpestri \<Rightarrow> bytes \<Rightarrow> nat \<Rightarrow> bytes \<Rightarrow> nat \<Rightarrow> (nat \<times> bool) option" where
  "findchar_fast cmp ranges ranges_size buf i =
     (if i + 16 \<le> length buf then
        (case load16 ranges 0 of
           None \<Rightarrow> None
         | Some ranges16 \<Rightarrow> block_loop cmp ranges16 ranges_size buf i ((length buf - i) div 16 * 16))
      else Some (i, False))"

definition ranges1 :: bytes where
  "ranges1 = [0, 8, 10, 31, 127, 127] @ replicate 10 0"


text \<open>The scan of \<open>get_token_to_eol\<close> up to \<open>FOUND_CTL\<close>, and the scan of \<open>ADVANCE_TOKEN\<close>.\<close>

definition eol_scan_sse :: "cmpestri \<Rightarrow> unit parser" where
  "eol_scan_sse cmp buf i =
     (case findchar_fast cmp ranges1 6 buf i of
        None \<Rightarrow> Oob
      | Some (j, found) \<Rightarrow> if found then Done () j else eol_slow buf j)"


section \<open>The scan finds the first character of the ranges\<close>





section \<open>The scans are the simple loops\<close>

context char_loop
begin

lemma skips: "i < length buf \<Longrightarrow> i \<le> j \<Longrightarrow> j \<le> length buf \<Longrightarrow> (\<And>k. i \<le> k \<Longrightarrow> k < j \<Longrightarrow> act (buf ! k) = Go) \<Longrightarrow>
    p buf i = (if j = length buf then Stop (- 2) else p buf j)"
proof (induction "j - i" arbitrary: i)
  case 0
  then show ?case by simp
next
  case (Suc d)
  then have here: "p buf i = (if i + 1 = length buf then Stop (- 2) else p buf (i + 1))" by (subst unfold) simp_all
  show ?case
  proof (cases "i + 1 = length buf")
    case True
    moreover have "j = i + 1" using True Suc.hyps(2) Suc.prems(3) by simp
    ultimately show ?thesis using here by simp
  next
    case False
    then show ?thesis using here Suc.hyps(1) [of "i + 1"] Suc.hyps(2) Suc.prems by simp
  qed
qed

end









section \<open>The parsers\<close>


definition get_token_to_eol_sse :: "cmpestri \<Rightarrow> slice parser" where
  "get_token_to_eol_sse cmp = pbind here (\<lambda>token_start. pseq (eol_scan_sse cmp) (pbind peek (\<lambda>c.
     if c = 13 then
       pseq step (pseq (EXPECT_CHAR 10) (pbind here (\<lambda>buf. ret (token_start, buf - 2 - token_start))))
     else if c = 10 then
       pbind here (\<lambda>buf. pseq step (ret (token_start, buf - token_start)))
     else stop (- 1))))"


text \<open>A parser that does not move back, and one that moves on.\<close>

definition keeps :: "'a parser \<Rightarrow> bool" where
  "keeps p \<longleftrightarrow> (\<forall>buf i x j. p buf i = Done x j \<longrightarrow> i \<le> j)"

definition advances :: "'a parser \<Rightarrow> bool" where
  "advances p \<longleftrightarrow> (\<forall>buf i x j. p buf i = Done x j \<longrightarrow> i < j)"

named_theorems keeps_intro

lemma keeps_basic [keeps_intro]: "keeps (ret x)" "keeps (stop r)" "keeps step" "keeps peek" "keeps here" "keeps CHECK_EOF"
  by (auto simp: keeps_def ret_def stop_def step_def peek_def here_def CHECK_EOF_def split: if_splits)

lemma advances_basic: "advances step" "advances (stop r)"
  by (simp_all add: advances_def step_def stop_def)

lemma keeps_bind [keeps_intro]: "keeps p \<Longrightarrow> (\<And>x. keeps (f x)) \<Longrightarrow> keeps (pbind p f)"
  and advances_bind: "advances p \<Longrightarrow> (\<And>x. keeps (f x)) \<Longrightarrow> advances (pbind p f)"
  and advances_later: "keeps p \<Longrightarrow> (\<And>x. advances (f x)) \<Longrightarrow> advances (pbind p f)"
  unfolding keeps_def advances_def pbind_def by (fastforce split: parse.splits)+

lemma keeps_seq [keeps_intro]: "keeps p \<Longrightarrow> keeps q \<Longrightarrow> keeps (pseq p q)"
  and advances_seq: "advances p \<Longrightarrow> keeps q \<Longrightarrow> advances (pseq p q)"
  and advances_seq_later: "keeps p \<Longrightarrow> advances q \<Longrightarrow> advances (pseq p q)"
  unfolding pseq_def by (simp_all add: keeps_bind advances_bind advances_later)

lemma keeps_if [keeps_intro]: "(b \<Longrightarrow> keeps p) \<Longrightarrow> (\<not> b \<Longrightarrow> keeps q) \<Longrightarrow> keeps (if b then p else q)"
  and advances_if: "(b \<Longrightarrow> advances p) \<Longrightarrow> (\<not> b \<Longrightarrow> advances q) \<Longrightarrow> advances (if b then p else q)"
  by simp_all

lemma keeps_token_loop [keeps_intro]: "keeps (token_loop c)"
proof -
  have "token_loop c buf i = Done x j \<Longrightarrow> i \<le> j" for buf i x j
  proof (induction c buf i rule: token_loop.induct)
    case (1 c buf i)
    then show ?case using token_loop.simps [of c buf i] by (fastforce split: if_splits)
  qed
  then show ?thesis by (simp add: keeps_def)
qed

lemma keeps_skip_blanks [keeps_intro]: "keeps skip_blanks"
proof -
  have "skip_blanks buf i = Done x j \<Longrightarrow> i \<le> j" for buf i x j
  proof (induction buf i rule: skip_blanks.induct)
    case (1 buf i)
    then show ?case using skip_blanks.simps [of buf i] by (fastforce split: if_splits)
  qed
  then show ?thesis by (simp add: keeps_def)
qed

lemma eol_slow_keeps: "eol_slow buf i = Done x j \<Longrightarrow> i \<le> j"
proof (induction buf i rule: eol_slow.induct)
  case (1 buf i)
  then show ?case using eol_slow.simps [of buf i] by (fastforce split: if_splits)
qed

lemma block_loop_keeps: "block_loop cmp rs n buf i left = Some (j, found) \<Longrightarrow> i \<le> j"
proof (induction cmp rs n buf i left rule: block_loop.induct)
  case (1 cmp rs n buf i left)
  show ?case
  proof (cases "load16 buf i")
    case (Some b)
    then show ?thesis
      using 1 block_loop.simps [of cmp rs n buf i left] by (fastforce simp: Let_def split: if_splits)
  qed (use "1.prems" in \<open>simp add: block_loop.simps [of cmp rs n buf i left]\<close>)
qed

lemma keeps_eol_scan [keeps_intro]: "keeps (eol_scan_sse cmp)"
  unfolding keeps_def eol_scan_sse_def findchar_fast_def
  by (fastforce dest: block_loop_keeps eol_slow_keeps split: option.splits if_splits)

lemma keeps_EXPECT [keeps_intro]: "keeps (EXPECT_CHAR c)"
  unfolding EXPECT_CHAR_def EXPECT_CHAR_NO_CHECK_def by (intro keeps_intro)


lemma keeps_to_eol [keeps_intro]: "keeps (get_token_to_eol_sse cmp)"
  and advances_to_eol: "advances (get_token_to_eol_sse cmp)"
  unfolding get_token_to_eol_sse_def
  by (intro keeps_intro)
    (intro advances_later [OF keeps_basic(5)] advances_seq_later [OF keeps_eol_scan] advances_later [OF keeps_basic(4)]
      advances_if advances_seq advances_basic keeps_intro)

lemma keeps_trim [keeps_intro]: "keeps (trim_value v)"
  by (auto simp: keeps_def trim_value_def split: option.splits)











section \<open>Properties\<close>



end
