(* ===== verification/Ez_Chunked.thy ===== *)
theory Ez_Chunked
  imports Ez_Bytes
begin

text \<open>
  The chunked decoder of \<open>source/picohttpparser.c\<close>: \<open>phr_decode_chunked\<close> rewrites an array in place, with a
  read index \<open>src\<close> and a write index \<open>dst\<close>, and keeps its state between calls. Each \<open>case\<close> of its \<open>switch\<close> is
  a definition, the next one is called where the code falls through. It is shown to be an automaton that takes one
  character after the other; from this follow that it does not matter how the data is cut into calls, and that
  it decodes what the grammar of RFC 7230 encodes.
\<close>

section \<open>The decoder\<close>

datatype chunk_state =
    CHUNKED_IN_CHUNK_SIZE
  | CHUNKED_IN_CHUNK_EXT
  | CHUNKED_IN_CHUNK_DATA
  | CHUNKED_IN_CHUNK_CRLF
  | CHUNKED_IN_TRAILERS_LINE_HEAD
  | CHUNKED_IN_TRAILERS_LINE_MIDDLE

record phr_chunked_decoder =
  bytes_left_in_chunk :: u64
  consume_trailer :: u8
  hex_count :: u8
  state :: chunk_state

definition zero_decoder :: phr_chunked_decoder where
  "zero_decoder = \<lparr>bytes_left_in_chunk = 0, consume_trailer = 0, hex_count = 0, state = CHUNKED_IN_CHUNK_SIZE\<rparr>"

definition decode_hex :: "int \<Rightarrow> int" where
  "decode_hex c =
     (if 48 \<le> c \<and> c \<le> 57 then c - 48
      else if 65 \<le> c \<and> c \<le> 70 then c - 65 + 0xa
      else if 97 \<le> c \<and> c \<le> 102 then c - 97 + 0xa
      else - 1)"

text \<open>The local variables, and where a \<open>case\<close> goes: \<open>Next\<close> is \<open>break\<close>, the others are the labels; \<open>Exit\<close> has
  the value of \<open>ret\<close>. \<open>Fault\<close> is a read outside the array.\<close>

record run =
  decoder :: phr_chunked_decoder
  run_buf :: bytes
  dst :: nat
  src :: nat

datatype outcome = Next run | Complete run | Exit int run | Fault

definition memmove :: "bytes \<Rightarrow> nat \<Rightarrow> nat \<Rightarrow> nat \<Rightarrow> bytes" where
  "memmove xs to from n = take to xs @ take n (drop from xs) @ drop (to + n) xs"

text \<open>\<open>for (;; ++src) { if (src == bufsz) goto Exit; if (p(buf[src])) break; }\<close>\<close>

function scan :: "(u8 \<Rightarrow> bool) \<Rightarrow> bytes \<Rightarrow> nat \<Rightarrow> nat option" where
  "scan p xs i = (if i < length xs then if p (xs ! i) then Some i else scan p xs (i + 1) else None)"
  by pat_completeness auto
termination by (relation "measure (\<lambda>(p, xs, i). length xs - i)") auto

declare scan.simps [simp del]

definition scan_then :: "(u8 \<Rightarrow> bool) \<Rightarrow> run \<Rightarrow> (run \<Rightarrow> outcome) \<Rightarrow> outcome" where
  "scan_then p r k =
     (if length (run_buf r) < src r then Fault
      else case scan p (run_buf r) (src r) of
        None \<Rightarrow> Exit (- 2) (r\<lparr>src := length (run_buf r)\<rparr>)
      | Some j \<Rightarrow> k (r\<lparr>src := j\<rparr>))"

definition set_state :: "chunk_state \<Rightarrow> run \<Rightarrow> run" where
  "set_state s r = r\<lparr>decoder := (decoder r)\<lparr>state := s\<rparr>\<rparr>"

definition skip :: "run \<Rightarrow> run" where
  "skip r = r\<lparr>src := src r + 1\<rparr>"

definition case_chunk_crlf :: "run \<Rightarrow> outcome" where
  "case_chunk_crlf r = scan_then (\<lambda>c. c \<noteq> 13) r (\<lambda>r.
     if run_buf r ! src r \<noteq> 10 then Exit (- 1) r else Next (set_state CHUNKED_IN_CHUNK_SIZE (skip r)))"

definition move_data :: "nat \<Rightarrow> run \<Rightarrow> (run \<Rightarrow> outcome) \<Rightarrow> outcome" where
  "move_data n r k =
     (if src r + n \<le> length (run_buf r) \<and> dst r + n \<le> length (run_buf r) then
        let r = (if dst r \<noteq> src r then r\<lparr>run_buf := memmove (run_buf r) (dst r) (src r) n\<rparr> else r)
        in k (r\<lparr>src := src r + n, dst := dst r + n\<rparr>)
      else Fault)"

definition case_chunk_data :: "run \<Rightarrow> outcome" where
  "case_chunk_data r =
     (let avail = length (run_buf r) - src r; left = bytes_left_in_chunk (decoder r) in
      if avail < unat left then
        move_data avail r (\<lambda>r. Exit (- 2) (r\<lparr>decoder := (decoder r)\<lparr>bytes_left_in_chunk := left - of_nat avail\<rparr>\<rparr>))
      else
        move_data (unat left) r (\<lambda>r. case_chunk_crlf (set_state CHUNKED_IN_CHUNK_CRLF
          (r\<lparr>decoder := (decoder r)\<lparr>bytes_left_in_chunk := 0\<rparr>\<rparr>))))"

definition case_chunk_ext :: "run \<Rightarrow> outcome" where
  "case_chunk_ext r = scan_then (\<lambda>c. c = 10) r (\<lambda>r.
     let r = skip r in
     if bytes_left_in_chunk (decoder r) = 0 then
       if consume_trailer (decoder r) \<noteq> 0 then Next (set_state CHUNKED_IN_TRAILERS_LINE_HEAD r) else Complete r
     else case_chunk_data (set_state CHUNKED_IN_CHUNK_DATA r))"

function case_chunk_size :: "run \<Rightarrow> outcome" where
  "case_chunk_size r =
     (if src r = length (run_buf r) then Exit (- 2) r
      else if src r < length (run_buf r) then
        (let v = decode_hex (sint (run_buf r ! src r)); d = decoder r in
         if v = - 1 then
           if hex_count d = 0 then Exit (- 1) r
           else case_chunk_ext (r\<lparr>decoder := d\<lparr>hex_count := 0, state := CHUNKED_IN_CHUNK_EXT\<rparr>\<rparr>)
         else if hex_count d = 8 * 2 then Exit (- 1) r
         else case_chunk_size (skip (r\<lparr>decoder := d\<lparr>
           bytes_left_in_chunk := bytes_left_in_chunk d * 16 + of_int v, hex_count := hex_count d + 1\<rparr>\<rparr>)))
      else Fault)"
  by pat_completeness auto
termination by (relation "measure (\<lambda>r. length (run_buf r) - src r)") (auto simp: skip_def)

declare case_chunk_size.simps [simp del]

definition case_trailers_middle :: "run \<Rightarrow> outcome" where
  "case_trailers_middle r = scan_then (\<lambda>c. c = 10) r (\<lambda>r. Next (set_state CHUNKED_IN_TRAILERS_LINE_HEAD (skip r)))"

definition case_trailers_head :: "run \<Rightarrow> outcome" where
  "case_trailers_head r = scan_then (\<lambda>c. c \<noteq> 13) r (\<lambda>r.
     if run_buf r ! src r = 10 then Complete (skip r)
     else case_trailers_middle (set_state CHUNKED_IN_TRAILERS_LINE_MIDDLE (skip r)))"

definition switch :: "run \<Rightarrow> outcome" where
  "switch r =
     (case state (decoder r) of
        CHUNKED_IN_CHUNK_SIZE \<Rightarrow> case_chunk_size r
      | CHUNKED_IN_CHUNK_EXT \<Rightarrow> case_chunk_ext r
      | CHUNKED_IN_CHUNK_DATA \<Rightarrow> case_chunk_data r
      | CHUNKED_IN_CHUNK_CRLF \<Rightarrow> case_chunk_crlf r
      | CHUNKED_IN_TRAILERS_LINE_HEAD \<Rightarrow> case_trailers_head r
      | CHUNKED_IN_TRAILERS_LINE_MIDDLE \<Rightarrow> case_trailers_middle r)"

text \<open>Every iteration of the outer loop consumes a character.\<close>

definition room :: "run \<Rightarrow> nat" where
  "room r = length (run_buf r) - src r"

definition moves :: "run \<Rightarrow> outcome \<Rightarrow> bool" where
  "moves r q \<longleftrightarrow> (\<forall>r'. q = Next r' \<longrightarrow> room r' < room r)"

lemma scan_bounds: "scan p xs i = Some j \<Longrightarrow> i \<le> j \<and> j < length xs \<and> p (xs ! j)"
proof (induction p xs i rule: scan.induct)
  case (1 p xs i)
  show ?case using 1(1) 1(2) by (subst (asm) (2) scan.simps) (fastforce split: if_splits)
qed

lemma scan_moves: "(\<And>j. src r \<le> j \<Longrightarrow> j < length (run_buf r) \<Longrightarrow> moves (r\<lparr>src := j\<rparr>) (k (r\<lparr>src := j\<rparr>))) \<Longrightarrow> moves r (scan_then p r k)"
  by (auto simp: scan_then_def moves_def room_def split: option.split dest!: scan_bounds) fastforce

lemma crlf_moves: "moves r (case_chunk_crlf r)"
  unfolding case_chunk_crlf_def by (rule scan_moves) (auto simp: moves_def room_def set_state_def skip_def)

lemma middle_moves: "moves r (case_trailers_middle r)"
  unfolding case_trailers_middle_def by (rule scan_moves) (auto simp: moves_def room_def set_state_def skip_def)

lemma moves_from: "moves r' q \<Longrightarrow> room r' \<le> room r \<Longrightarrow> moves r q"
  by (auto simp: moves_def)

lemma length_memmove: "to + n \<le> length xs \<Longrightarrow> from + n \<le> length xs \<Longrightarrow> length (memmove xs to from n) = length xs"
  by (simp add: memmove_def)

lemma data_moves: "moves r (case_chunk_data r)"
proof (cases "length (run_buf r) - src r < unat (bytes_left_in_chunk (decoder r))")
  case True
  then show ?thesis by (simp add: case_chunk_data_def move_data_def moves_def Let_def)
next
  case False
  show ?thesis
    unfolding case_chunk_data_def Let_def move_data_def
    using False by (auto simp: room_def set_state_def length_memmove moves_def [of _ Fault] intro!: moves_from [OF crlf_moves])
qed

lemma ext_moves: "moves r (case_chunk_ext r)"
  unfolding case_chunk_ext_def
proof (rule scan_moves)
  fix j assume j: "src r \<le> j" "j < length (run_buf r)"
  have "moves (r\<lparr>src := j\<rparr>) (case_chunk_data (set_state CHUNKED_IN_CHUNK_DATA (skip (r\<lparr>src := j\<rparr>))))"
    by (rule moves_from [OF data_moves]) (simp add: room_def set_state_def skip_def)
  then show "moves (r\<lparr>src := j\<rparr>) (let r = skip (r\<lparr>src := j\<rparr>) in
     if bytes_left_in_chunk (decoder r) = 0 then
       if consume_trailer (decoder r) \<noteq> 0 then Next (set_state CHUNKED_IN_TRAILERS_LINE_HEAD r) else Complete r
     else case_chunk_data (set_state CHUNKED_IN_CHUNK_DATA r))"
    using j by (simp add: Let_def) (auto simp: moves_def room_def set_state_def skip_def)
qed

lemma size_moves: "moves r (case_chunk_size r)"
proof (induction r rule: case_chunk_size.induct)
  case (1 r)
  note ih = 1
  show ?case
  proof (cases "src r < length (run_buf r)")
    case False
    then show ?thesis by (simp add: case_chunk_size.simps [of r] moves_def)
  next
    case True
    have "moves r (case_chunk_size (skip (r\<lparr>decoder := d'\<rparr>)))" 
      if "decode_hex (sint (run_buf r ! src r)) \<noteq> - 1" "hex_count (decoder r) \<noteq> 8 * 2"
        "d' = (decoder r)\<lparr>bytes_left_in_chunk := bytes_left_in_chunk (decoder r) * 16 + of_int (decode_hex (sint (run_buf r ! src r))),
          hex_count := hex_count (decoder r) + 1\<rparr>" for d'
      unfolding that(3)
      by (rule moves_from [OF ih]) (use True that in \<open>simp_all add: room_def skip_def\<close>)
    moreover have "moves r (case_chunk_ext (r\<lparr>decoder := d'\<rparr>))" for d'
      by (rule moves_from [OF ext_moves]) (simp add: room_def)
    ultimately show ?thesis
      using True by (simp add: case_chunk_size.simps [of r] Let_def) (auto simp: moves_def [of _ "Exit _ _"])
  qed
qed

lemma head_moves: "moves r (case_trailers_head r)"
  unfolding case_trailers_head_def
proof (rule scan_moves)
  fix j
  have "moves (r\<lparr>src := j\<rparr>) (case_trailers_middle (set_state CHUNKED_IN_TRAILERS_LINE_MIDDLE (skip (r\<lparr>src := j\<rparr>))))"
    by (rule moves_from [OF middle_moves]) (simp add: room_def set_state_def skip_def)
  then show "moves (r\<lparr>src := j\<rparr>) (if run_buf (r\<lparr>src := j\<rparr>) ! src (r\<lparr>src := j\<rparr>) = 10 then Complete (skip (r\<lparr>src := j\<rparr>))
     else case_trailers_middle (set_state CHUNKED_IN_TRAILERS_LINE_MIDDLE (skip (r\<lparr>src := j\<rparr>))))"
    by (simp add: moves_def [of _ "Complete _"])
qed

lemma switch_moves: "moves r (switch r)"
  unfolding switch_def
  by (cases "state (decoder r)") (simp_all add: size_moves ext_moves data_moves crlf_moves head_moves middle_moves)

function decode_loop :: "run \<Rightarrow> outcome" where
  "decode_loop r = (case switch r of Next r' \<Rightarrow> decode_loop r' | Complete r' \<Rightarrow> Complete r' | Exit n r' \<Rightarrow> Exit n r' | Fault \<Rightarrow> Fault)"
  by pat_completeness auto
termination by (relation "measure room") (use switch_moves in \<open>auto simp: moves_def\<close>)

declare decode_loop.simps [simp del]

text \<open>What is left is moved to follow the data. The result is the value returned, the decoder, the array and the new
  \<open>*_bufsz\<close>.\<close>

definition finish :: "int \<Rightarrow> run \<Rightarrow> (int \<times> phr_chunked_decoder \<times> bytes \<times> nat) option" where
  "finish n r =
     Some (n, decoder r,
       if dst r \<noteq> src r then memmove (run_buf r) (dst r) (src r) (length (run_buf r) - src r) else run_buf r, dst r)"

definition phr_decode_chunked :: "phr_chunked_decoder \<Rightarrow> bytes \<Rightarrow> (int \<times> phr_chunked_decoder \<times> bytes \<times> nat) option" where
  "phr_decode_chunked d xs =
     (case decode_loop \<lparr>decoder = d, run_buf = xs, dst = 0, src = 0\<rparr> of
        Complete r \<Rightarrow> finish (int (length (run_buf r)) - int (src r)) r
      | Exit n r \<Rightarrow> finish n r
      | _ \<Rightarrow> None)"

definition phr_decode_chunked_is_in_data :: "phr_chunked_decoder \<Rightarrow> bool" where
  "phr_decode_chunked_is_in_data d \<longleftrightarrow> state d = CHUNKED_IN_CHUNK_DATA"

section \<open>The automaton\<close>

text \<open>The reference: what one character does. \<open>Take\<close> consumes it and gives decoded data, \<open>Finish\<close> consumes the last
  character of the message, \<open>Reject\<close> does not consume it.\<close>

datatype move = Take phr_chunked_decoder bytes | Finish phr_chunked_decoder | Reject

fun after_size :: "u8 \<Rightarrow> phr_chunked_decoder \<Rightarrow> move" where
  "after_size c d =
     (if c \<noteq> 10 then Take (d\<lparr>state := CHUNKED_IN_CHUNK_EXT\<rparr>) []
      else if bytes_left_in_chunk d \<noteq> 0 then Take (d\<lparr>state := CHUNKED_IN_CHUNK_DATA\<rparr>) []
      else if consume_trailer d \<noteq> 0 then Take (d\<lparr>state := CHUNKED_IN_TRAILERS_LINE_HEAD\<rparr>) []
      else Finish (d\<lparr>state := CHUNKED_IN_CHUNK_EXT\<rparr>))"

definition take_char :: "phr_chunked_decoder \<Rightarrow> u8 \<Rightarrow> move" where
  "take_char d c =
     (case state d of
        CHUNKED_IN_CHUNK_SIZE \<Rightarrow>
          (let v = decode_hex (sint c) in
           if v = - 1 then if hex_count d = 0 then Reject else after_size c (d\<lparr>hex_count := 0\<rparr>)
           else if hex_count d = 16 then Reject
           else Take (d\<lparr>bytes_left_in_chunk := bytes_left_in_chunk d * 16 + of_int v, hex_count := hex_count d + 1\<rparr>) [])
      | CHUNKED_IN_CHUNK_EXT \<Rightarrow> after_size c d
      | CHUNKED_IN_CHUNK_DATA \<Rightarrow>
          Take (if bytes_left_in_chunk d = 1 then d\<lparr>bytes_left_in_chunk := 0, state := CHUNKED_IN_CHUNK_CRLF\<rparr>
                else d\<lparr>bytes_left_in_chunk := bytes_left_in_chunk d - 1\<rparr>) [c]
      | CHUNKED_IN_CHUNK_CRLF \<Rightarrow>
          if c = 13 then Take d [] else if c = 10 then Take (d\<lparr>state := CHUNKED_IN_CHUNK_SIZE\<rparr>) [] else Reject
      | CHUNKED_IN_TRAILERS_LINE_HEAD \<Rightarrow>
          if c = 13 then Take d [] else if c = 10 then Finish d
          else Take (d\<lparr>state := CHUNKED_IN_TRAILERS_LINE_MIDDLE\<rparr>) []
      | CHUNKED_IN_TRAILERS_LINE_MIDDLE \<Rightarrow>
          if c = 10 then Take (d\<lparr>state := CHUNKED_IN_TRAILERS_LINE_HEAD\<rparr>) [] else Take d [])"

text \<open>The verdict on some data: it has all been taken, the message has ended, or a character is wrong; with the decoder,
  what was decoded and what is left.\<close>

datatype verdict = Wait phr_chunked_decoder bytes | Fin phr_chunked_decoder bytes bytes | Bad phr_chunked_decoder bytes bytes

fun emit :: "bytes \<Rightarrow> verdict \<Rightarrow> verdict" where
  "emit xs (Wait d ys) = Wait d (xs @ ys)"
| "emit xs (Fin d ys rest) = Fin d (xs @ ys) rest"
| "emit xs (Bad d ys rest) = Bad d (xs @ ys) rest"

fun consume :: "phr_chunked_decoder \<Rightarrow> bytes \<Rightarrow> verdict" where
  "consume d [] = Wait d []"
| "consume d (c # cs) =
     (case take_char d c of Take d' ys \<Rightarrow> emit ys (consume d' cs) | Finish d' \<Rightarrow> Fin d' [] cs | Reject \<Rightarrow> Bad d [] (c # cs))"

lemma emit_emit [simp]: "emit xs (emit ys v) = emit (xs @ ys) v" by (cases v) simp_all

lemma emit_Nil [simp]: "emit [] v = v" by (cases v) simp_all

lemma consume_skip:
  "\<forall>c \<in> set xs. take_char d c = Take d [] \<Longrightarrow> consume d (xs @ ys) = consume d ys"
  by (induction xs) simp_all

lemma consume_data:
  "state d = CHUNKED_IN_CHUNK_DATA \<Longrightarrow> length xs < unat (bytes_left_in_chunk d) \<Longrightarrow>
    consume d xs = Wait (d\<lparr>bytes_left_in_chunk := bytes_left_in_chunk d - of_nat (length xs)\<rparr>) xs"
proof (induction xs arbitrary: d)
  case (Cons x xs)
  then have n: "bytes_left_in_chunk d \<noteq> 1" "bytes_left_in_chunk d \<noteq> 0" by auto
  then have "unat (bytes_left_in_chunk d - 1) = unat (bytes_left_in_chunk d) - 1" by (simp add: unat_minus_one)
  then show ?case using Cons n by (simp add: take_char_def Let_def)
qed simp

lemma consume_all_data:
  "state d = CHUNKED_IN_CHUNK_DATA \<Longrightarrow> length xs = unat (bytes_left_in_chunk d) \<Longrightarrow> xs \<noteq> [] \<Longrightarrow>
    consume d (xs @ ys) = emit xs (consume (d\<lparr>bytes_left_in_chunk := 0, state := CHUNKED_IN_CHUNK_CRLF\<rparr>) ys)"
proof (induction xs arbitrary: d)
  case (Cons x xs)
  show ?case
  proof (cases "xs = []")
    case True
    then have "bytes_left_in_chunk d = 1" using Cons.prems(2) by (simp add: word_unat_eq_iff)
    then show ?thesis using True Cons.prems(1) by (simp add: take_char_def)
  next
    case False
    then have "length xs > 0" by simp
    then have n: "bytes_left_in_chunk d \<noteq> 1" "bytes_left_in_chunk d \<noteq> 0" using Cons.prems(2) by auto
    then have "unat (bytes_left_in_chunk d - 1) = unat (bytes_left_in_chunk d) - 1" by (simp add: unat_minus_one)
    then show ?thesis using Cons False n by (simp add: take_char_def)
  qed
qed simp

section \<open>The decoder is the automaton\<close>

definition verdict :: "nat \<Rightarrow> outcome \<Rightarrow> verdict option" where
  "verdict n q =
     (case q of
        Complete r \<Rightarrow> if dst r \<le> src r \<and> src r \<le> n \<and> length (run_buf r) = n
          then Some (Fin (decoder r) (take (dst r) (run_buf r)) (drop (src r) (run_buf r))) else None
      | Exit m r \<Rightarrow> if dst r \<le> src r \<and> src r \<le> n \<and> length (run_buf r) = n
          then if m = - 2 \<and> src r = n then Some (Wait (decoder r) (take (dst r) (run_buf r)))
            else if m = - 1 then Some (Bad (decoder r) (take (dst r) (run_buf r)) (drop (src r) (run_buf r))) else None
          else None
      | _ \<Rightarrow> None)"

definition run_on :: "outcome \<Rightarrow> outcome" where
  "run_on q = (case q of Next r \<Rightarrow> decode_loop r | _ \<Rightarrow> q)"

definition expected :: "run \<Rightarrow> verdict" where
  "expected r = emit (take (dst r) (run_buf r)) (consume (decoder r) (drop (src r) (run_buf r)))"

definition agrees :: "run \<Rightarrow> outcome \<Rightarrow> bool" where
  "agrees r q \<longleftrightarrow> verdict (length (run_buf r)) (run_on q) = Some (expected r)"

definition good_decoder :: "phr_chunked_decoder \<Rightarrow> bool" where
  "good_decoder d \<longleftrightarrow> (state d = CHUNKED_IN_CHUNK_DATA \<longrightarrow> bytes_left_in_chunk d \<noteq> 0)"

definition good :: "run \<Rightarrow> bool" where
  "good r \<longleftrightarrow> dst r \<le> src r \<and> src r \<le> length (run_buf r) \<and> good_decoder (decoder r)"

lemma agrees_shift:
  "agrees r' q \<Longrightarrow> length (run_buf r') = length (run_buf r) \<Longrightarrow> expected r' = expected r \<Longrightarrow> agrees r q"
  by (simp add: agrees_def)

lemma scan_skips:
  "(case scan p xs i of Some j \<Rightarrow> \<exists>ys. drop i xs = ys @ drop j xs \<and> (\<forall>c \<in> set ys. \<not> p c) | None \<Rightarrow> \<forall>c \<in> set (drop i xs). \<not> p c)"
proof (induction p xs i rule: scan.induct)
  case (1 p xs i)
  show ?case
  proof (cases "i < length xs \<and> \<not> p (xs ! i)")
    case True
    then have d: "drop i xs = xs ! i # drop (i + 1) xs" by (simp add: Cons_nth_drop_Suc)
    have s: "scan p xs i = scan p xs (i + 1)" using True by (subst scan.simps) simp
    show ?thesis
      using 1 True unfolding s d by (auto split: option.splits)
  next
    case False
    then show ?thesis by (subst scan.simps) auto
  qed
qed

lemma agrees_scan:
  assumes "good r" and "\<And>c. \<not> p c \<Longrightarrow> take_char (decoder r) c = Take (decoder r) []"
    and "\<And>j. src r \<le> j \<Longrightarrow> j < length (run_buf r) \<Longrightarrow> p (run_buf r ! j) \<Longrightarrow> agrees (r\<lparr>src := j\<rparr>) (k (r\<lparr>src := j\<rparr>))"
  shows "agrees r (scan_then p r k)"
proof (cases "scan p (run_buf r) (src r)")
  case None
  then have "\<forall>c \<in> set (drop (src r) (run_buf r)). take_char (decoder r) c = Take (decoder r) []"
    using scan_skips [where p = p and xs = "run_buf r" and i = "src r"] assms(2) by simp
  then have "consume (decoder r) (drop (src r) (run_buf r)) = Wait (decoder r) []" using consume_skip [of _ _ "[]"] by simp
  then show ?thesis
    using None assms(1) by (simp add: agrees_def scan_then_def run_on_def verdict_def expected_def good_def)
next
  case (Some j)
  obtain ys where ys: "drop (src r) (run_buf r) = ys @ drop j (run_buf r)" "\<forall>c \<in> set ys. \<not> p c"
    using Some scan_skips [where p = p and xs = "run_buf r" and i = "src r"] by auto
  then have "expected (r\<lparr>src := j\<rparr>) = expected r" using assms(2) consume_skip [of ys] by (simp add: expected_def)
  then have "agrees r (k (r\<lparr>src := j\<rparr>))" using agrees_shift [OF assms(3)] scan_bounds [OF Some] by simp
  then show ?thesis using Some assms(1) by (simp add: scan_then_def good_def)
qed

lemma expected_step:
  assumes "src r < length (run_buf r)" and "take_char (decoder r) (run_buf r ! src r) = Take d []"
  shows "expected (r\<lparr>decoder := d, src := src r + 1\<rparr>) = expected r"
proof -
  have "drop (src r) (run_buf r) = run_buf r ! src r # drop (src r + 1) (run_buf r)" using assms(1) by (simp add: Cons_nth_drop_Suc)
  then show ?thesis using assms(2) by (simp add: expected_def)
qed

lemma char_at: "i < length xs \<Longrightarrow> drop i xs = xs ! i # drop (Suc i) xs"
  by (simp add: Cons_nth_drop_Suc)

lemma agrees_exit: "good r \<Longrightarrow> src r < length (run_buf r) \<Longrightarrow> take_char (decoder r) (run_buf r ! src r) = Reject \<Longrightarrow> agrees r (Exit (- 1) r)"
  by (simp add: agrees_def run_on_def verdict_def expected_def good_def char_at)

lemma agrees_finish:
  "good r \<Longrightarrow> src r < length (run_buf r) \<Longrightarrow> take_char (decoder r) (run_buf r ! src r) = Finish (decoder r) \<Longrightarrow> agrees r (Complete (skip r))"
  by (simp add: agrees_def run_on_def verdict_def expected_def good_def char_at skip_def)

text \<open>The induction hypothesis of the outer loop.\<close>

definition loop_ok :: "run \<Rightarrow> bool" where
  "loop_ok r \<longleftrightarrow> (\<forall>r'. good r' \<longrightarrow> length (run_buf r') = length (run_buf r) \<longrightarrow> src r < src r' \<longrightarrow> agrees r' (Next r'))"

lemma loop_okD: "loop_ok r \<Longrightarrow> good r' \<Longrightarrow> length (run_buf r') = length (run_buf r) \<Longrightarrow> src r < src r' \<Longrightarrow> agrees r' (Next r')"
  by (simp add: loop_ok_def)

lemma loop_ok_later: "loop_ok r \<Longrightarrow> length (run_buf r') = length (run_buf r) \<Longrightarrow> src r \<le> src r' \<Longrightarrow> loop_ok r'"
  by (simp add: loop_ok_def)

lemma agrees_take:
  assumes "src r < length (run_buf r)" and "take_char (decoder r) (run_buf r ! src r) = Take ((decoder r)\<lparr>state := s\<rparr>) []"
    and "agrees (set_state s (skip r)) q"
  shows "agrees r q"
  using assms(3) by (rule agrees_shift)
    (use expected_step [OF assms(1,2)] in \<open>simp_all add: set_state_def skip_def expected_def\<close>)

lemma crlf_agrees:
  assumes "good r" "state (decoder r) = CHUNKED_IN_CHUNK_CRLF" "loop_ok r"
  shows "agrees r (case_chunk_crlf r)"
  unfolding case_chunk_crlf_def
proof (rule agrees_scan [OF assms(1)])
  fix j assume j: "src r \<le> j" "j < length (run_buf r)" "run_buf r ! j \<noteq> 13"
  let ?r = "r\<lparr>src := j\<rparr>"
  have g: "good ?r" "good (set_state CHUNKED_IN_CHUNK_SIZE (skip ?r))"
    using assms(1) j by (simp_all add: good_def set_state_def skip_def good_decoder_def)
  show "agrees ?r (if run_buf ?r ! src ?r \<noteq> 10 then Exit (- 1) ?r else Next (set_state CHUNKED_IN_CHUNK_SIZE (skip ?r)))"
  proof (cases "run_buf r ! j = 10")
    case True
    have "agrees (set_state CHUNKED_IN_CHUNK_SIZE (skip ?r)) (Next (set_state CHUNKED_IN_CHUNK_SIZE (skip ?r)))"
      by (rule loop_okD [OF assms(3) g(2)]) (use j in \<open>simp_all add: set_state_def skip_def\<close>)
    then have "agrees ?r (Next (set_state CHUNKED_IN_CHUNK_SIZE (skip ?r)))"
      by (rule agrees_take [rotated 2]) (use j assms(2) True in \<open>simp_all add: take_char_def\<close>)
    then show ?thesis using True by simp
  next
    case False
    then show ?thesis using agrees_exit [OF g(1)] j assms(2) by (simp add: take_char_def)
  qed
qed (simp add: take_char_def assms(2))

lemma middle_agrees:
  assumes "good r" "state (decoder r) = CHUNKED_IN_TRAILERS_LINE_MIDDLE" "loop_ok r"
  shows "agrees r (case_trailers_middle r)"
  unfolding case_trailers_middle_def
proof (rule agrees_scan [OF assms(1)])
  fix j assume j: "src r \<le> j" "j < length (run_buf r)" "run_buf r ! j = 10"
  let ?r = "set_state CHUNKED_IN_TRAILERS_LINE_HEAD (skip (r\<lparr>src := j\<rparr>))"
  have "good ?r" using assms(1) j by (simp add: good_def set_state_def skip_def good_decoder_def)
  then have "agrees ?r (Next ?r)"
    by (rule loop_okD [OF assms(3)]) (use j in \<open>simp_all add: set_state_def skip_def\<close>)
  then show "agrees (r\<lparr>src := j\<rparr>) (Next ?r)"
    by (rule agrees_take [rotated 2]) (use j assms(2) in \<open>simp_all add: take_char_def\<close>)
qed (simp add: take_char_def assms(2))

lemma head_agrees:
  assumes "good r" "state (decoder r) = CHUNKED_IN_TRAILERS_LINE_HEAD" "loop_ok r"
  shows "agrees r (case_trailers_head r)"
  unfolding case_trailers_head_def
proof (rule agrees_scan [OF assms(1)])
  fix j assume j: "src r \<le> j" "j < length (run_buf r)" "run_buf r ! j \<noteq> 13"
  let ?r = "r\<lparr>src := j\<rparr>"
  let ?m = "set_state CHUNKED_IN_TRAILERS_LINE_MIDDLE (skip ?r)"
  have g: "good ?r" "good ?m"
    using assms(1) j by (simp_all add: good_def set_state_def skip_def good_decoder_def)
  show "agrees ?r (if run_buf ?r ! src ?r = 10 then Complete (skip ?r) else case_trailers_middle ?m)"
  proof (cases "run_buf r ! j = 10")
    case True
    then show ?thesis using agrees_finish [OF g(1)] j assms(2) by (simp add: take_char_def)
  next
    case False
    have "agrees ?m (case_trailers_middle ?m)"
      using g(2) by (rule middle_agrees)
        (use j in \<open>simp_all add: set_state_def skip_def loop_ok_later [OF assms(3)]\<close>)
    then have "agrees ?r (case_trailers_middle ?m)"
      by (rule agrees_take [rotated 2]) (use j assms(2) False in \<open>simp_all add: take_char_def\<close>)
    then show ?thesis using False by simp
  qed
qed (simp add: take_char_def assms(2))

text \<open>Moving the data down.\<close>

lemma memmove_take: "to \<le> from \<Longrightarrow> from + n \<le> length xs \<Longrightarrow> take (to + n) (memmove xs to from n) = take to xs @ take n (drop from xs)"
  by (simp add: memmove_def)

lemma memmove_drop: "to \<le> from \<Longrightarrow> from + n \<le> length xs \<Longrightarrow> drop (from + n) (memmove xs to from n) = drop (from + n) xs"
  by (simp add: memmove_def min_def)

definition moved :: "nat \<Rightarrow> run \<Rightarrow> run" where
  "moved n r = r\<lparr>run_buf := if dst r \<noteq> src r then memmove (run_buf r) (dst r) (src r) n else run_buf r, src := src r + n, dst := dst r + n\<rparr>"

lemma move_data_moved: "good r \<Longrightarrow> src r + n \<le> length (run_buf r) \<Longrightarrow> move_data n r k = k (moved n r)"
  by (simp add: move_data_def moved_def good_def Let_def)

lemma moved_buf:
  assumes "good r" and "src r + n \<le> length (run_buf r)"
  shows "length (run_buf (moved n r)) = length (run_buf r)"
    and "take (dst r + n) (run_buf (moved n r)) = take (dst r) (run_buf r) @ take n (drop (src r) (run_buf r))"
    and "drop (src r + n) (run_buf (moved n r)) = drop (src r + n) (run_buf r)"
proof -
  show "length (run_buf (moved n r)) = length (run_buf r)" "drop (src r + n) (run_buf (moved n r)) = drop (src r + n) (run_buf r)"
    using assms by (auto simp: moved_def good_def length_memmove memmove_drop)
  show "take (dst r + n) (run_buf (moved n r)) = take (dst r) (run_buf r) @ take n (drop (src r) (run_buf r))"
  proof (cases "dst r = src r")
    case True
    then show ?thesis by (simp add: moved_def take_add)
  next
    case False
    then show ?thesis using assms by (simp add: moved_def good_def memmove_take)
  qed
qed

lemma data_agrees:
  assumes "good r" "state (decoder r) = CHUNKED_IN_CHUNK_DATA" "loop_ok r"
  shows "agrees r (case_chunk_data r)"
proof (cases "length (run_buf r) - src r < unat (bytes_left_in_chunk (decoder r))")
  case True
  let ?n = "length (run_buf r) - src r"
  have n: "src r + ?n \<le> length (run_buf r)" using assms(1) by (simp add: good_def)
  note m = moved_buf [OF assms(1) n]
  have e: "src r + ?n = length (run_buf r)" using assms(1) by (simp add: good_def)
  have "consume (decoder r) (drop (src r) (run_buf r)) =
      Wait ((decoder r)\<lparr>bytes_left_in_chunk := bytes_left_in_chunk (decoder r) - of_nat ?n\<rparr>) (drop (src r) (run_buf r))"
    using True assms(2) consume_data [of "decoder r" "drop (src r) (run_buf r)"] by simp
  moreover have "dst r + ?n \<le> src r + ?n" using assms(1) by (intro add_right_mono) (simp add: good_def)
  ultimately show ?thesis
    using True m e by (simp add: case_chunk_data_def Let_def move_data_moved [OF assms(1) n] agrees_def run_on_def verdict_def
        expected_def) (simp add: moved_def)
next
  case False
  let ?n = "unat (bytes_left_in_chunk (decoder r))"
  let ?r = "set_state CHUNKED_IN_CHUNK_CRLF
    ((moved ?n r)\<lparr>decoder := (decoder (moved ?n r))\<lparr>bytes_left_in_chunk := 0\<rparr>\<rparr>)"
  have n: "src r + ?n \<le> length (run_buf r)" using assms(1) False unfolding good_def by linarith
  note m = moved_buf [OF assms(1) n]
  have left: "bytes_left_in_chunk (decoder r) \<noteq> 0" using assms(1,2) by (simp add: good_def good_decoder_def)
  then have pos: "0 < ?n" by (simp add: unat_gt_0)
  have f: "src ?r = src r + ?n" "dst ?r = dst r + ?n" "run_buf ?r = run_buf (moved ?n r)"
    "decoder ?r = (decoder r)\<lparr>bytes_left_in_chunk := 0, state := CHUNKED_IN_CHUNK_CRLF\<rparr>"
    by (simp_all add: moved_def set_state_def)
  have "good ?r" using assms(1) n m(1) unfolding good_def f by (simp add: good_decoder_def)
  then have a: "agrees ?r (case_chunk_crlf ?r)"
    by (rule crlf_agrees) (use f m(1) in \<open>simp_all add: loop_ok_later [OF assms(3)]\<close>)
  have d: "drop (src r) (run_buf r) = take ?n (drop (src r) (run_buf r)) @ drop (src r + ?n) (run_buf r)"
    by (metis append_take_drop_id drop_drop add.commute)
  have "consume (decoder r) (drop (src r) (run_buf r)) = emit (take ?n (drop (src r) (run_buf r)))
      (consume ((decoder r)\<lparr>bytes_left_in_chunk := 0, state := CHUNKED_IN_CHUNK_CRLF\<rparr>) (drop (src r + ?n) (run_buf r)))"
    by (subst (1) d, rule consume_all_data) (use assms(2) pos n in auto)
  then have "expected ?r = expected r" unfolding expected_def f m by simp
  then have "agrees r (case_chunk_crlf ?r)" using agrees_shift [OF a] f m(1) by simp
  then show ?thesis using False by (simp add: case_chunk_data_def Let_def move_data_moved [OF assms(1) n])
qed

lemma ext_agrees:
  assumes "good r" "state (decoder r) = CHUNKED_IN_CHUNK_EXT" "loop_ok r"
  shows "agrees r (case_chunk_ext r)"
  unfolding case_chunk_ext_def
proof (rule agrees_scan [OF assms(1)])
  fix j assume j: "src r \<le> j" "j < length (run_buf r)" "run_buf r ! j = 10"
  let ?r = "r\<lparr>src := j\<rparr>"
  let ?d = "set_state CHUNKED_IN_CHUNK_DATA (skip ?r)" and ?h = "set_state CHUNKED_IN_TRAILERS_LINE_HEAD (skip ?r)"
  have g: "good ?r" "good ?h" "bytes_left_in_chunk (decoder r) \<noteq> 0 \<Longrightarrow> good ?d"
    using assms(1) j by (simp_all add: good_def set_state_def skip_def good_decoder_def)
  have same: "(decoder r)\<lparr>state := CHUNKED_IN_CHUNK_EXT\<rparr> = decoder r" using assms(2) by simp
  consider "bytes_left_in_chunk (decoder r) \<noteq> 0"
    | "bytes_left_in_chunk (decoder r) = 0" "consume_trailer (decoder r) \<noteq> 0"
    | "bytes_left_in_chunk (decoder r) = 0" "consume_trailer (decoder r) = 0" by blast
  then show "agrees ?r (let r = skip ?r in
     if bytes_left_in_chunk (decoder r) = 0 then
       if consume_trailer (decoder r) \<noteq> 0 then Next (set_state CHUNKED_IN_TRAILERS_LINE_HEAD r) else Complete r
     else case_chunk_data (set_state CHUNKED_IN_CHUNK_DATA r))"
  proof cases
    case 1
    have "agrees ?d (case_chunk_data ?d)"
      using g(3) [OF 1] by (rule data_agrees)
        (use j in \<open>simp_all add: set_state_def skip_def loop_ok_later [OF assms(3)]\<close>)
    then have "agrees ?r (case_chunk_data ?d)"
      by (rule agrees_take [rotated 2]) (use j assms(2) 1 in \<open>simp_all add: take_char_def\<close>)
    then show ?thesis using 1 by (simp add: Let_def skip_def)
  next
    case 2
    have "agrees ?h (Next ?h)"
      by (rule loop_okD [OF assms(3) g(2)]) (use j in \<open>simp_all add: set_state_def skip_def\<close>)
    then have "agrees ?r (Next ?h)"
      by (rule agrees_take [rotated 2]) (use j assms(2) 2 in \<open>simp_all add: take_char_def\<close>)
    then show ?thesis using 2 by (simp add: Let_def skip_def)
  next
    case 3
    then have "agrees ?r (Complete (skip ?r))"
      using agrees_finish [OF g(1)] j assms(2) same by (simp add: take_char_def)
    then show ?thesis using 3 by (simp add: Let_def skip_def)
  qed
qed (simp add: take_char_def assms(2))

lemma size_agrees:
  "good r \<Longrightarrow> state (decoder r) = CHUNKED_IN_CHUNK_SIZE \<Longrightarrow> loop_ok r \<Longrightarrow> agrees r (case_chunk_size r)"
proof (induction r rule: case_chunk_size.induct)
  case (1 r)
  note g = "1.prems"(1) and st = "1.prems"(2) and ok = "1.prems"(3)
  note here = case_chunk_size.simps [of r]
  show ?case
  proof (cases "src r = length (run_buf r)")
    case True
    then show ?thesis using here g by (simp add: agrees_def run_on_def verdict_def expected_def good_def)
  next
    case False
    then have i: "src r < length (run_buf r)" using g by (simp add: good_def)
    define c where "c = run_buf r ! src r"
    define v where "v = decode_hex (sint c)"
    let ?e = "(decoder r)\<lparr>hex_count := 0, state := CHUNKED_IN_CHUNK_EXT\<rparr>"
    let ?d = "(decoder r)\<lparr>bytes_left_in_chunk := bytes_left_in_chunk (decoder r) * 16 + of_int v, hex_count := hex_count (decoder r) + 1\<rparr>"
    consider "v = - 1" "hex_count (decoder r) = 0" | "v = - 1" "hex_count (decoder r) \<noteq> 0"
      | "v \<noteq> - 1" "hex_count (decoder r) = 16" | "v \<noteq> - 1" "hex_count (decoder r) \<noteq> 16" by blast
    then show ?thesis
    proof cases
      case 1
      then show ?thesis using agrees_exit [OF g i] st here i by (simp add: take_char_def Let_def c_def v_def)
    next
      case 2
      let ?r = "r\<lparr>decoder := ?e\<rparr>"
      have "good ?r" using g by (simp add: good_def good_decoder_def)
      then have a: "agrees ?r (case_chunk_ext ?r)"
        by (rule ext_agrees) (simp_all add: loop_ok_later [OF ok])
      have "take_char ?e c = take_char (decoder r) c" using 2 st by (simp add: take_char_def v_def)
      moreover have "take_char ?e c \<noteq> Reject" by (simp add: take_char_def)
      ultimately have "expected ?r = expected r"
        using i by (auto simp: expected_def char_at c_def split: move.split)
      then have "agrees r (case_chunk_ext ?r)" using agrees_shift [OF a] by simp
      then show ?thesis using 2 here i by (simp add: Let_def c_def v_def)
    next
      case 3
      then show ?thesis using agrees_exit [OF g i] st here i by (simp add: take_char_def Let_def c_def v_def)
    next
      case 4
      let ?r = "skip (r\<lparr>decoder := ?d\<rparr>)"
      have "take_char (decoder r) c = Take ?d []" using 4 st by (simp add: take_char_def v_def)
      then have e: "expected ?r = expected r" using i by (simp add: expected_def char_at c_def skip_def)
      have "good ?r" "state (decoder ?r) = CHUNKED_IN_CHUNK_SIZE" "loop_ok ?r"
        using g i st by (simp_all add: good_def good_decoder_def skip_def loop_ok_later [OF ok])
      then have "agrees ?r (case_chunk_size ?r)"
        using "1.IH" [OF False i refl refl] 4 unfolding v_def c_def by simp
      then have "agrees r (case_chunk_size ?r)" by (rule agrees_shift) (simp_all add: e, simp add: skip_def)
      then show ?thesis using 4 here i by (simp add: Let_def c_def v_def)
    qed
  qed
qed

lemma switch_agrees: "good r \<Longrightarrow> loop_ok r \<Longrightarrow> agrees r (switch r)"
  unfolding switch_def
  by (cases "state (decoder r)")
    (simp_all add: size_agrees ext_agrees data_agrees crlf_agrees head_agrees middle_agrees)

lemma loop_agrees: "good r \<Longrightarrow> agrees r (Next r)"
proof (induction "room r" arbitrary: r rule: less_induct)
  case less
  have "loop_ok r"
    unfolding loop_ok_def using less.hyps less.prems by (auto simp: room_def good_def)
  then have "agrees r (switch r)" using less.prems by (simp add: switch_agrees)
  moreover have "decode_loop r = run_on (switch r)"
    by (subst decode_loop.simps) (simp add: run_on_def split: outcome.splits)
  ultimately show ?case by (simp add: agrees_def run_on_def)
qed

lemma consume_good: "good_decoder d \<Longrightarrow> consume d xs = Wait d' ys \<Longrightarrow> good_decoder d'"
proof (induction xs arbitrary: d ys)
  case (Cons c cs)
  show ?case
  proof (cases "take_char d c")
    case (Take d1 zs)
    then have "good_decoder d1"
      using Cons.prems(1) by (auto simp: take_char_def good_decoder_def Let_def split: chunk_state.splits if_splits)
    moreover obtain ys' where "consume d1 cs = Wait d' ys'" using Cons.prems(2) Take by (cases "consume d1 cs") auto
    ultimately show ?thesis by (rule Cons.IH)
  qed (use Cons.prems in auto)
qed simp

lemma consume_append:
  "consume d (xs @ ys) = (case consume d xs of
     Wait d' out \<Rightarrow> emit out (consume d' ys)
   | Fin d' out rest \<Rightarrow> Fin d' out (rest @ ys)
   | Bad d' out rest \<Rightarrow> Bad d' out (rest @ ys))"
proof (induction xs arbitrary: d)
  case (Cons c cs)
  show ?case
  proof (cases "take_char d c")
    case (Take d1 zs)
    then show ?thesis using Cons [of d1] by (cases "consume d1 cs") simp_all
  qed simp_all
qed simp

lemma finish_moves:
  assumes "dst r \<le> src r" "src r \<le> length (run_buf r)" "out = take (dst r) (run_buf r)" "rest = drop (src r) (run_buf r)"
  shows "\<exists>ys. finish n r = Some (n, decoder r, out @ rest @ ys, length out) \<and> length (out @ rest @ ys) = length (run_buf r)"
proof (cases "dst r = src r")
  case True
  then show ?thesis using assms by (intro exI [of _ "[]"]) (simp add: finish_def)
next
  case False
  then show ?thesis
    using assms by (intro exI [of _ "drop (dst r + (length (run_buf r) - src r)) (run_buf r)"]) (simp add: finish_def memmove_def)
qed

lemma decode_verdict:
  assumes "good_decoder d"
  shows "verdict (length xs) (decode_loop \<lparr>decoder = d, run_buf = xs, dst = 0, src = 0\<rparr>) = Some (consume d xs)"
  using loop_agrees [of "\<lparr>decoder = d, run_buf = xs, dst = 0, src = 0\<rparr>"] assms
  by (simp add: agrees_def run_on_def expected_def good_def)

lemma decode_is_automaton:
  assumes "good_decoder d"
  shows "case consume d xs of
      Wait d' out \<Rightarrow> \<exists>ys. phr_decode_chunked d xs = Some (- 2, d', out @ ys, length out) \<and> length (out @ ys) = length xs
    | Fin d' out rest \<Rightarrow> \<exists>ys. phr_decode_chunked d xs = Some (int (length rest), d', out @ rest @ ys, length out) \<and>
        length (out @ rest @ ys) = length xs
    | Bad d' out rest \<Rightarrow> \<exists>ys. phr_decode_chunked d xs = Some (- 1, d', out @ rest @ ys, length out) \<and>
        length (out @ rest @ ys) = length xs"
proof (cases "decode_loop \<lparr>decoder = d, run_buf = xs, dst = 0, src = 0\<rparr>")
  case (Complete r)
  then have f: "dst r \<le> src r" "src r \<le> length (run_buf r)" "length (run_buf r) = length xs"
    "consume d xs = Fin (decoder r) (take (dst r) (run_buf r)) (drop (src r) (run_buf r))"
    using decode_verdict [OF assms, of xs] by (auto simp: verdict_def split: if_splits)
  then show ?thesis
    using finish_moves [OF f(1,2) refl refl, of "int (length (run_buf r)) - int (src r)"] Complete
    unfolding f(4) verdict.case by (simp add: phr_decode_chunked_def of_nat_diff del: length_take length_append)
next
  case (Exit n r)
  then have f: "dst r \<le> src r" "src r \<le> length (run_buf r)" "length (run_buf r) = length xs"
    "n = - 2 \<and> src r = length xs \<and> consume d xs = Wait (decoder r) (take (dst r) (run_buf r)) \<or>
     n = - 1 \<and> consume d xs = Bad (decoder r) (take (dst r) (run_buf r)) (drop (src r) (run_buf r))"
    using decode_verdict [OF assms, of xs] by (auto simp: verdict_def split: if_splits)
  then show ?thesis
    using finish_moves [OF f(1,2) refl refl, of n] Exit by (auto simp: phr_decode_chunked_def simp del: length_take length_append)
qed (use decode_verdict [OF assms, of xs] in \<open>simp_all add: verdict_def\<close>)

section \<open>Data that comes in pieces\<close>

text \<open>The caller's loop: call the decoder on each piece as it arrives, while it answers -2.\<close>

fun decode_pieces :: "phr_chunked_decoder \<Rightarrow> bytes list \<Rightarrow> verdict option" where
  "decode_pieces d [] = Some (Wait d [])"
| "decode_pieces d (x # xs) =
     (case phr_decode_chunked d x of
        None \<Rightarrow> None
      | Some (n, d', ys, sz) \<Rightarrow>
          if n = - 2 then map_option (emit (take sz ys)) (decode_pieces d' xs)
          else if n = - 1 then Some (Bad d' (take sz ys) [])
          else Some (Fin d' (take sz ys) (take (nat n) (drop sz ys) @ concat xs)))"

text \<open>After an error the caller does not know what is left.\<close>

fun unknown_rest :: "verdict \<Rightarrow> verdict" where
  "unknown_rest (Bad d xs rest) = Bad d xs []"
| "unknown_rest v = v"

lemma unknown_emit [simp]: "unknown_rest (emit xs v) = emit xs (unknown_rest v)" by (cases v) simp_all

lemma decode_pieces_consume:
  "good_decoder d \<Longrightarrow> decode_pieces d xs = Some (unknown_rest (consume d (concat xs)))"
proof (induction xs arbitrary: d)
  case (Cons x xs)
  show ?case
  proof (cases "consume d x")
    case (Wait d' out)
    then have "decode_pieces d' xs = Some (unknown_rest (consume d' (concat xs)))"
      using Cons consume_good by blast
    then show ?thesis using decode_is_automaton [OF Cons.prems, of x] Wait by (auto simp: consume_append)
  qed (use decode_is_automaton [OF Cons.prems, of x] in \<open>auto simp: consume_append\<close>)
qed simp

section \<open>The grammar\<close>

definition hex_digit :: "u8 \<Rightarrow> bool" where
  "hex_digit c \<longleftrightarrow> decode_hex (sint c) \<noteq> - 1"

definition hex_value :: "bytes \<Rightarrow> nat" where
  "hex_value ds = foldl (\<lambda>n c. n * 16 + nat (decode_hex (sint c))) 0 ds"

text \<open>The line with the size: up to sixteen digits, an extension that does not begin with one, and LF.\<close>

definition size_line_ok :: "nat \<Rightarrow> bytes \<Rightarrow> bytes \<Rightarrow> bool" where
  "size_line_ok n ds ext \<longleftrightarrow> ds \<noteq> [] \<and> length ds \<le> 16 \<and> (\<forall>c \<in> set ds. hex_digit c) \<and> hex_value ds = n \<and>
     10 \<notin> set ext \<and> \<not> hex_digit (hd (ext @ [10]))"

type_synonym chunk = "bytes \<times> bytes \<times> bytes"

definition chunk_ok :: "chunk \<Rightarrow> bool" where
  "chunk_ok chk \<longleftrightarrow> (case chk of (ds, ext, data) \<Rightarrow> size_line_ok (length data) ds ext \<and> data \<noteq> [])"

definition print_chunk :: "chunk \<Rightarrow> bytes" where
  "print_chunk chk = (case chk of (ds, ext, data) \<Rightarrow> ds @ ext @ [10] @ data @ [13, 10])"

definition chunk_data :: "chunk \<Rightarrow> bytes" where
  "chunk_data chk = snd (snd chk)"

definition trailer_ok :: "bytes \<Rightarrow> bool" where
  "trailer_ok t \<longleftrightarrow> t \<noteq> [] \<and> hd t \<noteq> 13 \<and> 10 \<notin> set t"

text \<open>The chunks, the last one of size 0, and the trailer for a decoder that consumes it.\<close>

definition print_message :: "chunk list \<Rightarrow> bytes \<Rightarrow> bytes \<Rightarrow> bytes list option \<Rightarrow> bytes" where
  "print_message cs ds ext trailer =
     concat (map print_chunk cs) @ ds @ ext @ [10] @
     (case trailer of None \<Rightarrow> [] | Some ts \<Rightarrow> concat (map (\<lambda>t. t @ [10]) ts) @ [13, 10])"

lemma hex_range: "decode_hex c = - 1 \<or> 0 \<le> decode_hex c \<and> decode_hex c < 16"
  by (simp add: decode_hex_def)

lemma hex_value_bound: "hex_value ds < 16 ^ length ds"
proof (induction ds rule: rev_induct)
  case (snoc c ds)
  have "nat (decode_hex (sint c)) < 16" using hex_range [of "sint c"] by auto
  then show ?case using snoc by (simp add: hex_value_def)
qed (simp add: hex_value_def)

lemma consume_digits:
  "state d = CHUNKED_IN_CHUNK_SIZE \<Longrightarrow> \<forall>c \<in> set ds. hex_digit c \<Longrightarrow> unat (hex_count d) + length ds \<le> 16 \<Longrightarrow>
    consume d (ds @ xs) = consume (d\<lparr>bytes_left_in_chunk := foldl (\<lambda>n c. n * 16 + of_int (decode_hex (sint c))) (bytes_left_in_chunk d) ds,
      hex_count := hex_count d + of_nat (length ds)\<rparr>) xs"
proof (induction ds arbitrary: d)
  case (Cons c ds)
  then have n: "unat (hex_count d) < 16" by simp
  then have "hex_count d \<noteq> 16" by auto
  moreover have "unat (hex_count d + 1) = unat (hex_count d) + 1"
    using n by (subst unat_add_lem [THEN iffD1]) simp_all
  ultimately show ?case using Cons by (simp add: take_char_def Let_def hex_digit_def add.assoc)
qed simp

lemma fold_of_nat:
  "\<forall>c \<in> set ds. hex_digit c \<Longrightarrow>
    foldl (\<lambda>n c. n * 16 + of_int (decode_hex (sint c))) (of_nat k :: u64) ds =
    of_nat (foldl (\<lambda>n c. n * 16 + nat (decode_hex (sint c))) k ds)"
proof (induction ds arbitrary: k)
  case (Cons c ds)
  then have "0 \<le> decode_hex (sint c)" using hex_range [of "sint c"] by (auto simp: hex_digit_def)
  then have "(of_nat k * 16 + of_int (decode_hex (sint c)) :: u64) = of_nat (k * 16 + nat (decode_hex (sint c)))"
    by (simp add: of_nat_nat)
  then show ?case using Cons.IH [of "k * 16 + nat (decode_hex (sint c))"] Cons.prems by simp
qed simp

definition fresh :: "phr_chunked_decoder \<Rightarrow> bool" where
  "fresh d \<longleftrightarrow> state d = CHUNKED_IN_CHUNK_SIZE \<and> hex_count d = 0 \<and> bytes_left_in_chunk d = 0"

lemma consume_size_line:
  assumes "fresh d" and "size_line_ok n ds ext"
  shows "consume d (ds @ ext @ [10] @ xs) =
    consume (d\<lparr>bytes_left_in_chunk := of_nat n, state := CHUNKED_IN_CHUNK_EXT\<rparr>) (10 # xs)"
proof -
  let ?e = "d\<lparr>bytes_left_in_chunk := of_nat n, hex_count := of_nat (length ds)\<rparr>"
  let ?x = "d\<lparr>bytes_left_in_chunk := of_nat n, state := CHUNKED_IN_CHUNK_EXT\<rparr>"
  have ok: "ds \<noteq> []" "length ds \<le> 16" "\<forall>c \<in> set ds. hex_digit c" "hex_value ds = n" "10 \<notin> set ext" "\<not> hex_digit (hd (ext @ [10]))"
    using assms(2) by (simp_all add: size_line_ok_def)
  have "foldl (\<lambda>n c. n * 16 + of_int (decode_hex (sint c))) (0::u64) ds = of_nat n"
    using fold_of_nat [OF ok(3), of 0] ok(4) by (simp add: hex_value_def)
  then have 1: "consume d (ds @ ext @ [10] @ xs) = consume ?e (ext @ [10] @ xs)"
    using consume_digits [of d ds] assms(1) ok(2,3) by (simp add: fresh_def)
  obtain c ys where c: "ext @ [10] = c # ys" by (cases ext) auto
  have "unat (of_nat (length ds) :: u8) = length ds" using ok(2) by (simp add: unat_of_nat take_bit_nat_eq_self)
  then have "(of_nat (length ds) :: u8) \<noteq> 0" using ok(1) by auto
  then have "take_char ?e c = take_char ?x c" "take_char ?e c \<noteq> Reject"
    using c ok(6) assms(1) by (simp_all add: take_char_def hex_digit_def fresh_def Let_def)
  then have "consume ?e (c # ys @ xs) = consume ?x (c # ys @ xs)" by (auto split: move.split)
  moreover have e: "ext @ 10 # xs = c # ys @ xs" using arg_cong [OF c, of "\<lambda>z. z @ xs"] by simp
  ultimately have 2: "consume ?e (ext @ 10 # xs) = consume ?x (ext @ 10 # xs)" by (simp only: e)
  have "\<forall>c \<in> set ext. take_char ?x c = Take ?x []" using ok(5) by (auto simp: take_char_def)
  then have 3: "consume ?x (ext @ 10 # xs) = consume ?x (10 # xs)" by (rule consume_skip)
  show ?thesis using 1 unfolding append_Cons append_Nil 2 3 .
qed

lemma consume_chunk:
  assumes "fresh d" and "chunk_ok chk"
  shows "consume d (print_chunk chk @ xs) = emit (chunk_data chk) (consume d xs)"
proof -
  obtain ds ext data where chk: "chk = (ds, ext, data)" by (cases chk)
  have ok: "size_line_ok (length data) ds ext" "data \<noteq> []" using assms(2) chk by (simp_all add: chunk_ok_def)
  let ?n = "of_nat (length data) :: u64"
  let ?d = "d\<lparr>bytes_left_in_chunk := ?n, state := CHUNKED_IN_CHUNK_DATA\<rparr>"
  have "length data < 16 ^ length ds" using hex_value_bound [of ds] ok(1) by (simp add: size_line_ok_def)
  also have "\<dots> \<le> 16 ^ 16" using ok(1) by (intro power_increasing) (simp_all add: size_line_ok_def)
  finally have n: "unat ?n = length data" by (simp add: unat_of_nat take_bit_nat_eq_self)
  then have nz: "?n \<noteq> 0" using ok(2) by (metis length_0_conv unat_0)
  have same: "d\<lparr>bytes_left_in_chunk := 0, state := CHUNKED_IN_CHUNK_SIZE\<rparr> = d" using assms(1) by (cases d) (simp add: fresh_def)
  have "consume d (print_chunk chk @ xs) = consume ?d (data @ [13, 10] @ xs)"
    using consume_size_line [OF assms(1) ok(1), of "data @ [13, 10] @ xs"] nz chk by (simp add: print_chunk_def take_char_def)
  also have "\<dots> = emit data (consume (?d\<lparr>bytes_left_in_chunk := 0, state := CHUNKED_IN_CHUNK_CRLF\<rparr>) ([13, 10] @ xs))"
    by (rule consume_all_data) (use n ok(2) in simp_all)
  also have "consume (?d\<lparr>bytes_left_in_chunk := 0, state := CHUNKED_IN_CHUNK_CRLF\<rparr>) ([13, 10] @ xs) = consume d xs"
    using same by (simp add: take_char_def)
  finally show ?thesis using chk by (simp add: chunk_data_def)
qed

lemma consume_chunks:
  "fresh d \<Longrightarrow> \<forall>chk \<in> set cs. chunk_ok chk \<Longrightarrow>
    consume d (concat (map print_chunk cs) @ xs) = emit (concat (map chunk_data cs)) (consume d xs)"
  by (induction cs) (simp_all add: consume_chunk)

lemma consume_trailer:
  "state d = CHUNKED_IN_TRAILERS_LINE_HEAD \<Longrightarrow> \<forall>t \<in> set ts. trailer_ok t \<Longrightarrow>
    consume d (concat (map (\<lambda>t. t @ [10]) ts) @ [13, 10] @ xs) = Fin d [] xs"
proof (induction ts)
  case Nil
  then show ?case by (simp add: take_char_def)
next
  case (Cons t ts)
  let ?m = "d\<lparr>state := CHUNKED_IN_TRAILERS_LINE_MIDDLE\<rparr>"
  have d: "?m\<lparr>state := CHUNKED_IN_TRAILERS_LINE_HEAD\<rparr> = d" using Cons.prems(1) by simp
  obtain c u where t: "t = c # u" "c \<noteq> 13" "c \<noteq> 10" "10 \<notin> set u"
    using Cons.prems(2) by (cases t) (auto simp: trailer_ok_def)
  then have "\<forall>c \<in> set u. take_char ?m c = Take ?m []" by (auto simp: take_char_def)
  then have "consume ?m (u @ 10 # ys) = consume d ys" for ys
    using consume_skip [of u ?m "10 # ys"] d by (simp add: take_char_def)
  then have "consume d (t @ 10 # ys) = consume d ys" for ys using t Cons.prems(1) by (simp add: take_char_def)
  then show ?case using Cons by simp
qed

lemma consume_message:
  assumes "\<forall>chk \<in> set cs. chunk_ok chk" and "size_line_ok 0 ds ext"
    and "case trailer of None \<Rightarrow> consume_trailer d = 0 | Some ts \<Rightarrow> consume_trailer d \<noteq> 0 \<and> (\<forall>t \<in> set ts. trailer_ok t)"
    and "fresh d"
  shows "\<exists>d'. consume d (print_message cs ds ext trailer @ rest) = Fin d' (concat (map chunk_data cs)) rest"
proof -
  have d0: "d\<lparr>bytes_left_in_chunk := 0, state := CHUNKED_IN_CHUNK_EXT\<rparr> = d\<lparr>state := CHUNKED_IN_CHUNK_EXT\<rparr>"
    using assms(4) by (cases d) (simp add: fresh_def)
  have line: "consume d (ds @ ext @ [10] @ xs) = consume (d\<lparr>state := CHUNKED_IN_CHUNK_EXT\<rparr>) (10 # xs)" for xs
    using consume_size_line [OF assms(4,2)] d0 by simp
  have m: "consume d (print_message cs ds ext trailer @ rest) = emit (concat (map chunk_data cs))
      (consume (d\<lparr>state := CHUNKED_IN_CHUNK_EXT\<rparr>)
        (10 # (case trailer of None \<Rightarrow> [] | Some ts \<Rightarrow> concat (map (\<lambda>t. t @ [10]) ts) @ [13, 10]) @ rest))"
    unfolding line [symmetric] using consume_chunks [OF assms(4,1)] by (simp add: print_message_def)
  show ?thesis
  proof (cases trailer)
    case None
    then show ?thesis using m assms(3,4) by (simp add: take_char_def fresh_def)
  next
    case (Some ts)
    then show ?thesis
      using m assms(3,4) consume_trailer [of "d\<lparr>state := CHUNKED_IN_TRAILERS_LINE_HEAD\<rparr>" ts rest]
      by (simp add: take_char_def fresh_def)
  qed
qed

section \<open>Properties\<close>

text \<open>C28: A call returns for every input, reads and writes only inside the array, keeps its length, and does what the
  automaton does character by character: it returns -2 when everything was taken, -1 at a wrong character, else
  the number of characters after the end of the message, which stand behind the decoded data.\<close>

theorem phr_decode_chunked_is_automaton:
  assumes "good_decoder d"
  shows "case consume d xs of
      Wait d' out \<Rightarrow> \<exists>ys. phr_decode_chunked d xs = Some (- 2, d', out @ ys, length out) \<and> length (out @ ys) = length xs
    | Fin d' out rest \<Rightarrow> \<exists>ys. phr_decode_chunked d xs = Some (int (length rest), d', out @ rest @ ys, length out) \<and>
        length (out @ rest @ ys) = length xs
    | Bad d' out rest \<Rightarrow> \<exists>ys. phr_decode_chunked d xs = Some (- 1, d', out @ rest @ ys, length out) \<and>
        length (out @ rest @ ys) = length xs"
  by (rule decode_is_automaton [OF assms])

theorem phr_decode_chunked_is_automaton_witness:
  "\<exists>d' ys. phr_decode_chunked zero_decoder [50, 10, 7] = Some (- 2, d', [7] @ ys, 1) \<and> length ([7] @ ys) = 3"
proof -
  obtain d' where "consume zero_decoder [50, 10, 7] = Wait d' [7]"
    by (simp add: zero_decoder_def take_char_def decode_hex_def)
  moreover have "good_decoder zero_decoder" by (simp add: zero_decoder_def good_decoder_def)
  ultimately show ?thesis using phr_decode_chunked_is_automaton [of zero_decoder "[50, 10, 7]"] by auto
qed

text \<open>It does not matter how the data is cut into calls: the decoded data, the state of the decoder, the end of
  the message with what follows it, or the error, are those of one call on everything.\<close>

theorem phr_decode_chunked_pieces:
  assumes "good_decoder d"
  shows "decode_pieces d xs = decode_pieces d [concat xs] \<and> decode_pieces d xs \<noteq> None"
  using decode_pieces_consume [OF assms, of xs] decode_pieces_consume [OF assms, of "[concat xs]"] by simp

theorem phr_decode_chunked_pieces_witness:
  "decode_pieces zero_decoder [[50], [10, 7], [8, 13]] = decode_pieces zero_decoder [[50, 10, 7, 8, 13]]"
  using phr_decode_chunked_pieces [of zero_decoder "[[50], [10, 7], [8, 13]]"] by (simp add: zero_decoder_def good_decoder_def)

text \<open>C29: A message of chunks, with extensions, and with a trailer when the decoder consumes it, is decoded to the
  concatenation of the chunks, and what follows it is left, in however many pieces it arrives.\<close>

theorem phr_decode_chunked_roundtrip:
  assumes "\<forall>chk \<in> set cs. chunk_ok chk" and "size_line_ok 0 ds ext"
    and "case trailer of None \<Rightarrow> tr = 0 | Some ts \<Rightarrow> tr \<noteq> 0 \<and> (\<forall>t \<in> set ts. trailer_ok t)"
    and "concat xs = print_message cs ds ext trailer @ rest"
  shows "\<exists>d'. decode_pieces (zero_decoder\<lparr>consume_trailer := tr\<rparr>) xs = Some (Fin d' (concat (map chunk_data cs)) rest)"
proof -
  have "\<exists>d'. consume (zero_decoder\<lparr>consume_trailer := tr\<rparr>) (concat xs) = Fin d' (concat (map chunk_data cs)) rest"
    unfolding assms(4)
  proof (rule consume_message [OF assms(1,2)])
    show "case trailer of None \<Rightarrow> consume_trailer (zero_decoder\<lparr>consume_trailer := tr\<rparr>) = 0
      | Some ts \<Rightarrow> consume_trailer (zero_decoder\<lparr>consume_trailer := tr\<rparr>) \<noteq> 0 \<and> (\<forall>t \<in> set ts. trailer_ok t)"
      using assms(3) by (cases trailer) (simp_all add: zero_decoder_def)
  qed (simp add: zero_decoder_def fresh_def)
  moreover have "good_decoder (zero_decoder\<lparr>consume_trailer := tr\<rparr>)" by (simp add: zero_decoder_def good_decoder_def)
  ultimately show ?thesis using decode_pieces_consume by auto
qed

theorem phr_decode_chunked_roundtrip_witness:
  "\<exists>d'. decode_pieces (zero_decoder\<lparr>consume_trailer := 1\<rparr>)
    [[50, 13, 10, 7], [8, 13, 10, 48, 10, 65, 10, 13, 10, 9]] = Some (Fin d' [7, 8] [9])"
  using phr_decode_chunked_roundtrip [where cs = "[([50], [13], [7, 8])]" and ds = "[48]" and ext = "[]"
      and trailer = "Some [[65]]" and tr = 1 and rest = "[9]"
      and xs = "[[50, 13, 10, 7], [8, 13, 10, 48, 10, 65, 10, 13, 10, 9]]"]
  by (simp add: chunk_ok_def size_line_ok_def hex_digit_def decode_hex_def hex_value_def trailer_ok_def print_message_def
      print_chunk_def chunk_data_def)

end
