(* ===== verification/Ez_Http.thy ===== *)
theory Ez_Http
  imports Ez_Channel Ez_Phr Ez_Chunked "HOL-Library.Multiset"
begin

text \<open>
  \<open>ez::http\<close> (\<open>include/ez/http.hpp\<close>, \<open>source/http.cpp\<close>): requests and responses over a channel, on the parser
  \<open>Ez_Phr\<close> and the chunked decoder \<open>Ez_Chunked\<close>. The channel is a parameter. An operation gives the returned value
  or the thrown exception with the state it leaves, and \<open>None\<close> when it does not return. \<open>recv_request\<close> and
  \<open>recv_response\<close> are the same code but for the parser, the fields that are filled, and a line where a part of a body
  has been received; what is the same is a definition of both. The messages handed out are modelled as their bytes.
\<close>

section \<open>State\<close>

datatype state_e = waiting_header | waiting_body | sending_body | send_complete

type_synonym headers = "(bytes \<times> bytes) multiset"

record 'c http =
  m_chunked_decoder :: phr_chunked_decoder
  m_state :: state_e
  m_headers :: headers
  m_recv_buffer_size :: u32
  m_max_request_body_size :: u32
  m_status :: int
  m_body_size :: u32
  m_header_size :: u32
  m_method :: bytes
  m_path :: bytes
  m_message :: bytes
  m_new_body_buffer :: bool
  m_chunked :: bool
  m_channel :: 'c
  m_buffer :: local_buffer
  m_body :: local_buffer
  m_send_buffer :: local_buffer

abbreviation http_error :: "string \<Rightarrow> fault" where
  "http_error msg \<equiv> Throw (Http_error msg)"

definition quote :: string where
  "quote = [CHR 0x27]"

definition http_reset :: "'c http \<Rightarrow> 'c http" where
  "http_reset st = st\<lparr>m_state := waiting_header, m_body_size := 0,
     m_buffer := set_size (ucast (m_recv_buffer_size st)) (set_position 0 (m_buffer st)),
     m_body := local_empty, m_send_buffer := local_empty, m_headers := {#}, m_new_body_buffer := False,
     m_chunked := False, m_chunked_decoder := zero_decoder\<rparr>"

definition http_new :: "'c \<Rightarrow> 'c http" where
  "http_new io = http_reset \<lparr>m_chunked_decoder = zero_decoder, m_state = waiting_header, m_headers = {#},
     m_recv_buffer_size = 8192, m_max_request_body_size = 10 * 1024 * 1024, m_status = 0, m_body_size = 0,
     m_header_size = 0, m_method = [], m_path = [], m_message = [], m_new_body_buffer = False, m_chunked = False,
     m_channel = io, m_buffer = local_sized 8192, m_body = local_empty, m_send_buffer = local_empty\<rparr>"

definition set_channel :: "'c \<Rightarrow> 'c http \<Rightarrow> 'c http" where
  "set_channel io st = st\<lparr>m_channel := io\<rparr>"

section \<open>Sending\<close>

definition http_sent :: "'c http \<Rightarrow> int \<Rightarrow> 'c http" where
  "http_sent st sz =
     (if of_int sz = buffer_size (m_send_buffer st)
      then st\<lparr>m_state := send_complete, m_send_buffer := local_empty\<rparr>
      else if sz > 0 then st\<lparr>m_send_buffer := local_advance sz (m_send_buffer st)\<rparr>
      else st)"

definition http_push :: "'c channel \<Rightarrow> 'c http \<Rightarrow> (unit res \<times> 'c http) option" where
  "http_push io st =
     (case ch_send io (m_channel st) (local_contents (m_send_buffer st)) of
        None \<Rightarrow> None
      | Some (Inl e, c) \<Rightarrow> Some (Inl e, st\<lparr>m_channel := c\<rparr>)
      | Some (Inr sz, c) \<Rightarrow> Some (Inr (), http_sent (st\<lparr>m_channel := c\<rparr>) sz))"

definition http_send_more :: "'c channel \<Rightarrow> 'c http \<Rightarrow> (unit res \<times> 'c http) option" where
  "http_send_more io st = (if m_state st = sending_body then http_push io st else Some (Inr (), st))"

text \<open>\<open>std::to_string\<close> of an unsigned number. The headers are a list in the order in which the container is
  iterated over.\<close>

fun to_string :: "nat \<Rightarrow> bytes" where
  "to_string n = (if n < 10 then [48 + of_nat n] else to_string (n div 10) @ [48 + of_nat (n mod 10)])"

declare to_string.simps [simp del]

definition header_text :: "bytes \<times> bytes \<Rightarrow> bytes" where
  "header_text h = fst h @ str '': '' @ snd h @ CRLF"

definition content_length :: "bytes \<Rightarrow> bytes" where
  "content_length body = str ''Content-Length: '' @ to_string (length body) @ CRLF"

definition request_head :: "bytes \<Rightarrow> bytes \<Rightarrow> (bytes \<times> bytes) list \<Rightarrow> bytes \<Rightarrow> bytes" where
  "request_head meth path hdrs body =
     meth @ str '' '' @ path @ str '' HTTP/1.1'' @ CRLF @
     concat (map header_text (filter (\<lambda>h. snd h \<noteq> []) hdrs)) @
     (if body \<noteq> [] \<and> str ''Content-Length'' \<notin> fst ` set hdrs then content_length body else []) @ CRLF"

definition response_head :: "nat \<Rightarrow> bytes \<Rightarrow> (bytes \<times> bytes) list \<Rightarrow> bytes \<Rightarrow> bytes" where
  "response_head code message hdrs body =
     str ''HTTP/1.1 '' @ to_string code @ str '' '' @ message @ CRLF @
     concat (map header_text hdrs) @ (if body \<noteq> [] then content_length body else []) @ CRLF"

definition http_send :: "'c channel \<Rightarrow> bytes \<Rightarrow> bytes \<Rightarrow> 'c http \<Rightarrow> (unit res \<times> 'c http) option" where
  "http_send io head body st =
     (let b = local_sized (length head + length body);
          b = b\<lparr>array := memcpy_at (array b) 0 head\<rparr>;
          b = b\<lparr>array := memcpy_at (array b) (length head) body\<rparr>
      in http_push io (st\<lparr>m_send_buffer := b\<rparr>))"

definition send_request ::
  "'c channel \<Rightarrow> bytes \<Rightarrow> bytes \<Rightarrow> (bytes \<times> bytes) list \<Rightarrow> bytes \<Rightarrow> 'c http \<Rightarrow> (unit res \<times> 'c http) option" where
  "send_request io meth path hdrs body st =
     http_send io (request_head meth path hdrs body) body (st\<lparr>m_state := sending_body\<rparr>)"

definition send_response ::
  "'c channel \<Rightarrow> u32 \<Rightarrow> bytes \<Rightarrow> (bytes \<times> bytes) list \<Rightarrow> bytes \<Rightarrow> 'c http \<Rightarrow> (unit res \<times> 'c http) option" where
  "send_response io code message hdrs body st =
     http_send io (response_head (unat code) message hdrs body) body (st\<lparr>m_state := sending_body\<rparr>)"

section \<open>Header fields\<close>

text \<open>\<open>std::tolower\<close> in the C locale.\<close>

definition to_lower :: "u8 \<Rightarrow> u8" where
  "to_lower c = (if 65 \<le> c \<and> c \<le> 90 then c + 32 else c)"

definition isequal :: "bytes \<Rightarrow> bytes \<Rightarrow> bool" where
  "isequal a b \<longleftrightarrow> map to_lower a = map to_lower b"

text \<open>\<open>std::from_chars\<close> to an \<open>unsigned\<close>: the digits at the front; none of them, or a number that does not fit,
  is an error.\<close>

definition is_digit :: "u8 \<Rightarrow> bool" where
  "is_digit c \<longleftrightarrow> 48 \<le> c \<and> c \<le> 57"

definition digits_value :: "bytes \<Rightarrow> nat" where
  "digits_value ds = foldl (\<lambda>n c. n * 10 + unat (c - 48)) 0 ds"

definition from_chars :: "bytes \<Rightarrow> u32 option" where
  "from_chars s =
     (let ds = takeWhile is_digit s in
      if ds = [] \<or> 2 ^ 32 \<le> digits_value ds then None else Some (of_nat (digits_value ds)))"

definition http_header :: "bytes \<Rightarrow> bytes \<Rightarrow> 'c http \<Rightarrow> unit res \<times> 'c http" where
  "http_header field value st =
     (let st = st\<lparr>m_headers := add_mset (field, value) (m_headers st)\<rparr> in
      if isequal field (str ''Content-Length'') then
        (case from_chars value of
           Some n \<Rightarrow> (Inr (), st\<lparr>m_body_size := n\<rparr>)
         | None \<Rightarrow> (Inl (http_error (''http: can'' @ quote @ ''t parse '' @ quote @ ''Content-Length'' @ quote @ '' value'')), st))
      else if isequal field (str ''Transfer-Encoding'') then
        if value = str ''chunked''
        then (Inr (), st\<lparr>m_chunked := True, m_body_size := m_max_request_body_size st\<rparr>)
        else (Inr (), st)
      else (Inr (), st))"

fun http_headers :: "(bytes \<times> bytes) list \<Rightarrow> 'c http \<Rightarrow> unit res \<times> 'c http" where
  "http_headers [] st = (Inr (), st)"
| "http_headers ((field, value) # hs) st =
     (case http_header field value st of
        (Inl e, st) \<Rightarrow> (Inl e, st)
      | (Inr _, st) \<Rightarrow> http_headers hs st)"

text \<open>A name that is \<open>NULL\<close> gives the empty string.\<close>

definition field_pair :: "bytes \<Rightarrow> phr_header \<Rightarrow> bytes \<times> bytes" where
  "field_pair buf h = ((case h_name h of None \<Rightarrow> [] | Some v \<Rightarrow> content buf v), content buf (h_value h))"

section \<open>Receiving\<close>

text \<open>How an iteration of a loop ends: the message with its body, no message because the channel would block, an
  exception, another iteration, or (of the first loop) \<open>break\<close> to the second.\<close>

datatype pass = Message bytes | Blocked | Raise fault | Again u64 | Body

text \<open>\<open>m_channel.get().recv(buffer)\<close>: the channel may write \<open>size()\<close> bytes at \<open>ptr()\<close>.\<close>

definition recv_into :: "'c channel \<Rightarrow> 'c \<Rightarrow> local_buffer \<Rightarrow> ((int \<times> local_buffer) res \<times> 'c) option" where
  "recv_into io c b =
     (if length (array b) < unat (position b) + unat (buffer_size b)
      then Some (Inl (Undefined ''memory after the array given to recv''), c)
      else case ch_recv io c (buffer_size b) 0 of
        None \<Rightarrow> None
      | Some (Inl e, c) \<Rightarrow> Some (Inl e, c)
      | Some (Inr (n, d), c) \<Rightarrow> Some (Inr (n, local_write d b), c))"

text \<open>What is done when all headers are parsed: is there a body, and where will it be?\<close>

definition http_start_body :: "u64 \<Rightarrow> 'c http \<Rightarrow> pass \<times> 'c http" where
  "http_start_body data_size st =
     (if m_body_size st > 0 then
        if ucast (m_body_size st) \<le> data_size - ucast (m_header_size st) then
          (let st = st\<lparr>m_buffer := set_size (ucast (m_header_size st + m_body_size st)) (m_buffer st)\<rparr>
           in (Message (local_contents (m_buffer st)), st))
        else if m_body_size st \<le> m_max_request_body_size st then
          (let st = st\<lparr>m_state := waiting_body\<rparr> in
           if buffer_size (m_buffer st) < ucast (m_body_size st) then
             (let st = st\<lparr>m_new_body_buffer := True, m_body := local_sized (unat (m_body_size st))\<rparr>;
                  tail_size = data_size - position (m_buffer st) in
              if tail_size > 0 then
                if length (array (m_buffer st)) < unat (position (m_buffer st)) + unat tail_size \<or> length (array (m_body st)) < unat tail_size
                then (Raise (Undefined ''memcpy outside the array''), st)
                else (let tail = take (unat tail_size) (drop (unat (position (m_buffer st))) (array (m_buffer st)));
                     b = local_write tail (m_body st)
                 in (Body, st\<lparr>m_body := (if m_chunked st then set_size tail_size (set_position 0 b)
                                         else set_position tail_size b)\<rparr>))
              else (Body, st))
           else (Body, st\<lparr>m_buffer := set_position data_size (m_buffer st)\<rparr>))
        else (Raise (http_error ''http: body is bigger than allowed''), st)
      else (Message [], st))"

text \<open>What differs between the two: the parser, what is kept of its result, and its headers. What a parse without a
  result leaves in \<open>m_status\<close> and the pointers is written anew before it is read.\<close>

record ('p, 'c) side =
  parse_head :: "bytes \<Rightarrow> nat \<Rightarrow> nat \<Rightarrow> (int \<times> 'p option) option"
  keep_head :: "bytes \<Rightarrow> 'p \<Rightarrow> 'c http \<Rightarrow> 'c http"
  head_headers :: "'p \<Rightarrow> phr_header list"

definition request_side :: "(phr_request, 'c) side" where
  "request_side = \<lparr>parse_head = phr_parse_request,
     keep_head = (\<lambda>buf rq st. st\<lparr>m_method := content buf (rq_method rq), m_path := content buf (rq_path rq)\<rparr>),
     head_headers = rq_headers\<rparr>"

definition response_side :: "(phr_response, 'c) side" where
  "response_side = \<lparr>parse_head = phr_parse_response,
     keep_head = (\<lambda>buf rs st. st\<lparr>m_status := rs_status rs, m_message := content buf (rs_msg rs)\<rparr>),
     head_headers = rs_headers\<rparr>"

definition http_head :: "('p, 'c) side \<Rightarrow> bytes \<Rightarrow> int \<Rightarrow> 'p \<Rightarrow> u64 \<Rightarrow> 'c http \<Rightarrow> pass \<times> 'c http" where
  "http_head S buf n p data_size st =
     (let st = keep_head S buf p (st\<lparr>m_header_size := of_int n\<rparr>);
          st = st\<lparr>m_buffer := set_position (ucast (m_header_size st)) (m_buffer st)\<rparr>
      in case http_headers (map (field_pair buf) (head_headers S p)) st of
           (Inl e, st) \<Rightarrow> (Raise e, st)
         | (Inr _, st) \<Rightarrow> http_start_body data_size st)"

text \<open>One iteration of the loop that waits for the header; the parser sees \<open>data_size + block_size\<close> bytes from the
  start of the buffer. \<open>m_pheaders\<close> has 30 entries.\<close>

definition header_pass :: "('p, 'c) side \<Rightarrow> 'c channel \<Rightarrow> u64 \<Rightarrow> 'c http \<Rightarrow> (pass \<times> 'c http) option" where
  "header_pass S io data_size st =
     (case recv_into io (m_channel st) (m_buffer st) of
        None \<Rightarrow> None
      | Some (Inl e, c) \<Rightarrow> Some (Raise e, st\<lparr>m_channel := c\<rparr>)
      | Some (Inr (block_size, b), c) \<Rightarrow>
          let st = st\<lparr>m_channel := c, m_buffer := b\<rparr> in
          if block_size > 0 then
            let st = st\<lparr>m_buffer := set_position 0 (m_buffer st)\<rparr>;
                buf = take (unat (data_size + of_int block_size)) (array (m_buffer st))
            in if length (array (m_buffer st)) < unat (data_size + of_int block_size)
               then Some (Raise (Undefined ''read outside the array''), st)
               else case parse_head S buf 30 (unat data_size) of
                 None \<Rightarrow> Some (Raise (Undefined ''read outside the array''), st)
               | Some (n, p) \<Rightarrow>
                   let data_size = data_size + of_int block_size in
                   (case if n > 0 then p else None of
                      Some p \<Rightarrow> Some (http_head S buf n p data_size st)
                    | None \<Rightarrow>
                        if n = - 1 then Some (Raise (http_error ''http: error parsing http headers''), st)
                        else if data_size = buffer_size (m_buffer st)
                        then Some (Raise (http_error ''http: request is too big''), st)
                        else Some (Again data_size, st\<lparr>m_buffer := set_position data_size (m_buffer st)\<rparr>))
          else Some (Blocked, st))"

text \<open>The three ways to receive a body. \<open>Again\<close> has no number to keep here.\<close>

definition chunked_pass :: "'c channel \<Rightarrow> 'c http \<Rightarrow> (pass \<times> 'c http) option" where
  "chunked_pass io st =
     (case phr_decode_chunked (m_chunked_decoder st) (local_contents (m_body st)) of
        None \<Rightarrow> Some (Raise (Undefined ''read outside the array''), st)
      | Some (n, d, xs, sz) \<Rightarrow>
          let decoded = of_nat sz;
              st = st\<lparr>m_chunked_decoder := d, m_body := local_write xs (m_body st)\<rparr> in
          if n = - 2 then
            let b = set_size (ucast (m_max_request_body_size st)) (m_body st);
                b = set_position (position b + decoded) b
            in (case recv_into io (m_channel st) b of
                  None \<Rightarrow> None
                | Some (Inl e, c) \<Rightarrow> Some (Raise e, st\<lparr>m_channel := c, m_body := b\<rparr>)
                | Some (Inr (sz, b), c) \<Rightarrow>
                    if sz > 0 then Some (Again 0, st\<lparr>m_channel := c, m_body := set_size (position b + of_int sz) b\<rparr>)
                    else Some (Blocked, st\<lparr>m_channel := c, m_body := set_size (position b) b\<rparr>))
          else if n > 0 then
            let st = st\<lparr>m_body := set_position 0 (set_size (position (m_body st) + decoded) (m_body st))\<rparr>
            in Some (Message (local_contents (m_body st)), st)
          else if n = - 1 then Some (Raise (http_error ''http: unable to parse chunked content''), st)
          else Some (Again 0, st))"

text \<open>\<open>part\<close> is what is done with the count of a part of the body that was received into \<open>m_body\<close>, or \<open>m_buffer\<close>.\<close>

definition new_body_pass :: "(int \<Rightarrow> 'c http \<Rightarrow> 'c http) \<Rightarrow> 'c channel \<Rightarrow> 'c http \<Rightarrow> (pass \<times> 'c http) option" where
  "new_body_pass part io st =
     (let need = ucast (m_body_size st) - position (m_body st) in
      case recv_into io (m_channel st) (m_body st) of
        None \<Rightarrow> None
      | Some (Inl e, c) \<Rightarrow> Some (Raise e, st\<lparr>m_channel := c\<rparr>)
      | Some (Inr (sz, b), c) \<Rightarrow>
          let st = st\<lparr>m_channel := c, m_body := b\<rparr> in
          if of_int sz = need then
            let st = st\<lparr>m_body := set_position 0 (m_body st)\<rparr> in Some (Message (local_contents (m_body st)), st)
          else if sz > 0 then Some (Again 0, part sz st)
          else Some (Blocked, st))"

definition same_buffer_pass :: "(int \<Rightarrow> 'c http \<Rightarrow> 'c http) \<Rightarrow> 'c channel \<Rightarrow> 'c http \<Rightarrow> (pass \<times> 'c http) option" where
  "same_buffer_pass part io st =
     (let need = ucast (m_body_size st + m_header_size st) - position (m_buffer st) in
      case recv_into io (m_channel st) (m_buffer st) of
        None \<Rightarrow> None
      | Some (Inl e, c) \<Rightarrow> Some (Raise e, st\<lparr>m_channel := c\<rparr>)
      | Some (Inr (sz, b), c) \<Rightarrow>
          let st = st\<lparr>m_channel := c, m_buffer := b\<rparr> in
          if of_int sz = need then
            let st = st\<lparr>m_buffer := set_size (ucast (m_header_size st + m_body_size st))
                     (set_position (ucast (m_header_size st)) (m_buffer st))\<rparr>
            in Some (Message (local_contents (m_buffer st)), st)
          else if sz > 0 then Some (Again 0, part sz st)
          else Some (Blocked, st))"

definition advance_body :: "int \<Rightarrow> 'c http \<Rightarrow> 'c http" where
  "advance_body sz st = st\<lparr>m_body := local_advance sz (m_body st)\<rparr>"

definition advance_buffer :: "int \<Rightarrow> 'c http \<Rightarrow> 'c http" where
  "advance_buffer sz st = st\<lparr>m_buffer := local_advance sz (m_buffer st)\<rparr>"

definition request_body_pass :: "'c channel \<Rightarrow> 'c http \<Rightarrow> (pass \<times> 'c http) option" where
  "request_body_pass io st =
     (if m_chunked st then chunked_pass io st
      else if m_new_body_buffer st then new_body_pass advance_body io st
      else same_buffer_pass advance_body io st)"

definition response_body_pass :: "'c channel \<Rightarrow> 'c http \<Rightarrow> (pass \<times> 'c http) option" where
  "response_body_pass io st =
     (if m_chunked st then chunked_pass io st
      else if m_new_body_buffer st then new_body_pass advance_buffer io st
      else same_buffer_pass advance_buffer io st)"

text \<open>The loops; \<open>None\<close> as the message is the channel that would block.\<close>

partial_function (option) body_loop ::
  "('c http \<Rightarrow> (pass \<times> 'c http) option) \<Rightarrow> 'c http \<Rightarrow> (bytes option res \<times> 'c http) option" where
  "body_loop body_pass st =
     (case body_pass st of
        None \<Rightarrow> None
      | Some (Message b, st) \<Rightarrow> Some (Inr (Some b), st)
      | Some (Blocked, st) \<Rightarrow> Some (Inr None, st)
      | Some (Raise e, st) \<Rightarrow> Some (Inl e, st)
      | Some (Again _, st) \<Rightarrow> body_loop body_pass st
      | Some (Body, st) \<Rightarrow> body_loop body_pass st)"

partial_function (option) header_loop ::
  "('p, 'c) side \<Rightarrow> 'c channel \<Rightarrow> ('c http \<Rightarrow> (pass \<times> 'c http) option) \<Rightarrow> u64 \<Rightarrow> 'c http \<Rightarrow> (bytes option res \<times> 'c http) option" where
  "header_loop S io body_pass data_size st =
     (case header_pass S io data_size st of
        None \<Rightarrow> None
      | Some (Message b, st) \<Rightarrow> Some (Inr (Some b), st)
      | Some (Blocked, st) \<Rightarrow> Some (Inr None, st)
      | Some (Raise e, st) \<Rightarrow> Some (Inl e, st)
      | Some (Again n, st) \<Rightarrow> header_loop S io body_pass n st
      | Some (Body, st) \<Rightarrow> body_loop body_pass st)"

definition http_recv ::
  "('p, 'c) side \<Rightarrow> 'c channel \<Rightarrow> ('c http \<Rightarrow> (pass \<times> 'c http) option) \<Rightarrow> 'c http \<Rightarrow> (bytes option res \<times> 'c http) option" where
  "http_recv S io body_pass st =
     (case m_state st of
        sending_body \<Rightarrow> Some (Inl (http_error (''http: can'' @ quote @ ''t recv while sending data'')), st)
      | send_complete \<Rightarrow> header_loop S io body_pass 0 (http_reset st)
      | waiting_header \<Rightarrow> header_loop S io body_pass 0 st
      | waiting_body \<Rightarrow> body_loop body_pass st)"

type_synonym request_t = "bytes \<times> bytes \<times> headers \<times> bytes"
type_synonym response_t = "int \<times> bytes \<times> headers \<times> bytes"

definition recv_request :: "'c channel \<Rightarrow> 'c http \<Rightarrow> (request_t res \<times> 'c http) option" where
  "recv_request io st =
     (case http_recv request_side io (request_body_pass io) st of
        None \<Rightarrow> None
      | Some (Inl e, st) \<Rightarrow> Some (Inl e, st)
      | Some (Inr (Some b), st) \<Rightarrow> Some (Inr (m_method st, m_path st, m_headers st, b), st)
      | Some (Inr None, st) \<Rightarrow> Some (Inr ([], [], {#}, []), st))"

definition recv_response :: "'c channel \<Rightarrow> 'c http \<Rightarrow> (response_t res \<times> 'c http) option" where
  "recv_response io st =
     (case http_recv response_side io (response_body_pass io) st of
        None \<Rightarrow> None
      | Some (Inl e, st) \<Rightarrow> Some (Inl e, st)
      | Some (Inr (Some b), st) \<Rightarrow> Some (Inr (m_status st, m_message st, m_headers st, b), st)
      | Some (Inr None, st) \<Rightarrow> Some (Inr (0, [], {#}, []), st))"

section \<open>Numbers\<close>

lemma digits_snoc: "digits_value (ds @ [c]) = digits_value ds * 10 + unat (c - 48)"
  by (simp add: digits_value_def)

lemma digit_cases: "n < 10 \<Longrightarrow> n = 0 \<or> n = 1 \<or> n = 2 \<or> n = 3 \<or> n = 4 \<or> n = 5 \<or> n = 6 \<or> n = 7 \<or> n = 8 \<or> n = (9::nat)"
  by presburger

lemma decimal_digit: "n < 10 \<Longrightarrow> is_digit (48 + of_nat n) \<and> unat ((48 + of_nat n :: u8) - 48) = n"
  by (drule digit_cases) (auto simp: is_digit_def)

lemma to_string_digits: "to_string n \<noteq> [] \<and> (\<forall>c \<in> set (to_string n). is_digit c) \<and> digits_value (to_string n) = n"
proof (induction n rule: to_string.induct)
  case (1 n)
  note here = to_string.simps [of n]
  show ?case
  proof (cases "n < 10")
    case True
    then show ?thesis using here decimal_digit [of n] by (simp add: digits_value_def)
  next
    case False
    then show ?thesis using 1 here decimal_digit [of "n mod 10"] by (auto simp: digits_snoc)
  qed
qed

lemma from_chars_to_string: "n < 2 ^ 32 \<Longrightarrow> from_chars (to_string n) = Some (of_nat n)"
proof -
  assume "n < 2 ^ 32"
  moreover have "takeWhile is_digit (to_string n) = to_string n" using to_string_digits [of n] by (simp add: takeWhile_eq_all_conv)
  then have "from_chars (to_string n) = (if to_string n = [] \<or> 2 ^ 32 \<le> digits_value (to_string n) then None
      else Some (of_nat (digits_value (to_string n))))" by (simp only: from_chars_def Let_def)
  ultimately show ?thesis using to_string_digits [of n] by simp
qed

lemma digit_acts: "is_digit c \<Longrightarrow> eol_act c = Go \<and> blank_act c = Leave"
  unfolding is_digit_def eol_act_def IS_PRINTABLE_ASCII_def FOUND_CTL_def blank_act_def
  by (auto simp: word_le_nat_alt word_less_nat_alt)

lemma to_string_value_ok: "value_ok (to_string n)"
  using to_string_digits [of n] digit_acts by (auto simp: value_ok_def line_chars_def)

section \<open>The heads are printed requests and responses\<close>

definition with_length :: "(bytes \<times> bytes) list \<Rightarrow> bytes \<Rightarrow> (bytes \<times> bytes) list" where
  "with_length hs body = hs @ (if body \<noteq> [] then [(str ''Content-Length'', to_string (length body))] else [])"

lemma header_text_print: "concat (map header_text hs) @ CRLF = print_headers hs"
proof -
  have "header_text = (\<lambda>(n, v). n @ [58, 32] @ v @ CRLF)" by (rule ext) (auto simp: header_text_def)
  then show ?thesis by (simp add: print_headers_def)
qed

lemma content_length_text: "content_length body = header_text (str ''Content-Length'', to_string (length body))"
  by (simp add: content_length_def header_text_def)

lemma request_head_print:
  assumes "str ''Content-Length'' \<notin> fst ` set hdrs"
  shows "request_head meth path hdrs body = print_request meth path 1 (with_length (filter (\<lambda>h. snd h \<noteq> []) hdrs) body)"
  using assms
  by (simp add: request_head_def print_request_def header_text_print [symmetric] with_length_def content_length_text
      http_version_def)

lemma three_digits:
  assumes "100 \<le> n" and "n < 1000"
  shows "to_string n = [48 + of_nat (n div 100), 48 + of_nat (n div 10 mod 10), 48 + of_nat (n mod 10)]"
proof -
  have a: "\<not> n < 10" using assms(1) by linarith
  have b: "\<not> n div 10 < 10" using div_le_mono [OF assms(1), of 10] by simp
  have d: "n div 10 div 10 = n div 100" by (simp add: div_mult2_eq [symmetric])
  have c: "n div 10 div 10 < 10" unfolding d using assms(2) by (intro less_mult_imp_div_less) simp
  have "to_string (n div 10 div 10) = [48 + of_nat (n div 10 div 10)]" using c by (simp only: to_string.simps [of "n div 10 div 10"] if_True)
  moreover have "to_string (n div 10) = to_string (n div 10 div 10) @ [48 + of_nat (n div 10 mod 10)]"
    using b by (simp only: to_string.simps [of "n div 10"] if_False)
  moreover have "to_string n = to_string (n div 10) @ [48 + of_nat (n mod 10)]"
    using a by (simp only: to_string.simps [of n] if_False)
  ultimately show ?thesis by (simp only: d append.simps)
qed

lemma response_head_print:
  assumes "100 \<le> code" and "code < 1000"
  shows "response_head code message hdrs body =
    print_response 1 (code div 100) (code div 10 mod 10) (code mod 10) message (with_length hdrs body)"
  using three_digits [OF assms]
  by (simp add: response_head_def print_response_def header_text_print [symmetric] with_length_def content_length_text
      http_version_def add.commute)

section \<open>Sending on every channel\<close>

text \<open>What the channel has taken and what is left make up the text.\<close>

definition http_sending :: "('c \<Rightarrow> bool) \<Rightarrow> ('c \<Rightarrow> bytes) \<Rightarrow> bytes \<Rightarrow> 'c http \<Rightarrow> bool" where
  "http_sending valid sent F st \<longleftrightarrow> valid (m_channel st) \<and>
     ((m_state st = sending_body \<and> local_ok (m_send_buffer st) \<and> local_contents (m_send_buffer st) \<noteq> [] \<and>
        sent (m_channel st) @ local_contents (m_send_buffer st) = F \<and> length (array (m_send_buffer st)) < 2 ^ 63) \<or>
     (m_state st = send_complete \<and> sent (m_channel st) = F))"

lemma http_sent_sending:
  assumes "local_ok (m_send_buffer st)" and "local_contents (m_send_buffer st) \<noteq> []" and "m_state st = sending_body"
    and "length (array (m_send_buffer st)) < 2 ^ 63" and "sz \<le> int (length (local_contents (m_send_buffer st)))"
    and "sent (m_channel st) = S @ take (nat sz) (local_contents (m_send_buffer st))"
    and "- (2 ^ 63) \<le> sz" and "valid (m_channel st)"
  shows "http_sending valid sent (S @ local_contents (m_send_buffer st)) (http_sent st sz)"
proof -
  let ?b = "m_send_buffer st"
  have eq: "of_int sz = buffer_size ?b \<longleftrightarrow> sz = int (length (local_contents ?b))"
    using assms by (intro count_is_size) simp_all
  consider "sz = int (length (local_contents ?b))" | "sz \<noteq> int (length (local_contents ?b))" "0 < sz"
    | "sz \<noteq> int (length (local_contents ?b))" "\<not> 0 < sz" by blast
  then show ?thesis
  proof cases
    case 1
    then show ?thesis using eq assms(6,8) by (simp add: http_sent_def http_sending_def)
  next
    case 2
    then have "nat sz < length (local_contents ?b)" using assms(5) by linarith
    then show ?thesis using 2 eq local_advance_contents [OF assms(1), of sz] assms
      by (simp add: http_sent_def http_sending_def)
  next
    case 3
    then show ?thesis using eq assms by (simp add: http_sent_def http_sending_def)
  qed
qed

fun http_send_runs :: "'c channel \<Rightarrow> nat \<Rightarrow> 'c http \<Rightarrow> 'c http option" where
  "http_send_runs io 0 st = Some st"
| "http_send_runs io (Suc n) st = (case http_send_more io st of None \<Rightarrow> None | Some (r, st) \<Rightarrow> http_send_runs io n st)"

lemma http_send_buffer:
  "http_send io head body st = http_push io (st\<lparr>m_send_buffer := local_of_bytes (head @ body)\<rparr>)"
proof -
  have "memcpy_at (memcpy_at (replicate (length head + length body) 0) 0 head) (length head) body = head @ body"
    by (simp add: memcpy_at_def)
  then show ?thesis by (simp add: http_send_def local_sized_def local_of_bytes_def)
qed

context channel_laws
begin

lemma http_push_sending:
  assumes "http_push io st = Some (r, st')" and "local_ok (m_send_buffer st)"
    and "local_contents (m_send_buffer st) \<noteq> []" and "m_state st = sending_body"
    and "length (array (m_send_buffer st)) < 2 ^ 63" and "valid (m_channel st)"
  shows "http_sending valid sent (sent (m_channel st) @ local_contents (m_send_buffer st)) st'"
proof -
  consider e c where "ch_send io (m_channel st) (local_contents (m_send_buffer st)) = Some (Inl e, c)" "st' = st\<lparr>m_channel := c\<rparr>"
    | sz c where "ch_send io (m_channel st) (local_contents (m_send_buffer st)) = Some (Inr sz, c)"
      "st' = http_sent (st\<lparr>m_channel := c\<rparr>) sz"
    using assms(1) by (auto simp: http_push_def split: option.splits sum.splits prod.splits)
  then show ?thesis
  proof cases
    case 1
    then show ?thesis using send_fault [OF assms(6) 1(1)] assms by (simp add: http_sending_def)
  next
    case 2
    then show ?thesis
      using send_value [OF assms(6) 2(1)] assms
        http_sent_sending [of "st\<lparr>m_channel := c\<rparr>" sz sent "sent (m_channel st)" valid] by simp
  qed
qed

lemma http_more_sending:
  "http_sending valid sent F st \<Longrightarrow> http_send_more io st = Some (r, st') \<Longrightarrow> http_sending valid sent F st'"
  using http_push_sending [of st r st'] by (auto simp: http_sending_def [of _ _ _ st] http_send_more_def split: if_splits)
    (simp add: http_sending_def)

lemma http_runs_sending:
  "http_sending valid sent F st \<Longrightarrow> http_send_runs io n st = Some st' \<Longrightarrow> http_sending valid sent F st'"
  by (induction n arbitrary: st) (auto dest: http_more_sending split: option.splits)

lemma http_send_all:
  assumes "http_send io head body st = Some (r, st1)" and "m_state st = sending_body" and "head \<noteq> []"
    and "length (head @ body) < 2 ^ 63" and "valid (m_channel st)" and "http_send_runs io n st1 = Some st2"
  shows "http_sending valid sent (sent (m_channel st) @ head @ body) st2"
proof -
  let ?st = "st\<lparr>m_send_buffer := local_of_bytes (head @ body)\<rparr>"
  have c: "local_contents (local_of_bytes (head @ body)) = head @ body"
    using assms(4) by (intro local_contents_of_bytes) simp
  have "http_sending valid sent (sent (m_channel ?st) @ local_contents (m_send_buffer ?st)) st1"
    by (rule http_push_sending)
      (use assms c local_of_bytes_ok [of "head @ body"] in \<open>simp_all add: http_send_buffer local_of_bytes_def\<close>)
  then show ?thesis using http_runs_sending [OF _ assms(6)] c by simp
qed

end

end
