(* ===== verification/Ez_Http_Receive.thy ===== *)
theory Ez_Http_Receive
  imports Ez_Http
begin

text \<open>
  What \<open>recv_request\<close> and \<open>recv_response\<close> deliver: on a channel that delivers all that is there, the message that was
  sent, whether its body fits into the buffer with the header or not, and the data of a chunked one; and the ways
  in which a message gets lost when it comes in other pieces.
\<close>

section \<open>Words and buffers\<close>

lemma ucast_small: "n < 2 ^ 32 \<Longrightarrow> (ucast (of_nat n :: u32) :: u64) = of_nat n"
proof -
  assume n: "n < 2 ^ 32"
  then have "unat (of_nat n :: u32) = n" by (simp add: unat_of_nat_eq)
  moreover have "(ucast (of_nat n :: u32) :: u64) = of_nat (unat (of_nat n :: u32))" by simp
  ultimately show ?thesis by simp
qed

lemma of_nat_le_small: "m < 2 ^ 64 \<Longrightarrow> n < 2 ^ 64 \<Longrightarrow> (of_nat m :: u64) \<le> of_nat n \<longleftrightarrow> m \<le> n"
  by (simp add: word_le_nat_alt unat_of_nat_eq)

lemma of_nat_less_small: "m < 2 ^ 64 \<Longrightarrow> n < 2 ^ 64 \<Longrightarrow> (of_nat m :: u64) < of_nat n \<longleftrightarrow> m < n"
  by (simp add: word_less_nat_alt unat_of_nat_eq)

lemma of_nat_diff_small: "m \<le> n \<Longrightarrow> (of_nat n :: u64) - of_nat m = of_nat (n - m)"
  by (simp add: of_nat_diff)

text \<open>A buffer over \<open>xs\<close> with its position and its size.\<close>

definition spans :: "local_buffer \<Rightarrow> bytes \<Rightarrow> nat \<Rightarrow> nat \<Rightarrow> bool" where
  "spans b xs p q \<longleftrightarrow> array b = xs \<and> m_position b = of_nat p \<and> m_size b = of_nat q \<and> m_orig_size b = of_nat (length xs) \<and>
     p \<le> q \<and> q \<le> length xs \<and> length xs < 2 ^ 63"

lemma spans_bound: "spans b xs p q \<Longrightarrow> n \<le> length xs \<Longrightarrow> n < 2 ^ 64"
  by (simp add: spans_def)

lemma spans_size:
  assumes "spans b xs p q"
  shows "buffer_size b = of_nat (q - p)" and "unat (of_nat (q - p) :: u64) = q - p" and "unat (of_nat p :: u64) = p"
proof -
  have n: "p \<le> q" "q \<le> length xs" "m_position b = of_nat p" "m_size b = of_nat q" using assms by (simp_all add: spans_def)
  show "buffer_size b = of_nat (q - p)" unfolding buffer_size_def n by (rule of_nat_diff_small [OF n(1)])
  have "q - p \<le> length xs" "p \<le> length xs" using n by linarith+
  then show "unat (of_nat (q - p) :: u64) = q - p" "unat (of_nat p :: u64) = p"
    using spans_bound [OF assms] by (intro unat_of_nat_eq; simp)+
qed

lemma spans_contents: "spans b xs p q \<Longrightarrow> local_contents b = take (q - p) (drop p xs)"
  unfolding local_contents_def by (simp only: spans_size) (simp add: spans_def spans_size [of b xs p q])

lemma spans_position: "spans b xs p q \<Longrightarrow> position b = of_nat p"
  by (simp add: spans_def position_def)

lemma spans_room: "spans b xs p q \<Longrightarrow> \<not> length (array b) < unat (position b) + unat (buffer_size b)"
  unfolding spans_position spans_size(1) spans_size(2,3) by (simp add: spans_def)

lemma spans_set_position: "spans b xs p q \<Longrightarrow> n \<le> q \<Longrightarrow> spans (set_position (of_nat n) b) xs n q"
  by (auto simp: spans_def set_position_def of_nat_less_small)

lemma spans_set_size: "spans b xs p q \<Longrightarrow> p \<le> n \<Longrightarrow> n \<le> length xs \<Longrightarrow> spans (set_size (of_nat n) b) xs p n"
  by (auto simp: spans_def set_size_def of_nat_le_small)

lemma spans_write:
  "spans b xs p q \<Longrightarrow> p + length d \<le> length xs \<Longrightarrow> spans (local_write d b) (memcpy_at xs p d) p q"
  by (auto simp: spans_def local_write_def unat_of_nat_eq)

lemma spans_of_bytes: "length xs < 2 ^ 63 \<Longrightarrow> spans (local_of_bytes xs) xs 0 (length xs)"
  by (simp add: spans_def local_of_bytes_def)

lemma spans_sized: "n < 2 ^ 63 \<Longrightarrow> spans (local_sized n) (replicate n 0) 0 n"
  using spans_of_bytes [of "replicate n 0"] by (simp add: local_sized_def)

lemma spans_zero: "spans b xs p q \<Longrightarrow> spans (set_position 0 b) xs 0 q"
  using spans_set_position [of b xs p q 0] by simp

context prompt_channel
begin

lemma recv_all:
  assumes "ready c" and "spans b xs p q" and "p < q" and "incoming c \<noteq> []"
  defines "d \<equiv> take (q - p) (incoming c)"
  shows "\<exists>c'. recv_into io c b = Some (Inr (int (length d), local_write d b), c') \<and>
    ready c' \<and> incoming c' = drop (q - p) (incoming c)"
proof -
  note u = spans_size(2) [OF assms(2)]
  have "of_nat (q - p) \<noteq> (0::u64)" using u assms(3) by auto
  from prompt [OF assms(1,4) this] show ?thesis
    unfolding recv_into_def if_not_P [OF spans_room [OF assms(2)]] unfolding u d_def spans_size(1) [OF assms(2)] by auto
qed

end

section \<open>Header fields\<close>

definition plain_field :: "bytes \<times> bytes \<Rightarrow> bool" where
  "plain_field h \<longleftrightarrow> \<not> isequal (fst h) (str ''Content-Length'') \<and> \<not> isequal (fst h) (str ''Transfer-Encoding'')"

lemma http_headers_append:
  "http_headers (hs @ hs') st = (case http_headers hs st of (Inl e, st) \<Rightarrow> (Inl e, st) | (Inr _, st) \<Rightarrow> http_headers hs' st)"
  by (induction hs st rule: http_headers.induct) (auto split: prod.splits sum.splits)

lemma http_headers_plain:
  "\<forall>h \<in> set hs. plain_field h \<Longrightarrow> http_headers hs st = (Inr (), st\<lparr>m_headers := m_headers st + mset hs\<rparr>)"
proof (induction hs arbitrary: st)
  case (Cons h hs)
  obtain f v where h: "h = (f, v)" by (cases h)
  have "http_header f v st = (Inr (), st\<lparr>m_headers := add_mset (f, v) (m_headers st)\<rparr>)"
    using Cons.prems h by (auto simp: http_header_def plain_field_def Let_def)
  then show ?case using Cons h by simp
qed simp

lemma http_headers_length:
  fixes st :: "'c http"
  assumes "\<forall>h \<in> set hs. plain_field h" and "length body < 2 ^ 32" and "m_body_size st = 0"
  shows "http_headers (with_length hs body) st =
    (Inr (), st\<lparr>m_headers := m_headers st + mset (with_length hs body), m_body_size := of_nat (length body)\<rparr>)"
proof (cases "body = []")
  case True
  have "st\<lparr>m_headers := x, m_body_size := 0\<rparr> = st\<lparr>m_headers := x\<rparr>" for x using assms(3) by (cases st) simp
  then show ?thesis using True http_headers_plain [OF assms(1)] by (simp add: with_length_def)
next
  case False
  have "http_header (str ''Content-Length'') (to_string (length body)) st' =
    (Inr (), st'\<lparr>m_headers := add_mset (str ''Content-Length'', to_string (length body)) (m_headers st'),
      m_body_size := of_nat (length body)\<rparr>)" for st' :: "'c http"
    using from_chars_to_string [OF assms(2)] unfolding http_header_def Let_def isequal_def by simp
  then show ?thesis
    using False http_headers_plain [OF assms(1), of st] by (simp add: with_length_def http_headers_append)
qed

section \<open>The header and the body\<close>

definition idle :: "'c http \<Rightarrow> bool" where
  "idle st \<longleftrightarrow> m_state st = waiting_header \<and> (\<exists>xs. spans (m_buffer st) xs 0 8192 \<and> length xs = 8192) \<and>
     m_headers st = {#} \<and> m_body_size st = 0 \<and> m_max_request_body_size st = 10485760 \<and> \<not> m_chunked st \<and>
     \<not> m_new_body_buffer st \<and> m_chunked_decoder st = zero_decoder"

lemma http_new_idle: "idle (http_new c)"
proof -
  let ?b = "local_sized 8192"
  have "spans ?b (replicate 8192 0) 0 8192" by (rule spans_sized) simp
  then have "spans (set_size (of_nat 8192) (set_position 0 ?b)) (replicate 8192 0) 0 8192"
    by (intro spans_set_size [OF spans_zero]) simp_all
  then have "spans (m_buffer (http_new c)) (replicate 8192 0) 0 8192" by (simp add: http_new_def http_reset_def)
  then show ?thesis unfolding idle_def by (auto simp: http_new_def http_reset_def)
qed

text \<open>What the parser gives for the text of a header: its length and the header fields, whatever follows; \<open>keep\<close> is
  what is stored of the rest, in fields that nothing else uses.\<close>

definition parses :: "('p, 'c) side \<Rightarrow> bytes \<Rightarrow> (bytes \<times> bytes) list \<Rightarrow> ('c http \<Rightarrow> 'c http) \<Rightarrow> bool" where
  "parses S head hs keep \<longleftrightarrow> head \<noteq> [] \<and> (\<forall>rest. \<exists>p. parse_head S (head @ rest) 30 0 = Some (int (length head), Some p) \<and>
     map (field_pair (head @ rest)) (head_headers S p) = hs \<and> keep_head S (head @ rest) p = keep)"

definition head_of :: "'c http \<Rightarrow> bytes \<times> bytes \<times> int \<times> bytes" where
  "head_of st = (m_method st, m_path st, m_status st, m_message st)"

definition quiet :: "('c http \<Rightarrow> 'c http) \<Rightarrow> bool" where
  "quiet keep \<longleftrightarrow> (\<forall>st. \<exists>a b c d. keep st = st\<lparr>m_method := a, m_path := b, m_status := c, m_message := d\<rparr>)"

definition waiting :: "nat \<Rightarrow> bytes \<Rightarrow> 'c http \<Rightarrow> bool" where
  "waiting n text st \<longleftrightarrow> m_state st = waiting_header \<and> (\<exists>xs. spans (m_buffer st) (text @ xs) n 8192 \<and> length (text @ xs) = 8192) \<and>
     m_headers st = {#} \<and> m_body_size st = 0 \<and> m_max_request_body_size st = 10485760 \<and> \<not> m_chunked st \<and>
     \<not> m_new_body_buffer st \<and> m_chunked_decoder st = zero_decoder \<and> m_header_size st = of_nat n"

context prompt_channel
begin

lemma first_pass:
  assumes st: "idle st" and c: "ready (m_channel st)" "incoming (m_channel st) = head @ y"
    and p: "parses S head hs keep" "quiet keep" "length head \<le> 8192"
  defines "x \<equiv> take (8192 - length head) y"
  shows "\<exists>st1 s0. header_pass S io 0 st = Some (case http_headers hs st1 of
        (Inl e, s) \<Rightarrow> (Raise e, s)
      | (Inr _, s) \<Rightarrow> http_start_body (of_nat (length (head @ x))) s) \<and>
    waiting (length head) (head @ x) st1 \<and> head_of st1 = head_of (keep s0) \<and> ready (m_channel st1) \<and>
    incoming (m_channel st1) = drop (8192 - length head) y"
proof -
  obtain xs where xs: "spans (m_buffer st) xs 0 8192" "length xs = 8192" using st by (auto simp: idle_def)
  have ne: "head \<noteq> []" using p(1) by (simp add: parses_def)
  have d: "take (8192 - 0) (incoming (m_channel st)) = head @ x" "drop (8192 - 0) (incoming (m_channel st)) = drop (8192 - length head) y"
    using c(2) p(3) by (simp_all add: x_def)
  have len: "length (head @ x) \<le> 8192" using p(3) by (simp add: x_def)
  obtain c' where c': "recv_into io (m_channel st) (m_buffer st) =
      Some (Inr (int (length (head @ x)), local_write (head @ x) (m_buffer st)), c')"
    "ready c'" "incoming c' = drop (8192 - length head) y"
    using recv_all [OF c(1) xs(1)] c(2) ne unfolding d by auto
  define b where "b = local_write (head @ x) (m_buffer st)"
  define zs where "zs = drop (length (head @ x)) xs"
  have b: "spans b ((head @ x) @ zs) 0 8192"
    using spans_write [OF xs(1), of "head @ x"] len xs(2) by (simp add: b_def zs_def memcpy_at_def)
  have lz: "length ((head @ x) @ zs) = 8192" using len xs(2) by (simp add: zs_def)
  have n: "0 + of_int (int (length (head @ x))) = (of_nat (length (head @ x)) :: u64)" by (simp del: length_append)
  have u: "unat (of_nat (length (head @ x)) :: u64) = length (head @ x)"
    using len by (intro unat_of_nat_eq) simp
  have buf: "take (unat (of_nat (length (head @ x)) :: u64)) (array (set_position 0 b)) = head @ x"
    unfolding u using spans_zero [OF b] by (simp add: spans_def)
  have inside: "\<not> length (array (set_position 0 b)) < unat (of_nat (length (head @ x)) :: u64)"
    unfolding u using spans_zero [OF b] by (simp add: spans_def)
  obtain q where q: "parse_head S (head @ x) 30 0 = Some (int (length head), Some q)"
    "map (field_pair (head @ x)) (head_headers S q) = hs" "keep_head S (head @ x) q = keep"
    using p(1) unfolding parses_def by blast
  let ?s0 = "st\<lparr>m_channel := c', m_buffer := set_position 0 b, m_header_size := of_int (int (length head))\<rparr>"
  define st1 where "st1 = (keep ?s0)\<lparr>m_buffer := set_position (of_nat (length head)) (set_position 0 b)\<rparr>"
  obtain k1 k2 k3 k4 where k: "keep ?s0 = ?s0\<lparr>m_method := k1, m_path := k2, m_status := k3, m_message := k4\<rparr>"
    using p(2) unfolding quiet_def by blast
  have hsz: "(ucast (of_nat (length head) :: u32) :: u64) = of_nat (length head)" using p(3) by (intro ucast_small) simp
  have pos: "0 < int (length (head @ x))" "0 < int (length head)" using ne by (auto simp: of_nat_0_less_iff simp del: of_nat_add)
  have z: "unat (0::u64) = 0" by simp
  have m: "m_channel (st\<lparr>m_channel := c', m_buffer := b\<rparr>) = c'" by simp
  have "header_pass S io 0 st = Some (http_head S (head @ x) (int (length head)) q (of_nat (length (head @ x)))
      (st\<lparr>m_channel := c', m_buffer := set_position 0 b\<rparr>))"
    unfolding header_pass_def c'(1) Let_def option.case sum.case prod.case b_def [symmetric] if_P [OF pos(1)] n
    using buf q(1) pos(2) inside by (simp del: length_append)
  also have "\<dots> = Some (case http_headers hs st1 of
        (Inl e, s) \<Rightarrow> (Raise e, s) | (Inr _, s) \<Rightarrow> http_start_body (of_nat (length (head @ x))) s)"
    unfolding http_head_def Let_def q(2,3) using k hsz by (simp add: st1_def del: length_append)
  finally have pass: "header_pass S io 0 st = Some (case http_headers hs st1 of
        (Inl e, s) \<Rightarrow> (Raise e, s) | (Inr _, s) \<Rightarrow> http_start_body (of_nat (length (head @ x))) s)" .
  have "spans (m_buffer st1) ((head @ x) @ zs) (length head) 8192"
    using spans_set_position [OF spans_zero [OF b] p(3)] by (simp add: st1_def)
  then have w: "waiting (length head) (head @ x) st1"
    using st lz k unfolding waiting_def idle_def by (auto simp: st1_def)
  have h: "head_of st1 = head_of (keep ?s0)" using k by (simp add: st1_def head_of_def)
  have r: "ready (m_channel st1)" "incoming (m_channel st1) = drop (8192 - length head) y"
    using k c'(2,3) by (simp_all add: st1_def)
  show ?thesis using pass w h r by blast
qed

end

text \<open>The state when all headers have been read.\<close>

definition headed :: "nat \<Rightarrow> bytes \<Rightarrow> nat \<Rightarrow> bool \<Rightarrow> 'c http \<Rightarrow> bool" where
  "headed n text len chunked st \<longleftrightarrow> m_state st = waiting_header \<and>
     (\<exists>xs. spans (m_buffer st) (text @ xs) n 8192 \<and> length (text @ xs) = 8192) \<and>
     m_body_size st = of_nat len \<and> m_max_request_body_size st = 10485760 \<and> m_chunked st = chunked \<and>
     \<not> m_new_body_buffer st \<and> m_chunked_decoder st = zero_decoder \<and> m_header_size st = of_nat n"

lemma unat32: "n < 2 ^ 32 \<Longrightarrow> unat (of_nat n :: u32) = n"
  by (simp add: unat_of_nat_eq)

lemma u32_pos: "n < 2 ^ 32 \<Longrightarrow> (0 < (of_nat n :: u32)) \<longleftrightarrow> 0 < n"
  by (simp add: word_less_nat_alt unat32)

lemma start_no_body: "headed n text 0 chk st \<Longrightarrow> http_start_body sz st = (Message [], st)"
  by (simp add: http_start_body_def headed_def)

lemma start_whole_body:
  assumes "headed (length head) (head @ body) (length body) False st" and "body \<noteq> []"
  shows "\<exists>b. http_start_body (of_nat (length (head @ body))) st = (Message body, st\<lparr>m_buffer := b\<rparr>)"
proof -
  obtain xs where b: "spans (m_buffer st) ((head @ body) @ xs) (length head) 8192" "length ((head @ body) @ xs) = 8192"
    and f: "m_body_size st = of_nat (length body)" "m_header_size st = of_nat (length head)"
    using assms(1) by (auto simp: headed_def)
  have l: "length head + length body \<le> 8192" "length body < 2 ^ 32" "length head < 2 ^ 32" using b(2) by simp_all
  have pos: "0 < m_body_size st" using f(1) u32_pos [OF l(2)] assms(2) by simp
  have dif: "(of_nat (length (head @ body)) :: u64) - of_nat (length head) = of_nat (length body)"
    using of_nat_diff_small [of "length head" "length (head @ body)"] by simp
  have sum: "m_header_size st + m_body_size st = of_nat (length head + length body)" using f by simp
  have sz: "(ucast (of_nat (length head + length body) :: u32) :: u64) = of_nat (length head + length body)"
    using l(1) by (intro ucast_small) simp
  have "spans (set_size (of_nat (length head + length body)) (m_buffer st)) ((head @ body) @ xs) (length head) (length head + length body)"
    using b l(1) by (intro spans_set_size [OF b(1)]) simp_all
  then have c: "local_contents (set_size (of_nat (length head + length body)) (m_buffer st)) = body"
    by (simp add: spans_contents)
  have le: "ucast (m_body_size st) \<le> of_nat (length (head @ body)) - (ucast (m_header_size st) :: u64)"
    unfolding f ucast_small [OF l(2)] ucast_small [OF l(3)] dif by simp
  have "http_start_body (of_nat (length (head @ body))) st =
      (Message body, st\<lparr>m_buffer := set_size (of_nat (length head + length body)) (m_buffer st)\<rparr>)"
    unfolding http_start_body_def if_P [OF pos] if_P [OF le] sum sz Let_def using c by (simp del: of_nat_add)
  then show ?thesis by blast
qed

lemma start_new_body:
  assumes st: "headed (length head) (head @ x) len chk st"
    and size: "8192 < length head + len" "len \<le> 10485760" "length (head @ x) \<le> 8192"
  shows "\<exists>st'. http_start_body (of_nat (length (head @ x))) st = (Body, st') \<and> m_state st' = waiting_body \<and>
    (chk \<and> x \<noteq> [] \<longrightarrow> spans (m_body st') (x @ replicate (len - length x) 0) 0 (length x)) \<and>
    (\<not> chk \<or> x = [] \<longrightarrow> spans (m_body st') (x @ replicate (len - length x) 0) (if chk then 0 else length x) len) \<and>
    m_new_body_buffer st' \<and> m_chunked st' = chk \<and> m_body_size st' = of_nat len \<and> m_chunked_decoder st' = zero_decoder \<and>
    m_max_request_body_size st' = 10485760 \<and> m_channel st' = m_channel st \<and> m_headers st' = m_headers st \<and> head_of st' = head_of st"
proof -
  obtain xs where b: "spans (m_buffer st) ((head @ x) @ xs) (length head) 8192" "length ((head @ x) @ xs) = 8192"
    and f: "m_body_size st = of_nat len" "m_header_size st = of_nat (length head)" "m_chunked st = chk"
      "m_max_request_body_size st = 10485760" "m_chunked_decoder st = zero_decoder"
    using st by (auto simp: headed_def)
  have l: "length head \<le> 8192" "len < 2 ^ 32" "length head < 2 ^ 32" "length x \<le> len" "0 < len" using size by simp_all
  have pos: "0 < m_body_size st" using f(1) u32_pos [OF l(2)] l(5) by simp
  have us: "(ucast (m_body_size st) :: u64) = of_nat len" "unat (m_body_size st) = len"
    unfolding f(1) by (rule ucast_small [OF l(2)], rule unat32 [OF l(2)])
  have uh: "(ucast (m_header_size st) :: u64) = of_nat (length head)" unfolding f(2) by (rule ucast_small [OF l(3)])
  have dif: "(of_nat (length (head @ x)) :: u64) - of_nat (length head) = of_nat (length x)"
    using of_nat_diff_small [of "length head" "length (head @ x)"] by simp
  have more: "\<not> (of_nat len :: u64) \<le> of_nat (length x)"
    using size l by (subst of_nat_le_small) simp_all
  have fits: "m_body_size st \<le> m_max_request_body_size st"
    using size(2) us(2) by (simp add: word_le_nat_alt f(4))
  have bs: "buffer_size (m_buffer st) = of_nat (8192 - length head)" by (rule spans_size(1) [OF b(1)])
  have less: "(of_nat (8192 - length head) :: u64) < of_nat len"
    using size l by (subst of_nat_less_small) simp_all
  have p: "position (m_buffer st) = of_nat (length head)" by (rule spans_position [OF b(1)])
  have up: "unat (of_nat (length head) :: u64) = length head" "unat (of_nat (length x) :: u64) = length x"
    using l by (intro unat_of_nat_eq; simp)+
  have tail: "take (length x) (drop (length head) (array (m_buffer st))) = x" using b(1) by (simp add: spans_def)
  have new: "spans (local_sized len) (replicate len 0) 0 len" by (rule spans_sized) (use size in simp)
  have w: "memcpy_at (replicate len 0) 0 x = x @ replicate (len - length x) 0" using l(4) by (simp add: memcpy_at_def)
  have wr: "spans (local_write x (local_sized len)) (x @ replicate (len - length x) 0) 0 len"
    using spans_write [OF new, of x] l(4) unfolding w by simp
  have wr_ch: "spans (set_size (of_nat (length x)) (set_position 0 (local_write x (local_sized len))))
      (x @ replicate (len - length x) 0) 0 (length x)"
    using l(4) by (intro spans_set_size [OF spans_zero [OF wr]]) simp_all
  have wr_pos: "spans (set_position (of_nat (length x)) (local_write x (local_sized len))) (x @ replicate (len - length x) 0) (length x) len"
    by (rule spans_set_position [OF wr l(4)])
  have room: "length head + length x \<le> length (array (m_buffer st))" "length x \<le> length (array (local_sized len))"
    using b l(4) by (simp_all add: spans_def local_sized_def local_of_bytes_def)
  have body: "http_start_body (of_nat (length (head @ x))) st =
    (let st = st\<lparr>m_state := waiting_body, m_new_body_buffer := True, m_body := local_sized len\<rparr> in
      if (0::u64) < of_nat (length x) then
        (Body, st\<lparr>m_body := (if chk then set_size (of_nat (length x)) (set_position 0 (local_write x (m_body st)))
                             else set_position (of_nat (length x)) (local_write x (m_body st)))\<rparr>)
      else (Body, st))"
    unfolding http_start_body_def
    using pos us uh dif more fits bs less p up tail f room by (simp add: Let_def del: length_append)
  have z: "(0::u64) < of_nat (length x) \<longleftrightarrow> x \<noteq> []" using up(2) by (auto simp: word_less_nat_alt)
  show ?thesis
    unfolding body z Let_def
    using wr_ch wr_pos new f by (cases "x = []"; cases chk) (simp_all add: head_of_def)
qed

lemma headers_headed:
  assumes "waiting n text st" and "\<forall>h \<in> set hs. plain_field h" and "length body < 2 ^ 32"
  shows "\<exists>st'. http_headers (with_length hs body) st = (Inr (), st') \<and> headed n text (length body) False st' \<and>
    m_headers st' = mset (with_length hs body) \<and> m_channel st' = m_channel st \<and> head_of st' = head_of st"
proof -
  have "m_body_size st = 0" using assms(1) by (simp add: waiting_def)
  then show ?thesis
    using http_headers_length [OF assms(2,3), of st] assms(1) unfolding waiting_def headed_def by (auto simp: head_of_def)
qed

definition reads_new_body :: "'c channel \<Rightarrow> ('c http \<Rightarrow> (pass \<times> 'c http) option) \<Rightarrow> bool" where
  "reads_new_body io bp \<longleftrightarrow> (\<exists>part. \<forall>st. \<not> m_chunked st \<longrightarrow> m_new_body_buffer st \<longrightarrow> bp st = new_body_pass part io st)"

context prompt_channel
begin

lemma new_body_all:
  assumes b: "spans (m_body st) (x @ replicate (length z) 0) (length x) (length x + length z)" and z: "z \<noteq> []"
    and c: "ready (m_channel st)" "incoming (m_channel st) = z"
    and n: "m_body_size st = of_nat (length x + length z)" "length x + length z < 2 ^ 32"
  shows "\<exists>b c'. new_body_pass part io st = Some (Message (x @ z), st\<lparr>m_channel := c', m_body := b\<rparr>) \<and>
    ready c' \<and> incoming c' = []"
proof -
  have d: "take (length x + length z - length x) (incoming (m_channel st)) = z"
    "drop (length x + length z - length x) (incoming (m_channel st)) = []" using c(2) by simp_all
  obtain c' where c': "recv_into io (m_channel st) (m_body st) = Some (Inr (int (length z), local_write z (m_body st)), c')"
    "ready c'" "incoming c' = []"
    using recv_all [OF c(1) b] z c(2) unfolding d by auto
  have need: "(ucast (m_body_size st) :: u64) - position (m_body st) = of_nat (length z)"
    unfolding n(1) ucast_small [OF n(2)] spans_position [OF b] using of_nat_diff_small [of "length x" "length x + length z"]
    by simp
  have w: "memcpy_at (x @ replicate (length z) 0) (length x) z = x @ z" by (simp add: memcpy_at_def)
  have "spans (local_write z (m_body st)) (x @ z) (length x) (length x + length z)"
    using spans_write [OF b, of z] unfolding w by simp
  then have "local_contents (set_position 0 (local_write z (m_body st))) = x @ z"
    using spans_contents [OF spans_zero] by simp
  moreover have "of_int (int (length z)) = ((ucast (m_body_size st) :: u64) - position (m_body st))"
    unfolding need by simp
  ultimately have "new_body_pass part io st =
      Some (Message (x @ z), st\<lparr>m_channel := c', m_body := set_position 0 (local_write z (m_body st))\<rparr>)"
    unfolding new_body_pass_def Let_def c'(1) by simp
  then show ?thesis using c'(2,3) by blast
qed

lemma recv_message:
  assumes st: "idle st" and c: "ready (m_channel st)" "incoming (m_channel st) = head @ body"
    and p: "parses S head (with_length hs body) keep" "quiet keep" "length head \<le> 8192"
    and h: "\<forall>h \<in> set hs. plain_field h" and b: "length body \<le> 10485760" and bp: "reads_new_body io bp"
  shows "\<exists>st' s0. http_recv S io bp st = Some (Inr (Some body), st') \<and> m_headers st' = mset (with_length hs body) \<and>
    head_of st' = head_of (keep s0) \<and> ready (m_channel st') \<and> incoming (m_channel st') = []"
proof -
  let ?x = "take (8192 - length head) body"
  have b32: "length body < 2 ^ 32" using b by simp
  obtain st1 s0 where 1: "header_pass S io 0 st = Some (case http_headers (with_length hs body) st1 of
        (Inl e, s) \<Rightarrow> (Raise e, s) | (Inr _, s) \<Rightarrow> http_start_body (of_nat (length (head @ ?x))) s)"
    "waiting (length head) (head @ ?x) st1" "head_of st1 = head_of (keep s0)" "ready (m_channel st1)"
    "incoming (m_channel st1) = drop (8192 - length head) body"
    using first_pass [OF st c p] by blast
  obtain st2 where 2: "http_headers (with_length hs body) st1 = (Inr (), st2)"
    "headed (length head) (head @ ?x) (length body) False st2" "m_headers st2 = mset (with_length hs body)"
    "m_channel st2 = m_channel st1" "head_of st2 = head_of st1"
    using headers_headed [OF 1(2) h b32] by blast
  have recv: "http_recv S io bp st = (case http_start_body (of_nat (length (head @ ?x))) st2 of
      (Message m, s) \<Rightarrow> Some (Inr (Some m), s) | (Blocked, s) \<Rightarrow> Some (Inr None, s) | (Raise e, s) \<Rightarrow> Some (Inl e, s)
    | (Again n, s) \<Rightarrow> header_loop S io bp n s | (Body, s) \<Rightarrow> body_loop bp s)"
    using st 1(1) 2(1) by (simp add: http_recv_def idle_def header_loop.simps del: length_append split: prod.splits pass.splits)
  consider "body = []" | "body \<noteq> []" "length head + length body \<le> 8192" | "8192 < length head + length body" by linarith
  then show ?thesis
  proof cases
    case 1
    then have "headed (length head) (head @ ?x) 0 False st2" using 2(2) by simp
    note start_no_body [OF this, of "of_nat (length (head @ ?x))"]
    then show ?thesis using recv 2 \<open>head_of st1 = head_of (keep s0)\<close> \<open>ready (m_channel st1)\<close>
        \<open>incoming (m_channel st1) = drop (8192 - length head) body\<close> 1 by auto
  next
    case 2
    then have x: "?x = body" by simp
    obtain m where "http_start_body (of_nat (length (head @ ?x))) st2 = (Message body, st2\<lparr>m_buffer := m\<rparr>)"
      using start_whole_body [of head body st2] \<open>headed _ _ _ _ st2\<close> 2 unfolding x by blast
    then show ?thesis using recv \<open>head_of st1 = head_of (keep s0)\<close> \<open>ready (m_channel st1)\<close>
        \<open>incoming (m_channel st1) = drop (8192 - length head) body\<close> \<open>m_headers st2 = _\<close> \<open>m_channel st2 = _\<close> \<open>head_of st2 = head_of st1\<close> 2
      by (auto simp: head_of_def)
  next
    case 3
    have l: "length (head @ ?x) \<le> 8192" using 3 p(3) by simp
    obtain st3 where 4: "http_start_body (of_nat (length (head @ ?x))) st2 = (Body, st3)"
      "spans (m_body st3) (?x @ replicate (length body - length ?x) 0) (length ?x) (length body)"
      "m_new_body_buffer st3" "\<not> m_chunked st3" "m_body_size st3 = of_nat (length body)" "m_channel st3 = m_channel st2"
      "m_headers st3 = m_headers st2" "head_of st3 = head_of st2"
      using start_new_body [OF 2(2) 3 b l] by auto
    let ?z = "drop (8192 - length head) body"
    have z: "?z \<noteq> []" "length body - length ?x = length ?z" "length ?x + length ?z = length body" "?x @ ?z = body" using 3 p(3) by auto
    obtain part where part: "bp st3 = new_body_pass part io st3" using bp 4(3,4) by (auto simp: reads_new_body_def)
    have sp: "spans (m_body st3) (?x @ replicate (length ?z) 0) (length ?x) (length ?x + length ?z)"
      using 4(2) unfolding z(2,3) .
    have cs: "ready (m_channel st3)" "incoming (m_channel st3) = ?z" using 4(6) 2(4) 1(4,5) by simp_all
    have n: "m_body_size st3 = of_nat (length ?x + length ?z)" "length ?x + length ?z < 2 ^ 32" using 4(5) b32 unfolding z(3) by simp_all
    obtain m c' where 5: "new_body_pass part io st3 = Some (Message (?x @ ?z), st3\<lparr>m_channel := c', m_body := m\<rparr>)"
      "ready c'" "incoming c' = []"
      using new_body_all [OF sp z(1) cs n] by blast
    have "http_recv S io bp st = Some (Inr (Some body), st3\<lparr>m_channel := c', m_body := m\<rparr>)"
      using recv 4(1) part 5(1) z(4) by (simp add: body_loop.simps del: length_append)
    then show ?thesis using 5 4 2 1 by (auto simp: head_of_def)
  qed
qed

end

section \<open>Requests and responses\<close>

lemma headers_text_pairs: "headers_text buf hs' = map (\<lambda>(n, v). (Some n, v)) hs \<Longrightarrow> map (field_pair buf) hs' = hs"
proof -
  assume t: "headers_text buf hs' = map (\<lambda>(n, v). (Some n, v)) hs"
  have "field_pair buf h = (\<lambda>(n, v). (case n of None \<Rightarrow> [] | Some x \<Rightarrow> x, v))
      (map_option (content buf) (h_name h), content buf (h_value h))" for h
    by (simp add: field_pair_def split: option.split)
  then have "map (field_pair buf) hs' = map (\<lambda>(n, v). (case n of None \<Rightarrow> [] | Some x \<Rightarrow> x, v)) (headers_text buf hs')"
    by (simp add: headers_text_def)
  also have "\<dots> = hs" unfolding t by (simp add: comp_def case_prod_unfold)
  finally show ?thesis .
qed

lemma parses_request:
  assumes "token_chars meth" "path_chars path" "headers_ok hs" "length hs \<le> 30" "length (print_request meth path 1 hs) \<le> 8192"
  shows "parses request_side (print_request meth path 1 hs) hs (\<lambda>st. st\<lparr>m_method := meth, m_path := path\<rparr>)"
proof -
  have l: "length (print_request meth path 1 hs) < 2 ^ 31" using assms(5) by simp
  have ne: "print_request meth path 1 hs \<noteq> []" by (simp add: print_request_def)
  show ?thesis
    unfolding parses_def
  proof (intro conjI allI)
    fix rest
    obtain rq where rq: "phr_parse_request (print_request meth path 1 hs @ rest) 30 0 =
        Some (int (length (print_request meth path 1 hs)), Some rq)"
      "request_text (print_request meth path 1 hs @ rest) rq = (meth, path, int 1, map (\<lambda>(n, v). (Some n, v)) hs)"
      using phr_request_parsed [OF assms(1,2) _ assms(3,4) l, of rest] by auto
    then show "\<exists>p. parse_head request_side (print_request meth path 1 hs @ rest) 30 0 =
        Some (int (length (print_request meth path 1 hs)), Some p) \<and>
      map (field_pair (print_request meth path 1 hs @ rest)) (head_headers request_side p) = hs \<and>
      keep_head request_side (print_request meth path 1 hs @ rest) p = (\<lambda>st. st\<lparr>m_method := meth, m_path := path\<rparr>)"
      using headers_text_pairs by (auto simp: request_side_def request_text_def)
  qed (rule ne)
qed

lemma parses_response:
  assumes "100 \<le> code" "code < 1000" "msg_ok msg" "headers_ok hs" "length hs \<le> 30"
  defines "head \<equiv> print_response 1 (code div 100) (code div 10 mod 10) (code mod 10) msg hs"
  assumes "length head \<le> 8192"
  shows "parses response_side head hs (\<lambda>st. st\<lparr>m_status := int code, m_message := msg\<rparr>)"
proof -
  have l: "length head < 2 ^ 31" using assms(7) by simp
  have ne: "head \<noteq> []" by (simp add: head_def print_response_def http_version_def)
  have a: "code div 100 < 10" using assms(2) by (intro less_mult_imp_div_less) simp
  have "code div 100 = code div 10 div 10" by (simp add: div_mult2_eq [symmetric])
  then have "10 * (code div 100) + code div 10 mod 10 = code div 10" by simp
  then have c: "100 * (code div 100) + 10 * (code div 10 mod 10) + code mod 10 = code"
    using div_mult_mod_eq [of code 10] by linarith
  show ?thesis
    unfolding parses_def
  proof (intro conjI allI)
    fix rest
    obtain rs where rs: "phr_parse_response (head @ rest) 30 0 = Some (int (length head), Some rs)"
      "response_text (head @ rest) rs = (int 1, int code, msg, map (\<lambda>(n, v). (Some n, v)) hs)"
      using phr_response_parsed [OF _ a _ _ assms(3,4,5) l [unfolded head_def], of rest] unfolding c head_def by auto
    then show "\<exists>p. parse_head response_side (head @ rest) 30 0 = Some (int (length head), Some p) \<and>
      map (field_pair (head @ rest)) (head_headers response_side p) = hs \<and>
      keep_head response_side (head @ rest) p = (\<lambda>st. st\<lparr>m_status := int code, m_message := msg\<rparr>)"
      using headers_text_pairs by (auto simp: response_side_def response_text_def)
  qed (rule ne)
qed

lemma quiet_request: "quiet (\<lambda>st :: 'c http. st\<lparr>m_method := x, m_path := y\<rparr>)"
  unfolding quiet_def
proof
  fix st :: "'c http"
  show "\<exists>a b c d. st\<lparr>m_method := x, m_path := y\<rparr> = st\<lparr>m_method := a, m_path := b, m_status := c, m_message := d\<rparr>"
    by (intro exI [of _ x] exI [of _ y] exI [of _ "m_status st"] exI [of _ "m_message st"]) simp
qed

lemma quiet_response: "quiet (\<lambda>st :: 'c http. st\<lparr>m_status := z, m_message := w\<rparr>)"
  unfolding quiet_def
proof
  fix st :: "'c http"
  show "\<exists>a b c d. st\<lparr>m_status := z, m_message := w\<rparr> = st\<lparr>m_method := a, m_path := b, m_status := c, m_message := d\<rparr>"
    by (intro exI [of _ "m_method st"] exI [of _ "m_path st"] exI [of _ z] exI [of _ w]) simp
qed

lemma bodies_read: "reads_new_body io (request_body_pass io)" "reads_new_body io (response_body_pass io)"
  by (auto simp: reads_new_body_def request_body_pass_def response_body_pass_def)

lemma with_length_ok: "headers_ok hs \<Longrightarrow> headers_ok (with_length hs body)"
proof -
  assume "headers_ok hs"
  moreover have "token_chars (str ''Content-Length'')" by (simp add: token_chars_def token_char_map_def)
  ultimately show ?thesis using to_string_value_ok [of "length body"] by (auto simp: headers_ok_def with_length_def)
qed

lemma plain_no_length: "\<forall>h \<in> set hs. plain_field h \<Longrightarrow> str ''Content-Length'' \<notin> fst ` set hs"
  by (force simp: plain_field_def isequal_def)

text \<open>A message as the other side writes it: the headers carry no length and no transfer encoding of their own.\<close>

definition request_ok :: "bytes \<Rightarrow> bytes \<Rightarrow> (bytes \<times> bytes) list \<Rightarrow> bytes \<Rightarrow> bool" where
  "request_ok meth path hdrs body \<longleftrightarrow> token_chars meth \<and> path_chars path \<and> headers_ok (filter (\<lambda>h. snd h \<noteq> []) hdrs) \<and>
     (\<forall>h \<in> set hdrs. plain_field h) \<and> length hdrs < 30 \<and> length (request_head meth path hdrs body) \<le> 8192 \<and>
     length body \<le> 10485760"

definition response_ok :: "nat \<Rightarrow> bytes \<Rightarrow> (bytes \<times> bytes) list \<Rightarrow> bytes \<Rightarrow> bool" where
  "response_ok code msg hdrs body \<longleftrightarrow> 100 \<le> code \<and> code < 1000 \<and> msg_ok msg \<and> headers_ok hdrs \<and>
     (\<forall>h \<in> set hdrs. plain_field h) \<and> length hdrs < 30 \<and> length (response_head code msg hdrs body) \<le> 8192 \<and>
     length body \<le> 10485760"

context prompt_channel
begin

lemma request_received:
  assumes "idle st" "ready (m_channel st)" "incoming (m_channel st) = request_head meth path hdrs body @ body"
    and "request_ok meth path hdrs body"
  shows "\<exists>st'. recv_request io st =
      Some (Inr (meth, path, mset (with_length (filter (\<lambda>h. snd h \<noteq> []) hdrs) body), body), st') \<and>
    ready (m_channel st') \<and> incoming (m_channel st') = []"
proof -
  let ?hs = "filter (\<lambda>h. snd h \<noteq> []) hdrs"
  have ok: "token_chars meth" "path_chars path" "headers_ok ?hs" "\<forall>h \<in> set hdrs. plain_field h" "length hdrs < 30"
    "length (request_head meth path hdrs body) \<le> 8192" "length body \<le> 10485760"
    using assms(4) by (simp_all add: request_ok_def)
  have h: "request_head meth path hdrs body = print_request meth path 1 (with_length ?hs body)"
    by (rule request_head_print [OF plain_no_length [OF ok(4)]])
  have "length ?hs < 30" using ok(5) length_filter_le [of _ hdrs] by (rule le_less_trans [rotated])
  then have n: "length (with_length ?hs body) \<le> 30" by (simp add: with_length_def)
  have p: "parses request_side (print_request meth path 1 (with_length ?hs body)) (with_length ?hs body)
      (\<lambda>st. st\<lparr>m_method := meth, m_path := path\<rparr>)"
    by (rule parses_request [OF ok(1,2) with_length_ok [OF ok(3)] n]) (use ok(6) h in simp)
  have pl: "\<forall>h \<in> set ?hs. plain_field h" using ok(4) by simp
  obtain st' and s0 :: "'c http" where r: "http_recv request_side io (request_body_pass io) st = Some (Inr (Some body), st')"
    "m_headers st' = mset (with_length ?hs body)" "head_of st' = head_of (s0\<lparr>m_method := meth, m_path := path\<rparr>)"
    "ready (m_channel st')" "incoming (m_channel st') = []"
    using recv_message [OF assms(1,2) assms(3) [unfolded h] p quiet_request ok(6) [unfolded h] pl ok(7) bodies_read(1)] by blast
  then show ?thesis by (simp add: recv_request_def head_of_def)
qed

lemma response_received:
  assumes "idle st" "ready (m_channel st)" "incoming (m_channel st) = response_head code msg hdrs body @ body"
    and "response_ok code msg hdrs body"
  shows "\<exists>st'. recv_response io st = Some (Inr (int code, msg, mset (with_length hdrs body), body), st') \<and>
    ready (m_channel st') \<and> incoming (m_channel st') = []"
proof -
  have ok: "100 \<le> code" "code < 1000" "msg_ok msg" "headers_ok hdrs" "\<forall>h \<in> set hdrs. plain_field h" "length hdrs < 30"
    "length (response_head code msg hdrs body) \<le> 8192" "length body \<le> 10485760"
    using assms(4) by (simp_all add: response_ok_def)
  note h = response_head_print [OF ok(1,2), of msg hdrs body]
  have n: "length (with_length hdrs body) \<le> 30" using ok(6) by (simp add: with_length_def)
  note p = parses_response [OF ok(1,2,3) with_length_ok [OF ok(4)] n ok(7) [unfolded h]]
  obtain st' and s0 :: "'c http" where r: "http_recv response_side io (response_body_pass io) st = Some (Inr (Some body), st')"
    "m_headers st' = mset (with_length hdrs body)" "head_of st' = head_of (s0\<lparr>m_status := int code, m_message := msg\<rparr>)"
    "ready (m_channel st')" "incoming (m_channel st') = []"
    using recv_message [OF assms(1,2) assms(3) [unfolded h] p quiet_response ok(7) [unfolded h] ok(5) ok(8) bodies_read(2)] by blast
  then show ?thesis by (simp add: recv_response_def head_of_def)
qed

end

section \<open>Chunked messages\<close>

definition chunked_fields :: "(bytes \<times> bytes) list \<Rightarrow> (bytes \<times> bytes) list" where
  "chunked_fields hs = hs @ [(str ''Transfer-Encoding'', str ''chunked'')]"

lemma headers_chunked:
  fixes st :: "'c http"
  assumes "waiting n text st" and "\<forall>h \<in> set hs. plain_field h"
  shows "\<exists>st'. http_headers (chunked_fields hs) st = (Inr (), st') \<and> headed n text 10485760 True st' \<and>
    m_headers st' = mset (chunked_fields hs) \<and> m_channel st' = m_channel st \<and> head_of st' = head_of st"
proof -
  have "http_header (str ''Transfer-Encoding'') (str ''chunked'') st' =
    (Inr (), st'\<lparr>m_headers := add_mset (str ''Transfer-Encoding'', str ''chunked'') (m_headers st'),
      m_chunked := True, m_body_size := m_max_request_body_size st'\<rparr>)" for st' :: "'c http"
    unfolding http_header_def Let_def isequal_def by (simp add: to_lower_def)
  then show ?thesis
    using http_headers_plain [OF assms(2), of st] assms(1) unfolding waiting_def headed_def chunked_fields_def http_headers_append
    by (auto simp: head_of_def)
qed

definition reads_chunks :: "'c channel \<Rightarrow> ('c http \<Rightarrow> (pass \<times> 'c http) option) \<Rightarrow> bool" where
  "reads_chunks io bp \<longleftrightarrow> (\<forall>st. m_chunked st \<longrightarrow> bp st = chunked_pass io st)"

lemma bodies_chunked: "reads_chunks io (request_body_pass io)" "reads_chunks io (response_body_pass io)"
  by (auto simp: reads_chunks_def request_body_pass_def response_body_pass_def)

lemma chunked_fin:
  assumes b: "spans (m_body st) arr p q" and g: "good_decoder (m_chunked_decoder st)"
    and c: "consume (m_chunked_decoder st) (take (q - p) (drop p arr)) = Fin d' data rest" "rest \<noteq> []"
  shows "\<exists>b. chunked_pass io st = Some (Message (take p arr @ data), st\<lparr>m_chunked_decoder := d', m_body := b\<rparr>)"
proof -
  let ?piece = "take (q - p) (drop p arr)"
  have q: "p \<le> q" "q \<le> length arr" "length arr < 2 ^ 63" using b by (simp_all add: spans_def)
  obtain ys where y: "phr_decode_chunked (m_chunked_decoder st) ?piece = Some (int (length rest), d', data @ rest @ ys, length data)"
    "length (data @ rest @ ys) = length ?piece"
    using decode_is_automaton [OF g, of ?piece] unfolding c(1) by auto
  have l: "p + length (data @ rest @ ys) \<le> length arr" unfolding y(2) using q by simp
  let ?b = "local_write (data @ rest @ ys) (m_body st)"
  have w: "spans ?b (memcpy_at arr p (data @ rest @ ys)) p q" by (rule spans_write [OF b l])
  have ln: "length (memcpy_at arr p (data @ rest @ ys)) = length arr" using l by (rule length_memcpy_at)
  have pos: "position ?b + of_nat (length data) = of_nat (p + length data)" using spans_position [OF w] by simp
  have "spans (set_size (of_nat (p + length data)) ?b) (memcpy_at arr p (data @ rest @ ys)) p (p + length data)"
    by (rule spans_set_size [OF w]) (use l ln in simp_all)
  then have "spans (set_position 0 (set_size (of_nat (p + length data)) ?b)) (memcpy_at arr p (data @ rest @ ys)) 0 (p + length data)"
    by (rule spans_zero)
  then have "local_contents (set_position 0 (set_size (of_nat (p + length data)) ?b)) = take p arr @ data"
    using spans_contents q by (simp add: memcpy_at_def)
  then show ?thesis
    unfolding chunked_pass_def spans_contents [OF b] y(1) Let_def option.case prod.case
    using c(2) pos by (intro exI [of _ "set_position 0 (set_size (of_nat (p + length data)) ?b)"]) (simp del: of_nat_add)
qed

context prompt_channel
begin

lemma chunked_wait:
  assumes b: "spans (m_body st) arr p q" "length arr = 10485760" and g: "good_decoder (m_chunked_decoder st)"
    and c: "consume (m_chunked_decoder st) (take (q - p) (drop p arr)) = Wait d' data"
    and r: "ready (m_channel st)" "incoming (m_channel st) = z" "z \<noteq> []" "p + length data + length z \<le> 10485760"
    and m: "m_max_request_body_size st = 10485760"
  shows "\<exists>b c' arr'. chunked_pass io st = Some (Again 0, st\<lparr>m_chunked_decoder := d', m_channel := c', m_body := b\<rparr>) \<and>
    spans b arr' (p + length data) (p + length data + length z) \<and>
    take (p + length data + length z) arr' = take p arr @ data @ z \<and> ready c' \<and> incoming c' = []"
proof -
  let ?piece = "take (q - p) (drop p arr)"
  have q: "p \<le> q" "q \<le> length arr" using b(1) by (simp_all add: spans_def)
  obtain ys where y: "phr_decode_chunked (m_chunked_decoder st) ?piece = Some (- 2, d', data @ ys, length data)"
    "length (data @ ys) = length ?piece"
    using decode_is_automaton [OF g, of ?piece] unfolding c by auto
  have l: "p + length (data @ ys) \<le> length arr" unfolding y(2) using q by simp
  let ?arr = "memcpy_at arr p (data @ ys)"
  let ?b = "local_write (data @ ys) (m_body st)"
  have w: "spans ?b ?arr p q" by (rule spans_write [OF b(1) l])
  have ln: "length ?arr = 10485760" using l b(2) by simp
  have mx: "(ucast (10485760 :: u32) :: u64) = of_nat 10485760" by simp
  have s1: "spans (set_size (of_nat 10485760) ?b) ?arr p 10485760"
    by (rule spans_set_size [OF w]) (use q b(2) ln in simp_all)
  have pos: "position (set_size (of_nat 10485760) ?b) + of_nat (length data) = of_nat (p + length data)"
    using spans_position [OF s1] by simp
  let ?b2 = "set_position (of_nat (p + length data)) (set_size (of_nat 10485760) ?b)"
  have s2: "spans ?b2 ?arr (p + length data) 10485760"
    by (rule spans_set_position [OF s1]) (use r(4) in simp)
  have lt: "p + length data < 10485760" using r(3,4) by (cases z) simp_all
  have dz: "take (10485760 - (p + length data)) (incoming (m_channel st)) = z"
    "drop (10485760 - (p + length data)) (incoming (m_channel st)) = []" using r(2,4) by simp_all
  obtain c' where c': "recv_into io (m_channel st) ?b2 = Some (Inr (int (length z), local_write z ?b2), c')"
    "ready c'" "incoming c' = []"
    using recv_all [OF r(1) s2 lt] r(2,3) unfolding dz by auto
  let ?arr' = "memcpy_at ?arr (p + length data) z"
  have s3: "spans (local_write z ?b2) ?arr' (p + length data) 10485760"
    by (rule spans_write [OF s2]) (use r(4) ln in simp)
  have ln': "length ?arr' = 10485760" using r(4) ln by (subst length_memcpy_at) simp_all
  have pos2: "position (local_write z ?b2) + of_int (int (length z)) = of_nat (p + length data + length z)"
    using spans_position [OF s3] by simp
  have s4: "spans (set_size (of_nat (p + length data + length z)) (local_write z ?b2)) ?arr' (p + length data) (p + length data + length z)"
    by (rule spans_set_size [OF s3]) (use r(4) ln' in simp_all)
  have t: "take (p + length data + length z) ?arr' = take p arr @ data @ z"
  proof -
    have "take (p + length data) ?arr = take p arr @ data" using l by (simp add: memcpy_at_def)
    moreover have "p + length data \<le> length ?arr" using lt ln by simp
    ultimately show ?thesis by (simp add: take_memcpy_at)
  qed
  have pz: "0 < int (length z)" using r(3) by simp
  have "chunked_pass io st = Some (Again 0, st\<lparr>m_chunked_decoder := d', m_channel := c',
      m_body := set_size (of_nat (p + length data + length z)) (local_write z ?b2)\<rparr>)"
  proof -
    let ?st = "st\<lparr>m_chunked_decoder := d', m_body := ?b\<rparr>"
    have e1: "set_size (ucast (m_max_request_body_size ?st)) (m_body ?st) = set_size (of_nat 10485760) ?b"
      using m mx by simp
    have e2: "set_position (position (set_size (of_nat 10485760) ?b) + of_nat (length data)) (set_size (of_nat 10485760) ?b) = ?b2"
      unfolding pos by (rule refl)
    have e3: "m_channel ?st = m_channel st" by simp
    show ?thesis
      unfolding chunked_pass_def spans_contents [OF b(1)] y(1) Let_def option.case prod.case if_P [OF refl] e1 e2 e3 c'(1)
        sum.case if_P [OF pz] pos2
      by simp
  qed
  then show ?thesis using s4 t c'(2,3) by blast
qed

end

text \<open>Where the state is after a header that announces chunks, of which \<open>x\<close> has come with it.\<close>

context prompt_channel
begin

lemma recv_chunked_head:
  assumes st: "idle st" and c: "ready (m_channel st)" "incoming (m_channel st) = head @ y"
    and p: "parses S head (chunked_fields hs) keep" "quiet keep" "length head \<le> 8192" and h: "\<forall>h \<in> set hs. plain_field h"
  defines "x \<equiv> take (8192 - length head) y"
  shows "\<exists>st' s0. http_recv S io bp st = body_loop bp st' \<and> m_chunked st' \<and> m_chunked_decoder st' = zero_decoder \<and>
    m_max_request_body_size st' = 10485760 \<and> m_headers st' = mset (chunked_fields hs) \<and> head_of st' = head_of (keep s0) \<and>
    ready (m_channel st') \<and> incoming (m_channel st') = drop (8192 - length head) y \<and>
    spans (m_body st') (x @ replicate (10485760 - length x) 0) 0 (if x = [] then 10485760 else length x)"
proof -
  obtain st1 s0 where 1: "header_pass S io 0 st = Some (case http_headers (chunked_fields hs) st1 of
        (Inl e, s) \<Rightarrow> (Raise e, s) | (Inr _, s) \<Rightarrow> http_start_body (of_nat (length (head @ x))) s)"
    "waiting (length head) (head @ x) st1" "head_of st1 = head_of (keep s0)" "ready (m_channel st1)"
    "incoming (m_channel st1) = drop (8192 - length head) y"
    using first_pass [OF st c p] unfolding x_def by blast
  obtain st2 where 2: "http_headers (chunked_fields hs) st1 = (Inr (), st2)"
    "headed (length head) (head @ x) 10485760 True st2" "m_headers st2 = mset (chunked_fields hs)"
    "m_channel st2 = m_channel st1" "head_of st2 = head_of st1"
    using headers_chunked [OF 1(2) h] by blast
  have l: "length (head @ x) \<le> 8192" using p(3) by (simp add: x_def)
  obtain st3 where 3: "http_start_body (of_nat (length (head @ x))) st2 = (Body, st3)"
    "x \<noteq> [] \<Longrightarrow> spans (m_body st3) (x @ replicate (10485760 - length x) 0) 0 (length x)"
    "x = [] \<Longrightarrow> spans (m_body st3) (x @ replicate (10485760 - length x) 0) 0 10485760"
    "m_chunked st3" "m_chunked_decoder st3 = zero_decoder" "m_max_request_body_size st3 = 10485760"
    "m_channel st3 = m_channel st2" "m_headers st3 = m_headers st2" "head_of st3 = head_of st2"
    using start_new_body [OF 2(2) _ _ l] by auto
  have "http_recv S io bp st = body_loop bp st3"
    using st 1(1) 2(1) 3(1) by (simp add: http_recv_def idle_def header_loop.simps del: length_append)
  then show ?thesis using 1 2 3 by (intro exI [of _ st3] exI [of _ s0]) auto
qed

lemma recv_chunked:
  assumes st: "idle st" and c: "ready (m_channel st)" "incoming (m_channel st) = head @ msg @ rest"
    and p: "parses S head (chunked_fields hs) keep" "quiet keep" "length head < 8192" and h: "\<forall>h \<in> set hs. plain_field h"
    and bp: "reads_chunks io bp"
    and m: "consume zero_decoder (msg @ rest) = Fin d data rest" "rest \<noteq> []" "length head + length msg \<noteq> 8192"
      "length (msg @ rest) \<le> 10485760"
  shows "\<exists>st' s0. http_recv S io bp st = Some (Inr (Some data), st') \<and> m_headers st' = mset (chunked_fields hs) \<and>
    head_of st' = head_of (keep s0)"
proof -
  let ?y = "msg @ rest"
  let ?x = "take (8192 - length head) ?y" and ?z = "drop (8192 - length head) ?y"
  let ?arr = "?x @ replicate (10485760 - length ?x) 0"
  obtain st3 s0 where 3: "http_recv S io bp st = body_loop bp st3" "m_chunked st3" "m_chunked_decoder st3 = zero_decoder"
    "m_max_request_body_size st3 = 10485760" "m_headers st3 = mset (chunked_fields hs)" "head_of st3 = head_of (keep s0)"
    "ready (m_channel st3)" "incoming (m_channel st3) = ?z"
    "spans (m_body st3) ?arr 0 (if ?x = [] then 10485760 else length ?x)"
    using recv_chunked_head [OF st c p(1,2) less_imp_le [OF p(3)] h] by blast
  have ne: "?x \<noteq> []" using p(3) m(2) by simp
  have b: "spans (m_body st3) ?arr 0 (length ?x)" using 3(9) unfolding if_not_P [OF ne] .
  have piece: "take (length u - 0) (drop 0 (u @ v)) = u" for u v :: bytes by simp
  have "length ?x \<le> 10485760" by simp
  then have la: "length ?arr = 10485760" by (simp only: length_append length_replicate le_add_diff_inverse)
  have xz: "?x @ ?z = ?y" by (rule append_take_drop_id)
  have g: "good_decoder (m_chunked_decoder st3)" using 3(3) by (simp add: zero_decoder_def good_decoder_def)
  have bp3: "bp s = chunked_pass io s" if "m_chunked s" for s using bp that by (simp add: reads_chunks_def)
  consider d' out where "consume zero_decoder ?x = Wait d' out" | d' out r where "consume zero_decoder ?x = Fin d' out r"
    | d' out r where "consume zero_decoder ?x = Bad d' out r" by (cases "consume zero_decoder ?x") auto
  then show ?thesis
  proof cases
    case 1
    have cz: "emit out (consume d' ?z) = Fin d data rest" using consume_append [of zero_decoder ?x ?z] m(1) 1 unfolding xz by simp
    then obtain out2 where o: "consume d' ?z = Fin d out2 rest" "data = out @ out2" by (cases "consume d' ?z") auto
    then have zne: "?z \<noteq> []" by auto
    have lo: "length out \<le> length ?x" using decode_is_automaton [OF g, of ?x] 1 3(3) by auto
    have "length ?x + length ?z \<le> 10485760" using m(4) xz by (metis length_append)
    then have fit: "0 + length out + length ?z \<le> 10485760" using lo by linarith
    have cw: "consume (m_chunked_decoder st3) (take (length ?x - 0) (drop 0 ?arr)) = Wait d' out"
      unfolding piece 3(3) by (rule 1)
    obtain b' c' arr' where w: "chunked_pass io st3 = Some (Again 0, st3\<lparr>m_chunked_decoder := d', m_channel := c', m_body := b'\<rparr>)"
      "spans b' arr' (0 + length out) (0 + length out + length ?z)"
      "take (0 + length out + length ?z) arr' = take 0 ?arr @ out @ ?z"
      using chunked_wait [OF b la g cw 3(7,8) zne fit 3(4)] by blast
    let ?st4 = "st3\<lparr>m_chunked_decoder := d', m_channel := c', m_body := b'\<rparr>"
    have b4: "spans (m_body ?st4) arr' (0 + length out) (0 + length out + length ?z)" using w(2) by simp
    have t: "take (length out + length ?z) arr' = out @ ?z" using w(3) by simp
    have p4: "take (0 + length out + length ?z - (0 + length out)) (drop (0 + length out) arr') = ?z"
      using arg_cong [OF t, of "drop (length out)"] by (simp add: drop_take)
    have t4: "take (0 + length out) arr' = out" using arg_cong [OF t, of "take (length out)"] by simp
    have g4: "good_decoder (m_chunked_decoder ?st4)"
      using consume_good [OF g] 1 3(3) by auto
    obtain b5 where 5: "chunked_pass io ?st4 = Some (Message (take (0 + length out) arr' @ out2), ?st4\<lparr>m_chunked_decoder := d, m_body := b5\<rparr>)"
      using chunked_fin [OF b4 g4 _ m(2), of d out2] o(1) unfolding p4 by auto
    have "body_loop bp st3 = Some (Inr (Some data), ?st4\<lparr>m_chunked_decoder := d, m_body := b5\<rparr>)"
      using w(1) 5 3(2) unfolding t4 o(2) by (simp add: body_loop.simps [of bp st3] body_loop.simps [of bp ?st4] bp3)
    then show ?thesis using 3 by (auto simp: head_of_def)
  next
    case 2
    have "Fin d' out (r @ ?z) = Fin d data rest" using consume_append [of zero_decoder ?x ?z] m(1) 2 unfolding xz by simp
    then have e: "d' = d" "out = data" "r @ ?z = rest" by simp_all
    have "r \<noteq> []"
    proof
      assume "r = []"
      then have "?x @ rest = msg @ rest" using e(3) xz by simp
      then have "?x = msg" by simp
      then have "length ?x = length msg" by (rule arg_cong)
      then have mn: "min (length msg + length rest) (8192 - length head) = length msg" by (simp only: length_take length_append)
      have "0 < length rest" using m(2) by simp
      then have "8192 - length head = length msg" using mn unfolding min_def by (auto split: if_splits)
      then show False using m(3) p(3) by linarith
    qed
    moreover have "consume (m_chunked_decoder st3) (take (length ?x - 0) (drop 0 ?arr)) = Fin d data r"
      unfolding piece 3(3) using 2 e by simp
    ultimately obtain b5 where "chunked_pass io st3 = Some (Message (take 0 ?arr @ data), st3\<lparr>m_chunked_decoder := d, m_body := b5\<rparr>)"
      using chunked_fin [OF b g] by blast
    then have "body_loop bp st3 = Some (Inr (Some data), st3\<lparr>m_chunked_decoder := d, m_body := b5\<rparr>)"
      using 3(2) by (simp add: body_loop.simps [of bp st3] bp3)
    then show ?thesis using 3 by (auto simp: head_of_def)
  next
    case 3
    then show ?thesis using consume_append [of zero_decoder ?x ?z] m(1) unfolding xz by simp
  qed
qed

text \<open>A header that comes without any of its chunks: the buffer is decoded as it was allocated.\<close>

lemma recv_chunked_alone:
  assumes st: "idle st" and c: "ready (m_channel st)" "incoming (m_channel st) = head"
    and p: "parses S head (chunked_fields hs) keep" "quiet keep" "length head \<le> 8192" and h: "\<forall>h \<in> set hs. plain_field h"
    and bp: "reads_chunks io bp"
  shows "\<exists>st'. http_recv S io bp st = Some (Inl (http_error ''http: unable to parse chunked content''), st')"
proof -
  obtain st3 where 3: "http_recv S io bp st = body_loop bp st3" "m_chunked st3" "m_chunked_decoder st3 = zero_decoder"
    "spans (m_body st3) (replicate 10485760 0) 0 10485760"
    using recv_chunked_head [OF st c(1) _ p h, of "[]"] c(2) by auto
  have g: "good_decoder zero_decoder" by (simp add: zero_decoder_def good_decoder_def)
  have "replicate 10485760 0 = (0::u8) # replicate 10485759 0" by (simp flip: replicate_Suc)
  moreover have "take_char zero_decoder 0 = Reject" by (simp add: take_char_def zero_decoder_def decode_hex_def)
  ultimately have "consume zero_decoder (replicate 10485760 0) = Bad zero_decoder [] (replicate 10485760 0)" by simp
  then obtain d xs n where "phr_decode_chunked zero_decoder (replicate 10485760 0) = Some (- 1, d, xs, n)"
    using decode_is_automaton [OF g, of "replicate 10485760 0"] by auto
  moreover have "local_contents (m_body st3) = replicate 10485760 0" using spans_contents [OF 3(4)] by simp
  moreover have "bp st3 = chunked_pass io st3" using bp 3(2) by (simp add: reads_chunks_def)
  ultimately show ?thesis
    using 3(1,3) by (simp add: body_loop.simps chunked_pass_def Let_def)
qed

end

section \<open>Messages in other pieces\<close>

text \<open>Induction over the iterations of the second loop.\<close>

lemma body_loop_message:
  assumes "body_loop bp st = Some (Inr (Some m), st')" and "I st"
    and again: "\<And>s x s'. I s \<Longrightarrow> bp s = Some (x, s') \<Longrightarrow> x = Body \<or> (\<exists>n. x = Again n) \<Longrightarrow> I s'"
    and msg: "\<And>s s'. I s \<Longrightarrow> bp s = Some (Message m, s') \<Longrightarrow> Q s'"
  shows "Q st'"
proof -
  have "bp = bp \<longrightarrow> I st \<longrightarrow> (fst (Inr (Some m) :: bytes option res, st') = Inr (Some m) \<longrightarrow> Q (snd (Inr (Some m) :: bytes option res, st')))"
  proof (rule body_loop.raw_induct [where P = "\<lambda>bp' st res. bp' = bp \<longrightarrow> I st \<longrightarrow> (fst res = Inr (Some m) \<longrightarrow> Q (snd res))", OF _ assms(1)],
      goal_cases)
    case (1 loop bp' s res)
    show ?case
    proof (intro impI)
      assume a: "bp' = bp" "I s" "fst res = Inr (Some m)"
      obtain x s' where x: "bp s = Some (x, s')" using 1(2) a(1) by (auto split: option.splits prod.splits)
      show "Q (snd res)"
      proof (cases "x = Body \<or> (\<exists>n. x = Again n)")
        case True
        then have "loop bp' s' = Some res" using 1(2) x a(1) by auto
        from 1(1) [OF this] show ?thesis using a again [OF a(2) x True] by simp
      next
        case False
        then have "x = Message m \<and> snd res = s'" using 1(2) x a by (cases x) auto
        then show ?thesis using msg [OF a(2)] x by simp
      qed
    qed
  qed
  then show ?thesis using assms(2) by simp
qed

context channel_laws
begin

lemma recv_into_value:
  assumes "valid c" and "recv_into io c b = Some (Inr (n, b'), c')" and "spans b xs p q"
  shows "\<exists>d. b' = local_write d b \<and> length d = nat n \<and> length d \<le> q - p \<and> - (2 ^ 63) \<le> n \<and> valid c' \<and>
    incoming c = d @ incoming c' \<and> spans b' (memcpy_at xs p d) p q \<and> take (p + length d) (memcpy_at xs p d) = take p xs @ d"
proof -
  obtain d where d: "ch_recv io c (buffer_size b) 0 = Some (Inr (n, d), c')" "b' = local_write d b"
    using assms(2) by (auto simp: recv_into_def split: option.splits sum.splits prod.splits if_splits)
  have v: "valid c'" "- (2 ^ 63) \<le> n" "length d = nat n" "length d \<le> q - p" "incoming c = d @ incoming c'"
    using recv_value [OF assms(1) d(1)] spans_size [OF assms(3)] by simp_all
  have l: "p \<le> length xs" "p + length d \<le> length xs" using v(4) assms(3) by (auto simp: spans_def)
  then show ?thesis using v d(2) spans_write [OF assms(3) l(2)] take_memcpy_at [OF l(1), of d] by auto
qed

text \<open>An iteration that receives into a buffer of its own.\<close>

lemma new_body_cases:
  assumes p: "new_body_pass part io s = Some (x, s')" and v: "valid (m_channel s)" and b: "spans (m_body s) ys r q"
    and n: "m_body_size s = of_nat q" "q < 2 ^ 32"
  obtains n d b c' where "valid c'" "incoming (m_channel s) = d @ incoming c'" "length d = nat n" "length d \<le> q - r"
      "spans b (memcpy_at ys r d) r q" "take (r + length d) (memcpy_at ys r d) = take r ys @ d"
      "(n = int (q - r) \<and> x = Message (take r ys @ d) \<and> s' = s\<lparr>m_channel := c', m_body := set_position 0 b\<rparr>) \<or>
       (0 < n \<and> x = Again 0 \<and> s' = part n (s\<lparr>m_channel := c', m_body := b\<rparr>)) \<or> x = Blocked"
  | e where "x = Raise e"
proof -
  have need: "(ucast (m_body_size s) :: u64) - position (m_body s) = of_nat (q - r)"
    unfolding n(1) ucast_small [OF n(2)] spans_position [OF b] using of_nat_diff_small b by (simp add: spans_def)
  have q: "r \<le> q" "q \<le> length ys" "length ys < 2 ^ 63" using b by (simp_all add: spans_def)
  consider e where "x = Raise e" | k b c' where "recv_into io (m_channel s) (m_body s) = Some (Inr (k, b), c')"
    using p by (auto simp: new_body_pass_def Let_def split: option.splits sum.splits prod.splits)
  then show thesis
  proof cases
    case 1
    then show thesis by (rule that(2))
  next
    case 2
    obtain d where d: "length d = nat k" "length d \<le> q - r" "- (2 ^ 63) \<le> k" "valid c'"
      "incoming (m_channel s) = d @ incoming c'" "spans b (memcpy_at ys r d) r q"
      "take (r + length d) (memcpy_at ys r d) = take r ys @ d"
      using recv_into_value [OF v 2 b] by blast
    have eq: "of_int k = (of_nat (q - r) :: u64) \<longleftrightarrow> k = int (q - r)"
      using d(1-3) q by (intro count_is_nat) simp_all
    have "local_contents (set_position 0 b) = take r ys @ d" if "k = int (q - r)"
    proof -
      have "r + length d = q" using d(1) q that by simp
      then show ?thesis using spans_contents [OF spans_zero [OF d(6)]] d(7) by simp
    qed
    then have "(k = int (q - r) \<and> x = Message (take r ys @ d) \<and> s' = s\<lparr>m_channel := c', m_body := set_position 0 b\<rparr>) \<or>
       (0 < k \<and> x = Again 0 \<and> s' = part k (s\<lparr>m_channel := c', m_body := b\<rparr>)) \<or> x = Blocked"
      using p 2 eq need by (auto simp: new_body_pass_def Let_def split: if_splits)
    then show thesis using that(1) [OF d(4,5,1,2,6,7)] by blast
  qed
qed

text \<open>A request whose body has a buffer of its own: in however many pieces it comes, what is returned is the body.\<close>

lemma request_body_pieces:
  assumes "body_loop (request_body_pass io) st = Some (Inr (Some m), st')"
    and "valid (m_channel st)" "\<not> m_chunked st" "m_new_body_buffer st" "spans (m_body st) xs p q"
    "m_body_size st = of_nat q" "q < 2 ^ 32"
  shows "length m = q \<and> (\<exists>d. m = take p xs @ d \<and> incoming (m_channel st) = d @ incoming (m_channel st'))"
proof -
  let ?I = "\<lambda>s. valid (m_channel s) \<and> \<not> m_chunked s \<and> m_new_body_buffer s \<and> m_body_size s = of_nat q \<and>
    (\<exists>ys r d. spans (m_body s) ys r q \<and> take r ys = take p xs @ d \<and> incoming (m_channel st) = d @ incoming (m_channel s))"
  show ?thesis
  proof (rule body_loop_message [where I = ?I and Q = "\<lambda>s'. length m = q \<and> (\<exists>d. m = take p xs @ d \<and> incoming (m_channel st) = d @ incoming (m_channel s'))",
        OF assms(1)])
    show "?I st" using assms(2-6) by auto
  next
    fix s x s'
    assume I: "?I s" and p: "request_body_pass io s = Some (x, s')" and x: "x = Body \<or> (\<exists>n. x = Again n)"
    have p': "new_body_pass advance_body io s = Some (x, s')" using I p by (simp add: request_body_pass_def)
    obtain ys r d where s: "spans (m_body s) ys r q" "take r ys = take p xs @ d" "incoming (m_channel st) = d @ incoming (m_channel s)"
      using I by blast
    show "?I s'"
    proof (rule new_body_cases [OF p' _ s(1)])
      fix n e b c'
      assume c: "valid c'" "incoming (m_channel s) = e @ incoming c'" "length e = nat n" "length e \<le> q - r"
        "spans b (memcpy_at ys r e) r q" "take (r + length e) (memcpy_at ys r e) = take r ys @ e"
        "(n = int (q - r) \<and> x = Message (take r ys @ e) \<and> s' = s\<lparr>m_channel := c', m_body := set_position 0 b\<rparr>) \<or>
         (0 < n \<and> x = Again 0 \<and> s' = advance_body n (s\<lparr>m_channel := c', m_body := b\<rparr>)) \<or> x = Blocked"
      then have n: "0 < n" "s' = advance_body n (s\<lparr>m_channel := c', m_body := b\<rparr>)" using x by auto
      have r: "r \<le> q" using s(1) by (simp add: spans_def)
      have "position b + of_int n = of_nat (r + length e)" using spans_position [OF c(5)] c(3) n(1) by simp
      then have "spans (m_body s') (memcpy_at ys r e) (r + length e) q"
        using spans_set_position [OF c(5), of "r + length e"] c(4) r n(2) by (simp add: advance_body_def local_advance_def)
      moreover have "take (r + length e) (memcpy_at ys r e) = take p xs @ (d @ e)" using c(6) s(2) by simp
      moreover have "incoming (m_channel st) = (d @ e) @ incoming (m_channel s')" using s(3) c(2) n(2) by (simp add: advance_body_def)
      ultimately show "?I s'" using I c(1) n(2) by (auto simp: advance_body_def)
    qed (use I x assms(7) in auto)
  next
    fix s s'
    assume I: "?I s" and p: "request_body_pass io s = Some (Message m, s')"
    have p': "new_body_pass advance_body io s = Some (Message m, s')" using I p by (simp add: request_body_pass_def)
    obtain ys r d where s: "spans (m_body s) ys r q" "take r ys = take p xs @ d" "incoming (m_channel st) = d @ incoming (m_channel s)"
      using I by blast
    show "length m = q \<and> (\<exists>d. m = take p xs @ d \<and> incoming (m_channel st) = d @ incoming (m_channel s'))"
    proof (rule new_body_cases [OF p' _ s(1)])
      fix n e b c'
      assume c: "incoming (m_channel s) = e @ incoming c'" "length e = nat n" 
        "(n = int (q - r) \<and> Message m = Message (take r ys @ e) \<and> s' = s\<lparr>m_channel := c', m_body := set_position 0 b\<rparr>) \<or>
         (0 < n \<and> Message m = Again 0 \<and> s' = advance_body n (s\<lparr>m_channel := c', m_body := b\<rparr>)) \<or> Message m = Blocked"
      then have m: "m = take r ys @ e" "n = int (q - r)" "m_channel s' = c'" by auto
      have "length m = q" using m c(2) s(1) by (simp add: spans_def)
      then show ?thesis using m c(1) s(2,3) by auto
    qed (use I assms(7) in auto)
  qed
qed

text \<open>A response: after a part of its body was received on its own it is never returned.\<close>

lemma response_body_stuck:
  assumes "valid (m_channel st)" "\<not> m_chunked st" "m_new_body_buffer st" "spans (m_body st) xs p q"
    "m_body_size st = of_nat q" "q < 2 ^ 32" and less: "length (incoming (m_channel st)) < q - p"
  shows "body_loop (response_body_pass io) st \<noteq> Some (Inr (Some m), st')"
proof
  assume l: "body_loop (response_body_pass io) st = Some (Inr (Some m), st')"
  let ?I = "\<lambda>s. valid (m_channel s) \<and> \<not> m_chunked s \<and> m_new_body_buffer s \<and> m_body_size s = of_nat q \<and>
    (\<exists>ys. spans (m_body s) ys p q) \<and> length (incoming (m_channel s)) < q - p"
  show False
  proof (rule body_loop_message [where I = ?I and Q = "\<lambda>_. False", OF l])
    show "?I st" using assms by auto
  next
    fix s x s'
    assume I: "?I s" and p: "response_body_pass io s = Some (x, s')" and x: "x = Body \<or> (\<exists>n. x = Again n)"
    have p': "new_body_pass advance_buffer io s = Some (x, s')" using I p by (simp add: response_body_pass_def)
    obtain ys where s: "spans (m_body s) ys p q" using I by blast
    show "?I s'"
      by (rule new_body_cases [OF p' _ s]) (use I x assms(6) in \<open>auto simp: advance_buffer_def\<close>)
  next
    fix s s'
    assume I: "?I s" and p: "response_body_pass io s = Some (Message m, s')"
    have p': "new_body_pass advance_buffer io s = Some (Message m, s')" using I p by (simp add: response_body_pass_def)
    obtain ys where s: "spans (m_body s) ys p q" using I by blast
    show False by (rule new_body_cases [OF p' _ s]) (use I assms(6) in auto)
  qed
qed

lemma response_body_lost:
  assumes "valid (m_channel st)" "\<not> m_chunked st" "m_new_body_buffer st" "spans (m_body st) xs p q"
    "m_body_size st = of_nat q" "q < 2 ^ 32" "length (incoming (m_channel st)) = q - p"
    and part: "response_body_pass io st = Some (Again k, st1)"
  shows "body_loop (response_body_pass io) st \<noteq> Some (Inr (Some m), st')"
proof -
  have p': "new_body_pass advance_buffer io st = Some (Again k, st1)" using assms(2,3) part by (simp add: response_body_pass_def)
  have "body_loop (response_body_pass io) st1 \<noteq> Some (Inr (Some m), st')"
  proof (rule new_body_cases [OF p' assms(1,4,5,6)])
    fix n d b c'
    assume c: "valid c'" "incoming (m_channel st) = d @ incoming c'" "length d = nat n" "spans b (memcpy_at xs p d) p q"
      "(n = int (q - p) \<and> Again k = Message (take p xs @ d) \<and> st1 = st\<lparr>m_channel := c', m_body := set_position 0 b\<rparr>) \<or>
       (0 < n \<and> Again k = Again 0 \<and> st1 = advance_buffer n (st\<lparr>m_channel := c', m_body := b\<rparr>)) \<or> Again k = Blocked"
    then have "0 < n" "st1 = advance_buffer n (st\<lparr>m_channel := c', m_body := b\<rparr>)" by auto
    then show ?thesis
      using c(1-4) assms by (intro response_body_stuck [of st1 "memcpy_at xs p d" p q]) (auto simp: advance_buffer_def)
  qed simp
  then show ?thesis using part by (simp add: body_loop.simps [of _ st])
qed

text \<open>An iteration that receives the body behind the header.\<close>

lemma same_buffer_cases:
  assumes p: "same_buffer_pass part io s = Some (x, s')" and v: "valid (m_channel s)" and b: "spans (m_buffer s) ys r q"
    and n: "m_body_size s + m_header_size s = of_nat t" "r \<le> t" "t < 2 ^ 32" and less: "length (incoming (m_channel s)) \<le> t - r"
  obtains n d b c' where "valid c'" "incoming (m_channel s) = d @ incoming c'" "length d = nat n" "spans b (memcpy_at ys r d) r q"
      "(n = int (t - r) \<and> (\<exists>m. x = Message m)) \<or> (n \<noteq> int (t - r) \<and> 0 < n \<and> x = Again 0 \<and> s' = part n (s\<lparr>m_channel := c', m_buffer := b\<rparr>)) \<or> x = Blocked"
  | e where "x = Raise e"
proof -
  have need: "(ucast (m_body_size s + m_header_size s) :: u64) - position (m_buffer s) = of_nat (t - r)"
    unfolding n(1) ucast_small [OF n(3)] spans_position [OF b] by (rule of_nat_diff_small [OF n(2)])
  consider e where "x = Raise e" | k b c' where "recv_into io (m_channel s) (m_buffer s) = Some (Inr (k, b), c')"
    using p by (auto simp: same_buffer_pass_def Let_def split: option.splits sum.splits prod.splits)
  then show thesis
  proof cases
    case 1
    then show thesis by (rule that(2))
  next
    case 2
    obtain d where d: "length d = nat k" "- (2 ^ 63) \<le> k" "valid c'"
      "incoming (m_channel s) = d @ incoming c'" "spans b (memcpy_at ys r d) r q"
      using recv_into_value [OF v 2 b] by blast
    have "length d \<le> t - r" using less d(4) by simp
    then have eq: "of_int k = (of_nat (t - r) :: u64) \<longleftrightarrow> k = int (t - r)"
      using d(1,2) n(3) by (intro count_is_nat) simp_all
    have "(k = int (t - r) \<and> (\<exists>m. x = Message m)) \<or> (k \<noteq> int (t - r) \<and> 0 < k \<and> x = Again 0 \<and> s' = part k (s\<lparr>m_channel := c', m_buffer := b\<rparr>)) \<or> x = Blocked"
      using p 2 eq need by (auto simp: same_buffer_pass_def Let_def split: if_splits)
    then show thesis using that(1) [OF d(3,4,1,5)] by blast
  qed
qed

text \<open>A request with a small body: the same.\<close>

lemma request_body_stuck:
  assumes "valid (m_channel st)" "\<not> m_chunked st" "\<not> m_new_body_buffer st" "spans (m_buffer st) xs p q"
    "m_body_size st + m_header_size st = of_nat t" "p \<le> t" "t < 2 ^ 32" and less: "length (incoming (m_channel st)) < t - p"
  shows "body_loop (request_body_pass io) st \<noteq> Some (Inr (Some m), st')"
proof
  assume l: "body_loop (request_body_pass io) st = Some (Inr (Some m), st')"
  let ?I = "\<lambda>s. valid (m_channel s) \<and> \<not> m_chunked s \<and> \<not> m_new_body_buffer s \<and> m_body_size s + m_header_size s = of_nat t \<and>
    (\<exists>ys. spans (m_buffer s) ys p q) \<and> length (incoming (m_channel s)) < t - p"
  show False
  proof (rule body_loop_message [where I = ?I and Q = "\<lambda>_. False", OF l])
    show "?I st" using assms by auto
  next
    fix s x s'
    assume I: "?I s" and p: "request_body_pass io s = Some (x, s')" and x: "x = Body \<or> (\<exists>n. x = Again n)"
    have p': "same_buffer_pass advance_body io s = Some (x, s')" using I p by (simp add: request_body_pass_def)
    obtain ys where s: "spans (m_buffer s) ys p q" using I by blast
    show "?I s'"
      by (rule same_buffer_cases [OF p' _ s _ assms(6,7)]) (use I x in \<open>auto simp: advance_body_def\<close>)
  next
    fix s s'
    assume I: "?I s" and p: "request_body_pass io s = Some (Message m, s')"
    have p': "same_buffer_pass advance_body io s = Some (Message m, s')" using I p by (simp add: request_body_pass_def)
    obtain ys where s: "spans (m_buffer s) ys p q" using I by blast
    show False by (rule same_buffer_cases [OF p' _ s _ assms(6,7)]) (use I in auto)
  qed
qed

lemma request_body_lost:
  assumes "valid (m_channel st)" "\<not> m_chunked st" "\<not> m_new_body_buffer st" "spans (m_buffer st) xs p q"
    "m_body_size st + m_header_size st = of_nat t" "p \<le> t" "t < 2 ^ 32" "length (incoming (m_channel st)) = t - p"
    and part: "request_body_pass io st = Some (Again k, st1)"
  shows "body_loop (request_body_pass io) st \<noteq> Some (Inr (Some m), st')"
proof -
  have p': "same_buffer_pass advance_body io st = Some (Again k, st1)" using assms(2,3) part by (simp add: request_body_pass_def)
  have "body_loop (request_body_pass io) st1 \<noteq> Some (Inr (Some m), st')"
  proof (rule same_buffer_cases [OF p' assms(1,4,5,6,7)])
    fix n d b c'
    assume c: "valid c'" "incoming (m_channel st) = d @ incoming c'" "length d = nat n" "spans b (memcpy_at xs p d) p q"
      "(n = int (t - p) \<and> (\<exists>m. Again k = Message m)) \<or>
       (n \<noteq> int (t - p) \<and> 0 < n \<and> Again k = Again 0 \<and> st1 = advance_body n (st\<lparr>m_channel := c', m_buffer := b\<rparr>)) \<or> Again k = Blocked"
    then have "0 < n" "st1 = advance_body n (st\<lparr>m_channel := c', m_buffer := b\<rparr>)" by auto
    then show ?thesis
      using c(1-4) assms by (intro request_body_stuck [of st1 "memcpy_at xs p d" p q t]) (auto simp: advance_body_def)
  qed (use assms(8) in auto)
  then show ?thesis using part by (simp add: body_loop.simps [of _ st])
qed

end

text \<open>A part of a header, and then a channel that would block.\<close>

lemma header_blocks:
  assumes st: "m_channel st = (d, s)" "d \<noteq> []" "spans (m_buffer st) xs p 8192" "length xs = 8192"
    and l: "p + length d \<le> 8192" "length d < 8192"
    and inc: "parse_head S (take (length d) (memcpy_at xs p d)) 30 0 = Some (- 2, None)"
  shows "\<exists>b. header_loop S loopback bp 0 st = Some (Inr None, st\<lparr>m_channel := ([], s), m_buffer := b\<rparr>) \<and>
    spans b (memcpy_at xs p d) (length d) 8192"
proof -
  have lt: "p < 8192" using l(1) st(2) by (cases d) simp_all
  have nz: "fst (m_channel st) \<noteq> []" using st(1,2) by simp
  have dt: "take (8192 - p) (fst (m_channel st)) = d" "drop (8192 - p) (fst (m_channel st)) = []" using st(1) l(1) by simp_all
  have "snd c' = snd c" if "recv_into loopback c b = Some (r, c')" for c c' b r
    using that by (cases c) (auto simp: recv_into_def loopback_def Let_def split: if_splits)
  note keeps = this
  obtain c' where c': "recv_into loopback (m_channel st) (m_buffer st) = Some (Inr (int (length d), local_write d (m_buffer st)), c')"
    "fst c' = []"
    using loop_prompt.recv_all [OF TrueI st(3) lt nz] unfolding dt by blast
  have "snd c' = s" using keeps [OF c'(1)] st(1) by simp
  then have c2: "c' = ([], s)" using c'(2) by (cases c') simp
  let ?xs = "memcpy_at xs p d"
  let ?b = "local_write d (m_buffer st)"
  have b: "spans ?b ?xs p 8192" by (rule spans_write [OF st(3)]) (use l(1) st(4) in simp)
  have b0: "spans (set_position 0 ?b) ?xs 0 8192" by (rule spans_zero [OF b])
  have b1: "spans (set_position (of_nat (length d)) (set_position 0 ?b)) ?xs (length d) 8192"
    by (rule spans_set_position [OF b0]) (use l(2) in simp)
  have u: "0 + of_int (int (length d)) = (of_nat (length d) :: u64)" "unat (of_nat (length d) :: u64) = length d"
    using l(2) by (simp_all add: unat_of_nat_eq)
  have arr: "array (set_position 0 ?b) = ?xs" using b0 by (simp add: spans_def)
  have bs: "buffer_size (set_position 0 ?b) = of_nat 8192" using spans_size(1) [OF b0] by simp
  have ne: "(of_nat (length d) :: u64) \<noteq> of_nat 8192"
  proof
    assume "(of_nat (length d) :: u64) = of_nat 8192"
    then have "length d = unat (of_nat 8192 :: u64)" using u(2) by metis
    then show False using l(2) by simp
  qed
  let ?st = "st\<lparr>m_channel := ([], s), m_buffer := set_position (of_nat (length d)) (set_position 0 ?b)\<rparr>"
  have inside: "\<not> length (memcpy_at (array (m_buffer st)) (unat (m_position (m_buffer st))) d) < length d" "\<not> length ?xs < length d"
    by (simp_all add: memcpy_at_def)
  have 1: "header_pass S loopback 0 st = Some (Again (of_nat (length d)), ?st)"
    using c'(1) c2 st(2) inc ne bs inside by (simp add: header_pass_def Let_def u arr)
  have "buffer_size (m_buffer ?st) = of_nat (8192 - length d)" using spans_size(1) [OF b1] by simp
  have "header_pass S loopback (of_nat (length d)) ?st = Some (Blocked, ?st\<lparr>m_buffer := local_write [] (m_buffer ?st)\<rparr>)"
    using spans_room [OF b1] by (simp add: header_pass_def recv_into_def loopback_def)
  moreover have "local_write [] (m_buffer ?st) = m_buffer ?st" by (simp add: local_write_def)
  ultimately have 2: "header_pass S loopback (of_nat (length d)) ?st = Some (Blocked, ?st)" by simp
  have "header_loop S loopback bp 0 st = Some (Inr None, ?st)"
    using 1 2 by (simp add: header_loop.simps [of _ _ _ 0 st] header_loop.simps [of _ _ _ _ ?st])
  then show ?thesis using b1 by blast
qed

text \<open>A head that announces chunks, and what follows it.\<close>

definition chunked_request :: "bytes \<Rightarrow> bytes \<Rightarrow> (bytes \<times> bytes) list \<Rightarrow> bytes" where
  "chunked_request meth path hs = print_request meth path 1 (chunked_fields hs)"

definition chunked_response :: "nat \<Rightarrow> bytes \<Rightarrow> (bytes \<times> bytes) list \<Rightarrow> bytes" where
  "chunked_response code msg hs =
     print_response 1 (code div 100) (code div 10 mod 10) (code mod 10) msg (chunked_fields hs)"

definition fields_ok :: "(bytes \<times> bytes) list \<Rightarrow> bool" where
  "fields_ok hs \<longleftrightarrow> headers_ok hs \<and> length hs < 30 \<and> (\<forall>h \<in> set hs. plain_field h)"

definition chunks_ok :: "chunk list \<Rightarrow> bytes \<Rightarrow> bytes \<Rightarrow> bool" where
  "chunks_ok cs ds ext \<longleftrightarrow> (\<forall>chk \<in> set cs. chunk_ok chk) \<and> size_line_ok 0 ds ext"

lemma chunked_fields_ok: "headers_ok hs \<Longrightarrow> headers_ok (chunked_fields hs)"
proof -
  assume "headers_ok hs"
  moreover have "token_chars (str ''Transfer-Encoding'')" by (simp add: token_chars_def token_char_map_def)
  moreover have "value_ok (str ''chunked'')"
    by (simp add: value_ok_def line_chars_def eol_act_def blank_act_def IS_PRINTABLE_ASCII_def)
  ultimately show ?thesis by (auto simp: headers_ok_def chunked_fields_def)
qed

lemma parses_chunked_request:
  assumes "token_chars meth" "path_chars path" "fields_ok hs" "length (chunked_request meth path hs) \<le> 8192"
  shows "parses request_side (chunked_request meth path hs) (chunked_fields hs) (\<lambda>st. st\<lparr>m_method := meth, m_path := path\<rparr>)"
  unfolding chunked_request_def
  by (rule parses_request) (use assms chunked_fields_ok in \<open>simp_all add: fields_ok_def chunked_request_def\<close>, simp add: chunked_fields_def)

lemma parses_chunked_response:
  assumes "100 \<le> code" "code < 1000" "msg_ok msg" "fields_ok hs" "length (chunked_response code msg hs) \<le> 8192"
  shows "parses response_side (chunked_response code msg hs) (chunked_fields hs) (\<lambda>st. st\<lparr>m_status := int code, m_message := msg\<rparr>)"
proof -
  have "headers_ok (chunked_fields hs)" "length (chunked_fields hs) \<le> 30"
    using assms(4) chunked_fields_ok by (simp_all add: fields_ok_def chunked_fields_def)
  then show ?thesis
    using parses_response [OF assms(1-3)] assms(5) unfolding chunked_response_def by blast
qed

lemma chunks_consumed:
  assumes "chunks_ok cs ds ext"
  shows "\<exists>d. consume zero_decoder (print_message cs ds ext None @ rest) = Fin d (concat (map chunk_data cs)) rest"
  using assms by (intro consume_message) (simp_all add: chunks_ok_def zero_decoder_def fresh_def)

section \<open>Properties\<close>

text \<open>C30: Whatever the channel does with each call, the client's and the server's \<open>send\<close> and any number of \<open>send_more\<close>
  keep the order: what the channel has accepted followed by what is left in the send buffer is the head of the message
  and its body, and in the state \<open>send_complete\<close> all of it has been accepted.\<close>

theorem http_send_delivers:
  assumes "channel_laws io valid sent incoming" and "valid (m_channel st)" and "http_send_runs io n st1 = Some st2"
  shows "(send_request io meth path hdrs body st = Some (r, st1) \<longrightarrow> length (request_head meth path hdrs body @ body) < 2 ^ 63 \<longrightarrow>
      http_sending valid sent (sent (m_channel st) @ request_head meth path hdrs body @ body) st2) \<and>
    (send_response io code msg hdrs body st = Some (r, st1) \<longrightarrow> length (response_head (unat code) msg hdrs body @ body) < 2 ^ 63 \<longrightarrow>
      http_sending valid sent (sent (m_channel st) @ response_head (unat code) msg hdrs body @ body) st2)"
proof -
  have ne: "request_head meth path hdrs body \<noteq> []" "response_head (unat code) msg hdrs body \<noteq> []"
    by (simp_all add: request_head_def response_head_def CRLF_def)
  show ?thesis
    using channel_laws.http_send_all [OF assms(1) _ _ ne(1) _ _ assms(3), where st = "st\<lparr>m_state := sending_body\<rparr>" and body = body and r = r]
      channel_laws.http_send_all [OF assms(1) _ _ ne(2) _ _ assms(3), where st = "st\<lparr>m_state := sending_body\<rparr>" and body = body and r = r] assms(2)
    by (simp add: send_request_def send_response_def)
qed

theorem http_send_delivers_witness:
  "\<exists>r st1. send_request loopback [71] [47] [] [1] (http_new ([], [])) = Some (r, st1) \<and>
    http_sending (\<lambda>_. True) snd (request_head [71] [47] [] [1] @ [1]) st1"
proof -
  let ?st = "http_new ([], []) :: (bytes \<times> bytes) http"
  obtain r st1 where 1: "send_request loopback [71] [47] [] [1] ?st = Some (r, st1)"
    by (cases "m_channel ?st") (auto simp: send_request_def http_send_def http_push_def loopback_def Let_def)
  have "length (request_head [71] [47] [] [1] @ [1]) < 2 ^ 63"
    by (simp add: request_head_def content_length_def to_string.simps CRLF_def)
  moreover have "snd (m_channel ?st) = []" by (simp add: http_new_def http_reset_def)
  ultimately show ?thesis
    using 1 http_send_delivers [OF loop.channel_laws_axioms TrueI, of 0 st1 st1 "[71]" "[47]" "[]" "[1]" ?st r] by auto
qed

text \<open>C31: On a channel that delivers what is there, a request written by \<open>send_request\<close> (headers with an empty value are
  not sent) and a response written by \<open>send_response\<close> are returned by \<open>recv_request\<close> and \<open>recv_response\<close> as they
  were, with the length of the body among the headers: a body of up to 10 MB, whether it is received together with the
  header or into a buffer of its own.\<close>

theorem http_messages_received:
  assumes "prompt_channel io valid sent incoming ready" and "idle st" and "ready (m_channel st)"
  shows "(incoming (m_channel st) = request_head meth path hdrs body @ body \<and> request_ok meth path hdrs body \<longrightarrow>
      (\<exists>st'. recv_request io st =
        Some (Inr (meth, path, mset (with_length (filter (\<lambda>h. snd h \<noteq> []) hdrs) body), body), st') \<and>
        incoming (m_channel st') = [])) \<and>
    (incoming (m_channel st) = response_head code msg hdrs body @ body \<and> response_ok code msg hdrs body \<longrightarrow>
      (\<exists>st'. recv_response io st = Some (Inr (int code, msg, mset (with_length hdrs body), body), st') \<and>
        incoming (m_channel st') = []))"
  using prompt_channel.request_received [OF assms] prompt_channel.response_received [OF assms] by blast

theorem http_messages_received_witness:
  "\<exists>st'. recv_request loopback (http_new (request_head [71, 69, 84] [47] [([65], [66]), ([67], [])] [1, 2] @ [1, 2], [])) =
    Some (Inr ([71, 69, 84], [47], mset [([65], [66]), (str ''Content-Length'', [50])], [1, 2]), st')"
proof -
  let ?st = "http_new (request_head [71, 69, 84] [47] [([65], [66]), ([67], [])] [1, 2] @ [1, 2], []) :: (bytes \<times> bytes) http"
  have c: "fst (m_channel ?st) = request_head [71, 69, 84] [47] [([65], [66]), ([67], [])] [1, 2] @ [1, 2]"
    by (simp add: http_new_def http_reset_def)
  have ok: "request_ok [71, 69, 84] [47] [([65], [66]), ([67], [])] [1, 2]"
    by (simp add: request_ok_def token_chars_def token_char_map_def path_chars_def advance_act_def IS_PRINTABLE_ASCII_def
        headers_ok_def value_ok_def line_chars_def eol_act_def blank_act_def plain_field_def isequal_def request_head_def
        header_text_def content_length_def to_string.simps CRLF_def)
  show ?thesis
    using http_messages_received [OF loopback_prompt http_new_idle [of "(request_head [71, 69, 84] [47] [([65], [66]), ([67], [])] [1, 2] @ [1, 2], [])"] TrueI, where meth = "[71, 69, 84]" and path = "[47]"
        and hdrs = "[([65], [66]), ([67], [])]" and body = "[1, 2]"] c ok
    by (simp add: with_length_def to_string.simps) blast
qed

text \<open>C32: On such a channel a request or a response that announces chunks is returned with the data of its chunks joined,
  provided that at least one character follows the chunks and that they do not end exactly where the receive buffer
  is full.\<close>

theorem http_chunked_received:
  assumes "prompt_channel io valid sent incoming ready" and "idle st" and "ready (m_channel st)"
    and "incoming (m_channel st) = head @ print_message cs ds ext None @ rest" and "chunks_ok cs ds ext" and "rest \<noteq> []"
    and "length head < 8192" and "length (head @ print_message cs ds ext None) \<noteq> 8192"
    and "length (print_message cs ds ext None @ rest) \<le> 10485760" and "fields_ok hs"
  shows "(head = chunked_request meth path hs \<and> token_chars meth \<and> path_chars path \<longrightarrow>
      (\<exists>st'. recv_request io st = Some (Inr (meth, path, mset (chunked_fields hs), concat (map chunk_data cs)), st'))) \<and>
    (head = chunked_response code msg hs \<and> 100 \<le> code \<and> code < 1000 \<and> msg_ok msg \<longrightarrow>
      (\<exists>st'. recv_response io st = Some (Inr (int code, msg, mset (chunked_fields hs), concat (map chunk_data cs)), st')))"
proof -
  let ?msg = "print_message cs ds ext None"
  obtain d where d: "consume zero_decoder (?msg @ rest) = Fin d (concat (map chunk_data cs)) rest"
    using chunks_consumed [OF assms(5)] by blast
  have ne: "length head + length ?msg \<noteq> 8192" using assms(8) by simp
  have pl: "\<forall>h \<in> set hs. plain_field h" using assms(10) by (simp add: fields_ok_def)
  have le: "length head \<le> 8192" using assms(7) by simp
  note recv = prompt_channel.recv_chunked [OF assms(1-4) _ _ assms(7) pl _ d assms(6) ne assms(9)]
  show ?thesis
  proof (intro conjI impI)
    assume h: "head = chunked_request meth path hs \<and> token_chars meth \<and> path_chars path"
    then have "parses request_side head (chunked_fields hs) (\<lambda>st. st\<lparr>m_method := meth, m_path := path\<rparr>)"
      using parses_chunked_request assms(10) le by blast
    from recv [OF this quiet_request bodies_chunked(1)]
    show "\<exists>st'. recv_request io st = Some (Inr (meth, path, mset (chunked_fields hs), concat (map chunk_data cs)), st')"
      by (auto simp: recv_request_def head_of_def)
  next
    assume h: "head = chunked_response code msg hs \<and> 100 \<le> code \<and> code < 1000 \<and> msg_ok msg"
    then have "parses response_side head (chunked_fields hs) (\<lambda>st. st\<lparr>m_status := int code, m_message := msg\<rparr>)"
      using parses_chunked_response assms(10) le by blast
    from recv [OF this quiet_response bodies_chunked(2)]
    show "\<exists>st'. recv_response io st = Some (Inr (int code, msg, mset (chunked_fields hs), concat (map chunk_data cs)), st')"
      by (auto simp: recv_response_def head_of_def)
  qed
qed

theorem http_chunked_received_witness:
  "\<exists>st'. recv_request loopback (http_new (chunked_request [71] [47] [] @ [50, 13, 10, 7, 8, 13, 10, 48, 13, 10, 13, 10], [])) =
    Some (Inr ([71], [47], mset [(str ''Transfer-Encoding'', str ''chunked'')], [7, 8]), st')"
proof -
  let ?text = "chunked_request [71] [47] [] @ [50, 13, 10, 7, 8, 13, 10, 48, 13, 10, 13, 10]"
  let ?st = "http_new (?text, []) :: (bytes \<times> bytes) http"
  have m: "print_message [([50], [13], [7, 8])] [48] [13] None = [50, 13, 10, 7, 8, 13, 10, 48, 13, 10]"
    by (simp add: print_message_def print_chunk_def)
  have c: "fst (m_channel ?st) = chunked_request [71] [47] [] @ print_message [([50], [13], [7, 8])] [48] [13] None @ [13, 10]"
    unfolding m by (simp add: http_new_def http_reset_def)
  have ok: "chunks_ok [([50], [13], [7, 8])] [48] [13]"
    by (simp add: chunks_ok_def chunk_ok_def size_line_ok_def hex_digit_def decode_hex_def hex_value_def)
  have l: "length (chunked_request [71] [47] []) = 44"
    by (simp add: chunked_request_def print_request_def print_headers_def chunked_fields_def http_version_def CRLF_def)
  have f: "fields_ok []" by (simp add: fields_ok_def headers_ok_def)
  have t: "token_chars [71]" "path_chars [47]"
    by (simp_all add: token_chars_def token_char_map_def path_chars_def advance_act_def IS_PRINTABLE_ASCII_def)
  show ?thesis
    using http_chunked_received [OF loopback_prompt http_new_idle [of "(?text, [])"] TrueI c ok, where hs = "[]" and meth = "[71]"
        and path = "[47]"] l f t
    unfolding m by (simp add: chunked_fields_def chunk_data_def)
qed

text \<open>If nothing of the chunks comes with the head that announces them, the message is refused: what is decoded is the
  zeros of the new buffer.\<close>

theorem http_chunked_alone_refused:
  assumes "prompt_channel io valid sent incoming ready" and "idle st" and "ready (m_channel st)"
    and "incoming (m_channel st) = chunked_request meth path hs" and "token_chars meth" and "path_chars path"
    and "fields_ok hs" and "length (chunked_request meth path hs) \<le> 8192"
  shows "\<exists>st'. recv_request io st = Some (Inl (http_error ''http: unable to parse chunked content''), st')"
proof -
  have pl: "\<forall>h \<in> set hs. plain_field h" using assms(7) by (simp add: fields_ok_def)
  show ?thesis
    using prompt_channel.recv_chunked_alone [OF assms(1-4) parses_chunked_request [OF assms(5-8)] quiet_request assms(8) pl
        bodies_chunked(1)] by (auto simp: recv_request_def)
qed

theorem http_chunked_alone_refused_witness:
  "\<exists>st'. recv_request loopback (http_new (chunked_request [71] [47] [], [])) =
    Some (Inl (http_error ''http: unable to parse chunked content''), st')"
proof -
  let ?st = "http_new (chunked_request [71] [47] [], []) :: (bytes \<times> bytes) http"
  have c: "fst (m_channel ?st) = chunked_request [71] [47] []" by (simp add: http_new_def http_reset_def)
  have l: "length (chunked_request [71] [47] []) \<le> 8192"
    by (simp add: chunked_request_def print_request_def print_headers_def chunked_fields_def http_version_def CRLF_def)
  have f: "fields_ok []" by (simp add: fields_ok_def headers_ok_def)
  have t: "token_chars [71]" "path_chars [47]"
    by (simp_all add: token_chars_def token_char_map_def path_chars_def advance_act_def IS_PRINTABLE_ASCII_def)
  show ?thesis by (rule http_chunked_alone_refused [OF loopback_prompt http_new_idle TrueI c t f l])
qed


text \<open>A server in the middle of a body of two characters.\<close>

definition half_way :: "nat \<Rightarrow> bytes \<Rightarrow> (bytes \<times> bytes) http" where
  "half_way n i = (http_new (i, []))\<lparr>m_state := waiting_body, m_new_body_buffer := True, m_body := local_sized n, m_body_size := of_nat n\<rparr>"


lemma half_way_state [simp]:
  "m_state (half_way n i) = waiting_body" "m_new_body_buffer (half_way n i)" "\<not> m_chunked (half_way n i)"
  "m_body_size (half_way n i) = of_nat n" "m_channel (half_way n i) = (i, [])"
  by (simp_all add: half_way_def http_new_def http_reset_def)






text \<open>A header that arrives in two parts with a blocked read between them is lost: the second call forgets how much of
  it had been received, parses only as many characters from the start of the buffer as have come now, and blocks,
  although the channel has delivered all of the request.\<close>

theorem http_split_header_lost:
  assumes "idle st" and "m_channel st = (a, s)" and "request_head meth path hdrs [] = a @ b" and "a \<noteq> []" and "b \<noteq> []"
    and "request_ok meth path hdrs []"
  shows "\<exists>st1 st2. recv_request loopback st = Some (Inr ([], [], {#}, []), st1) \<and> m_channel st1 = ([], s) \<and>
    recv_request loopback (set_channel (b, s) st1) = Some (Inr ([], [], {#}, []), st2) \<and> m_channel st2 = ([], s)"
proof -
  let ?hs = "filter (\<lambda>h. snd h \<noteq> []) hdrs"
  have ok: "token_chars meth" "path_chars path" "headers_ok ?hs" "\<forall>h \<in> set hdrs. plain_field h" "length hdrs < 30"
    "length (a @ b) \<le> 8192"
    using assms(3,6) by (simp_all add: request_ok_def)
  have h: "print_request meth path 1 ?hs = a @ b"
    using request_head_print [OF plain_no_length [OF ok(4)], of meth path "[]"] assms(3) by (simp add: with_length_def)
  have n: "length ?hs \<le> 30" using ok(5) length_filter_le [of "\<lambda>h. snd h \<noteq> []" hdrs] by linarith
  have l: "length (print_request meth path 1 ?hs) < 2 ^ 31" using ok(6) unfolding h by simp
  have inc: "parse_head request_side c 30 0 = Some (- 2, None)" if "a @ b = c @ d" "d \<noteq> []" for c d
    unfolding request_side_def using phr_request_prefix [OF ok(1,2) _ ok(3) n l h [unfolded that(1)] that(2)] by simp
  obtain xs where xs: "spans (m_buffer st) xs 0 8192" "length xs = 8192" using assms(1) by (auto simp: idle_def)
  have ln: "length a < 8192" "length b < 8192" using ok(6) assms(4,5) by (auto simp flip: length_greater_0_conv)
  have 1: "take (length a) (memcpy_at xs 0 a) = a" by (simp add: memcpy_at_def)
  obtain m1 where m1: "header_loop request_side loopback (request_body_pass loopback) 0 st =
      Some (Inr None, st\<lparr>m_channel := ([], s), m_buffer := m1\<rparr>)" "spans m1 (memcpy_at xs 0 a) (length a) 8192"
    using header_blocks [OF assms(2,4) xs, of request_side "request_body_pass loopback"] ln inc [OF refl assms(5)] unfolding 1 by auto
  let ?st1 = "st\<lparr>m_channel := ([], s), m_buffer := m1\<rparr>"
  let ?st2 = "set_channel (b, s) ?st1"
  have c2: "m_channel ?st2 = (b, s)" "spans (m_buffer ?st2) (memcpy_at xs 0 a) (length a) 8192"
    using m1(2) by (simp_all add: set_channel_def)
  have lx: "length (memcpy_at xs 0 a) = 8192" using xs(2) ln by simp
  have "take (length b) (memcpy_at (memcpy_at xs 0 a) (length a) b) = take (length b) (a @ b)"
    by (simp add: memcpy_at_def)
  moreover have "a @ b = take (length b) (a @ b) @ drop (length b) (a @ b)" by (rule append_take_drop_id [symmetric])
  moreover have "length b < length (a @ b)" using assms(4) by simp
  then have "drop (length b) (a @ b) \<noteq> []" by (simp only: drop_eq_Nil not_le)
  ultimately have inc2: "parse_head request_side (take (length b) (memcpy_at (memcpy_at xs 0 a) (length a) b)) 30 0 = Some (- 2, None)"
    using inc by metis
  obtain m2 where m2: "header_loop request_side loopback (request_body_pass loopback) 0 ?st2 =
      Some (Inr None, ?st2\<lparr>m_channel := ([], s), m_buffer := m2\<rparr>)"
    using header_blocks [OF c2(1) assms(5) c2(2) lx _ ln(2) inc2, of "request_body_pass loopback"] ok(6) by auto
  have w: "m_state st = waiting_header" "m_state ?st2 = waiting_header" using assms(1) by (simp_all add: idle_def set_channel_def)
  have "recv_request loopback st = Some (Inr ([], [], {#}, []), ?st1)"
    using m1(1) w(1) by (simp add: recv_request_def http_recv_def)
  moreover have "recv_request loopback ?st2 = Some (Inr ([], [], {#}, []), ?st2\<lparr>m_channel := ([], s), m_buffer := m2\<rparr>)"
    unfolding recv_request_def http_recv_def w(2) state_e.case m2 by simp
  ultimately show ?thesis by (intro exI [of _ ?st1] exI [of _ "?st2\<lparr>m_channel := ([], s), m_buffer := m2\<rparr>"]) simp
qed

theorem http_split_header_lost_witness:
  "\<exists>st1 st2. recv_request loopback (http_new ([71, 69], [])) = Some (Inr ([], [], {#}, []), st1) \<and> m_channel st1 = ([], []) \<and>
    recv_request loopback (set_channel (drop 2 (request_head [71, 69, 84] [47] [] []), []) st1) = Some (Inr ([], [], {#}, []), st2) \<and>
    m_channel st2 = ([], [])"
proof -
  have h: "request_head [71, 69, 84] [47] [] [] = [71, 69] @ drop 2 (request_head [71, 69, 84] [47] [] [])"
    by (simp add: request_head_def)
  have d: "drop 2 (request_head [71, 69, 84] [47] [] []) \<noteq> []" by (simp add: request_head_def)
  have ok: "request_ok [71, 69, 84] [47] [] []"
    by (simp add: request_ok_def token_chars_def token_char_map_def path_chars_def advance_act_def IS_PRINTABLE_ASCII_def
        headers_ok_def request_head_def CRLF_def)
  have c: "m_channel (http_new ([71, 69], [])) = ([71, 69], [])" by (simp add: http_new_def http_reset_def)
  show ?thesis by (rule http_split_header_lost [OF http_new_idle c h _ d ok]) simp
qed

end
