(* ===== verification/Ez_Http_Safe.thy ===== *)
theory Ez_Http_Safe
  imports Ez_Socket Ez_Http_Receive
begin

text \<open>
  The objects of \<open>ez::http\<close> under any use of them: a well-formedness invariant of their state, kept by every operation on
  every channel whose own calls are defined. From it: no operation is undefined, so nothing outside the arrays of the
  buffers is read, written or given to the channel, and the memory for one message is bounded.
\<close>

section \<open>Buffers stay inside their arrays\<close>

lemma ok_iff: "local_ok b \<longleftrightarrow> unat (m_position b) \<le> unat (m_size b) \<and> unat (m_size b) \<le> length (array b) \<and> unat (m_orig_size b) = length (array b)"
  by (auto simp: local_ok_def word_le_nat_alt)

lemma ok_position: "local_ok b \<Longrightarrow> local_ok (set_position n b)"
  by (auto simp: ok_iff set_position_def word_less_nat_alt)

lemma ok_size: "local_ok b \<Longrightarrow> m_position b \<le> n \<Longrightarrow> local_ok (set_size n b)"
  by (auto simp: ok_iff set_size_def word_le_nat_alt)

lemma set_array [simp]: "array (set_position n b) = array b" "array (set_size n b) = array b"
  by (simp_all add: set_position_def set_size_def)

lemma set_fields [simp]:
  "m_size (set_position n b) = m_size b" "m_orig_size (set_position n b) = m_orig_size b" "m_position (set_size n b) = m_position b"
  "m_orig_size (set_size n b) = m_orig_size b"
  by (simp_all add: set_position_def set_size_def)

lemma write_fields [simp]:
  "m_size (local_write d b) = m_size b" "m_orig_size (local_write d b) = m_orig_size b" "m_position (local_write d b) = m_position b"
  by (simp_all add: local_write_def)

lemma ok_room: "local_ok b \<Longrightarrow> unat (m_position b) + unat (buffer_size b) = unat (m_size b)"
  by (simp add: ok_iff unat_buffer_size word_le_nat_alt)

lemma ok_write:
  assumes "local_ok b" and "length d \<le> unat (buffer_size b)"
  shows "length (array (local_write d b)) = length (array b)" and "local_ok (local_write d b)"
proof -
  have "unat (m_position b) + length d \<le> length (array b)" using assms ok_room [OF assms(1)] by (simp add: ok_iff)
  then show "length (array (local_write d b)) = length (array b)" by (simp add: local_write_def)
  then show "local_ok (local_write d b)" using assms(1) by (simp add: ok_iff)
qed

lemma ok_sized: "n < 2 ^ 64 \<Longrightarrow> local_ok (local_sized n)"
  using local_of_bytes_ok [of "replicate n 0"] by (simp add: local_sized_def)

lemma sized_fields [simp]: "m_position (local_sized n) = 0" "m_size (local_sized n) = of_nat n" "length (array (local_sized n)) = n"
  by (simp_all add: local_sized_def local_of_bytes_def)

lemma position_at: "n \<le> m_size b \<Longrightarrow> m_position (set_position n b) = n"
  by (auto simp: set_position_def)

lemma unat_ucast32: "unat (ucast (a :: u32) :: u64) = unat a"
  using unsigned_less [of a, where 'a = nat] by (simp add: unsigned_ucast_eq take_bit_nat_eq_self)

section \<open>Well-formed states\<close>

definition http_ok :: "'c http \<Rightarrow> bool" where
  "http_ok st \<longleftrightarrow> m_recv_buffer_size st = 8192 \<and> m_max_request_body_size st = 10485760 \<and>
     local_ok (m_buffer st) \<and> length (array (m_buffer st)) = 8192 \<and>
     local_ok (m_body st) \<and> length (array (m_body st)) \<le> 10485760 \<and> local_ok (m_send_buffer st) \<and>
     good_decoder (m_chunked_decoder st) \<and> unat (m_header_size st) \<le> 8192 \<and>
     length (m_method st) \<le> 8192 \<and> length (m_path st) \<le> 8192 \<and> length (m_message st) \<le> 8192 \<and>
     (m_state st = waiting_body \<longrightarrow> unat (m_body_size st) \<le> 10485760)"

lemma good_zero: "good_decoder zero_decoder"
  by (simp add: good_decoder_def zero_decoder_def)

lemma ok_reset: "http_ok st \<Longrightarrow> http_ok (http_reset st)"
  using good_zero local_empty_ok by (simp add: http_ok_def http_reset_def ok_position ok_size position_at, simp add: local_empty_def)

lemma ok_new: "http_ok (http_new c)"
  unfolding http_new_def
  by (intro ok_reset) (simp add: http_ok_def ok_sized local_empty_ok good_zero, simp add: local_empty_def)

text \<open>What an iteration of a loop must leave: a well-formed state, no undefined behaviour, no message that is too long.\<close>

definition pass_ok :: "pass \<Rightarrow> 'c http \<Rightarrow> bool" where
  "pass_ok x st \<longleftrightarrow> http_ok st \<and>
     (case x of Message b \<Rightarrow> length b \<le> 10485760 | Raise e \<Rightarrow> (\<forall>m. e \<noteq> Undefined m) | _ \<Rightarrow> True)"

lemma good_take: "good_decoder d \<Longrightarrow> take_char d c = Take d' ys \<Longrightarrow> good_decoder d'"
  by (auto simp: take_char_def good_decoder_def Let_def split: chunk_state.splits if_splits)

lemma good_finish: "good_decoder d \<Longrightarrow> take_char d c = Finish d' \<Longrightarrow> good_decoder d'"
  by (auto simp: take_char_def good_decoder_def Let_def split: chunk_state.splits if_splits)

lemma good_verdict:
  "good_decoder d \<Longrightarrow> (case consume d xs of Wait d' ys \<Rightarrow> good_decoder d' | Fin d' ys rest \<Rightarrow> good_decoder d' | Bad d' ys rest \<Rightarrow> good_decoder d')"
proof (induction xs arbitrary: d)
  case (Cons c cs)
  show ?case
  proof (cases "take_char d c")
    case (Take d' ys)
    then show ?thesis using Cons.IH [OF good_take [OF Cons.prems Take]] by (cases "consume d' cs") simp_all
  next
    case (Finish d')
    then show ?thesis using good_finish [OF Cons.prems Finish] by simp
  qed (use Cons.prems in simp)
qed simp

lemma decode_ok:
  assumes "good_decoder d"
  shows "\<exists>n d' ys sz. phr_decode_chunked d xs = Some (n, d', ys, sz) \<and> good_decoder d' \<and> length ys = length xs \<and> sz \<le> length xs"
  using decode_is_automaton [OF assms, of xs] good_verdict [OF assms, of xs] by (cases "consume d xs") force+


section \<open>One iteration\<close>

lemma ok_contents: "local_ok b \<Longrightarrow> length (array b) \<le> n \<Longrightarrow> length (local_contents b) \<le> n"
  using local_contents_bound [of b] by simp

context defined_channel
begin

lemma recv_into_ok:
  assumes "valid c" and "local_ok b" and "recv_into io c b = Some (r, c')"
  shows "valid c' \<and> (case r of
      Inl e \<Rightarrow> (\<forall>m. e \<noteq> Undefined m)
    | Inr (n, b') \<Rightarrow> - (2 ^ 63) \<le> n \<and> n \<le> int (unat (buffer_size b)) \<and> local_ok b' \<and> length (array b') = length (array b) \<and>
        m_size b' = m_size b \<and> m_position b' = m_position b)"
proof -
  have room: "\<not> length (array b) < unat (position b) + unat (buffer_size b)"
    using ok_room [OF assms(2)] assms(2) by (simp add: ok_iff position_def)
  consider e where "ch_recv io c (buffer_size b) 0 = Some (Inl e, c')" "r = Inl e"
    | n d where "ch_recv io c (buffer_size b) 0 = Some (Inr (n, d), c')" "r = Inr (n, local_write d b)"
    using assms(3) room by (auto simp: recv_into_def split: option.splits sum.splits prod.splits)
  then show ?thesis
  proof cases
    case 1
    then show ?thesis using recv_fault [OF assms(1) 1(1)] recv_defined [OF assms(1)] by auto
  next
    case 2
    note v = recv_value [OF assms(1) 2(1)]
    then show ?thesis using 2(2) ok_write [OF assms(2), of d] by (auto simp: nat_le_iff)
  qed
qed

end

lemma advance_ok: "http_ok st \<Longrightarrow> http_ok (advance_body n st)" "http_ok st \<Longrightarrow> http_ok (advance_buffer n st)"
  by (simp_all add: http_ok_def advance_body_def advance_buffer_def local_advance_def ok_position)

definition keeps_ok :: "(int \<Rightarrow> 'c http \<Rightarrow> 'c http) \<Rightarrow> bool" where
  "keeps_ok part \<longleftrightarrow> (\<forall>n st. http_ok st \<longrightarrow> http_ok (part n st) \<and> m_channel (part n st) = m_channel st \<and> m_state (part n st) = m_state st)"

lemma keeps_advance: "keeps_ok advance_body" "keeps_ok advance_buffer"
  using advance_ok by (auto simp: keeps_ok_def advance_body_def advance_buffer_def)

context defined_channel
begin

lemma new_body_ok:
  assumes "new_body_pass part io st = Some (x, st')" and "http_ok st" and "valid (m_channel st)" and "keeps_ok part"
  shows "pass_ok x st' \<and> valid (m_channel st') \<and> m_state st' = m_state st"
proof -
  obtain r c where r: "recv_into io (m_channel st) (m_body st) = Some (r, c)" using assms(1) by (auto simp: new_body_pass_def Let_def split: option.splits)
  have b: "local_ok (m_body st)" using assms(2) by (simp add: http_ok_def)
  note ok = recv_into_ok [OF assms(3) b r]
  show ?thesis
  proof (cases r)
    case (Inl e)
    then show ?thesis using assms(1,2) r ok by (auto simp: new_body_pass_def Let_def pass_ok_def http_ok_def)
  next
    case (Inr v)
    obtain n b' where v: "v = (n, b')" by (cases v)
    let ?st = "st\<lparr>m_channel := c, m_body := b'\<rparr>"
    have ok': "http_ok ?st" using assms(2) ok Inr v by (simp add: http_ok_def)
    have z: "http_ok (?st\<lparr>m_body := set_position 0 b'\<rparr>)" using ok' by (simp add: http_ok_def ok_position)
    then have l: "length (local_contents (set_position 0 b')) \<le> 10485760" by (intro ok_contents) (simp_all add: http_ok_def)
    show ?thesis
      using assms(1,4) r Inr v ok ok' z l
      by (auto simp: new_body_pass_def Let_def pass_ok_def keeps_ok_def split: if_splits)
  qed
qed

lemma same_buffer_ok:
  assumes "same_buffer_pass part io st = Some (x, st')" and "http_ok st" and "valid (m_channel st)" and "keeps_ok part"
    and "m_state st = waiting_body"
  shows "pass_ok x st' \<and> valid (m_channel st') \<and> m_state st' = m_state st"
proof -
  obtain r c where r: "recv_into io (m_channel st) (m_buffer st) = Some (r, c)"
    using assms(1) by (auto simp: same_buffer_pass_def Let_def split: option.splits)
  have b: "local_ok (m_buffer st)" using assms(2) by (simp add: http_ok_def)
  note ok = recv_into_ok [OF assms(3) b r]
  show ?thesis
  proof (cases r)
    case (Inl e)
    then show ?thesis using assms(1,2) r ok by (auto simp: same_buffer_pass_def Let_def pass_ok_def http_ok_def)
  next
    case (Inr v)
    obtain n b' where v: "v = (n, b')" by (cases v)
    let ?st = "st\<lparr>m_channel := c, m_buffer := b'\<rparr>"
    let ?b = "set_size (ucast (m_header_size st + m_body_size st)) (set_position (ucast (m_header_size st)) b')"
    have ok': "http_ok ?st" using assms(2) ok Inr v by (simp add: http_ok_def)
    have "unat (m_header_size st) + unat (m_body_size st) < 2 ^ 32" using assms(2,5) by (simp add: http_ok_def)
    then have "m_header_size st \<le> m_header_size st + m_body_size st" by (simp add: word_le_nat_alt unat_add_small)
    then have up: "(ucast (m_header_size st) :: u64) \<le> ucast (m_header_size st + m_body_size st)"
      by (simp add: word_le_nat_alt unat_ucast32)
    have "m_position (set_position (ucast (m_header_size st)) b') \<le> ucast (m_header_size st)"
      by (auto simp: set_position_def)
    then have "local_ok ?b" using ok' up by (intro ok_size ok_position) (simp_all add: http_ok_def)
    then have z: "http_ok (?st\<lparr>m_buffer := ?b\<rparr>)" using ok' by (simp add: http_ok_def)
    then have l: "length (local_contents ?b) \<le> 10485760" by (intro ok_contents) (simp_all add: http_ok_def)
    show ?thesis
      using assms(1,4) r Inr v ok ok' z l
      by (auto simp: same_buffer_pass_def Let_def pass_ok_def keeps_ok_def split: if_splits)
  qed
qed

lemma chunked_ok:
  assumes "chunked_pass io st = Some (x, st')" and "http_ok st" and "valid (m_channel st)"
  shows "pass_ok x st' \<and> valid (m_channel st') \<and> m_state st' = m_state st"
proof -
  let ?b = "m_body st"
  have b: "local_ok ?b" "length (array ?b) \<le> 10485760" "good_decoder (m_chunked_decoder st)" using assms(2) by (simp_all add: http_ok_def)
  obtain n d xs sz where dec: "phr_decode_chunked (m_chunked_decoder st) (local_contents ?b) = Some (n, d, xs, sz)"
    "good_decoder d" "length xs = length (local_contents ?b)" "sz \<le> length (local_contents ?b)"
    using decode_ok [OF b(3)] by blast
  have c: "length (local_contents ?b) = unat (buffer_size ?b)" using buffer_size_contents [OF b(1)] by simp
  let ?b1 = "local_write xs ?b"
  have b1: "local_ok ?b1" "length (array ?b1) = length (array ?b)" using ok_write [OF b(1), of xs] dec(3) c by simp_all
  have sz: "unat (of_nat sz :: u64) = sz"
    using dec(4) unsigned_less [of "buffer_size ?b", where 'a = nat] unfolding c by (intro unat_of_nat_eq) simp
  have ps: "unat (m_position ?b) + sz \<le> unat (m_size ?b)" using ok_room [OF b(1)] dec(4) c by simp
  have small: "unat (m_size ?b) \<le> 10485760" using b by (simp add: ok_iff)
  have pos: "unat (m_position ?b + of_nat sz) = unat (m_position ?b) + sz"
    using ps small sz by (simp add: unat_add_small)
  let ?st1 = "st\<lparr>m_chunked_decoder := d, m_body := ?b1\<rparr>"
  have st1: "http_ok ?st1" using assms(2) b1 dec(2) by (simp add: http_ok_def)
  consider "n = - 2" | "0 < n" | "n = - 1" | "n \<noteq> - 2" "\<not> 0 < n" "n \<noteq> - 1" by blast
  then show ?thesis
  proof cases
    case 1
    let ?b2 = "set_size (ucast (m_max_request_body_size st)) ?b1"
    let ?b3 = "set_position (position ?b2 + of_nat sz) ?b2"
    have max: "(ucast (m_max_request_body_size st) :: u64) = 10485760" using assms(2) by (simp add: http_ok_def)
    have "m_position ?b1 \<le> 10485760" using b1(1) small by (simp add: ok_iff word_le_nat_alt)
    then have b2: "local_ok ?b2" unfolding max by (intro ok_size [OF b1(1)])
    then have b3: "local_ok ?b3" by (rule ok_position)
    obtain r c' where r: "recv_into io (m_channel st) ?b3 = Some (r, c')" using assms(1) dec(1) 1 by (auto simp: chunked_pass_def Let_def split: option.splits)
    note ok = recv_into_ok [OF assms(3) b3 r]
    show ?thesis
    proof (cases r)
      case (Inl e)
      then show ?thesis using assms(1) dec(1) 1 r ok st1 b3 b1(2) by (auto simp: chunked_pass_def Let_def pass_ok_def http_ok_def)
    next
      case (Inr v)
      obtain k b' where v: "v = (k, b')" by (cases v)
      have b': "local_ok b'" "length (array b') = length (array ?b)" "m_position b' = m_position ?b3" "k \<le> int (unat (buffer_size ?b3))"
        "m_size b' = m_size ?b3"
        using ok Inr v b1(2) by simp_all
      have blocked: "local_ok (set_size (position b') b')" by (rule ok_size [OF b'(1)]) (simp add: position_def)
      have again: "local_ok (set_size (position b' + of_int k) b')" if "0 < k"
      proof (rule ok_size [OF b'(1)])
        have "nat k \<le> unat (buffer_size ?b3)" using b'(4) that by linarith
        then have "unat (m_position b') + nat k \<le> unat (m_size ?b3)" using ok_room [OF b3] b'(3) by simp
        moreover have "unat (m_size ?b3) < 2 ^ 64" using unsigned_less [of "m_size ?b3", where 'a = nat] by simp
        moreover have "(of_int k :: u64) = of_nat (nat k)" using that by simp
        ultimately have "unat (m_position b' + of_int k) = unat (m_position b') + nat k" by (simp add: unat_add_small unat_of_nat_eq)
        then show "m_position b' \<le> position b' + of_int k" by (simp add: position_def word_le_nat_alt)
      qed
      show ?thesis
        using assms(1) dec(1) 1 r Inr v ok st1 b'(2) b1(2) blocked again
        by (auto simp: chunked_pass_def Let_def pass_ok_def http_ok_def split: if_splits)
    qed
  next
    case 2
    let ?b4 = "set_position 0 (set_size (position ?b1 + of_nat sz) ?b1)"
    have "m_position ?b1 \<le> position ?b1 + of_nat sz" using pos by (simp add: position_def word_le_nat_alt)
    then have b4: "local_ok ?b4" by (intro ok_position ok_size [OF b1(1)])
    then have l: "length (local_contents ?b4) \<le> 10485760" using b(2) b1(2) by (intro ok_contents) simp_all
    show ?thesis using assms(1,3) dec(1) 2 st1 b4 l b1(2) by (auto simp: chunked_pass_def Let_def pass_ok_def http_ok_def)
  next
    case 3
    then show ?thesis using assms(1,3) dec(1) st1 by (auto simp: chunked_pass_def Let_def pass_ok_def)
  next
    case 4
    then show ?thesis using assms(1,3) dec(1) st1 by (auto simp: chunked_pass_def Let_def pass_ok_def)
  qed
qed

end

section \<open>The header\<close>

definition short_head :: "'c http \<Rightarrow> bool" where
  "short_head st \<longleftrightarrow> length (m_method st) \<le> 8192 \<and> length (m_path st) \<le> 8192 \<and> length (m_message st) \<le> 8192"

lemma length_content: "length (content buf v) \<le> length buf"
  by (simp add: content_def)

definition side_ok :: "('p, 'c) side \<Rightarrow> bool" where
  "side_ok S \<longleftrightarrow> (\<forall>buf last. last \<le> length buf \<longrightarrow> length buf < 2 ^ 31 \<longrightarrow>
       (\<exists>r v. parse_head S buf 30 last = Some (r, v) \<and> r \<le> int (length buf) \<and> (v = None \<longrightarrow> r \<le> 0))) \<and>
     (\<forall>buf p. quiet (keep_head S buf p)) \<and>
     (\<forall>buf p st. length buf \<le> 8192 \<longrightarrow> short_head st \<longrightarrow> short_head (keep_head S buf p st))"

lemma sides_ok: "side_ok request_side" "side_ok response_side"
proof -
  have "\<exists>r v. phr_parse_request buf 30 last = Some (r, v) \<and> r \<le> int (length buf) \<and> (v = None \<longrightarrow> r \<le> 0)"
    "\<exists>r v. phr_parse_response buf 30 last = Some (r, v) \<and> r \<le> int (length buf) \<and> (v = None \<longrightarrow> r \<le> 0)"
    if "last \<le> length buf" "length buf < 2 ^ 31" for buf :: bytes and last
    using phr_call_sound [OF sound_parse_request [of 0 30] that] phr_call_sound [OF sound_parse_response [of 0 30] that]
    unfolding phr_parse_request_def phr_parse_response_def by (fastforce split: option.splits)+
  then show "side_ok request_side" "side_ok response_side"
    by (simp_all add: side_ok_def request_side_def response_side_def quiet_request quiet_response short_head_def order_trans [OF length_content])
qed

lemma headers_ok_state:
  "http_headers hs st = (r, st') \<Longrightarrow> (\<exists>h b c. st' = st\<lparr>m_headers := h, m_body_size := b, m_chunked := c\<rparr>) \<and> (\<forall>m. r \<noteq> Inl (Undefined m))"
proof (induction hs st arbitrary: r st' rule: http_headers.induct)
  case (1 st)
  then show ?case by (cases st) auto
next
  case (2 f v hs st)
  obtain q st1 where 1: "http_header f v st = (q, st1)" by (cases "http_header f v st")
  then have "(\<exists>h b c. st1 = st\<lparr>m_headers := h, m_body_size := b, m_chunked := c\<rparr>) \<and> (\<forall>m. q \<noteq> Inl (Undefined m))"
    by (cases st) (auto simp: http_header_def Let_def split: option.splits if_splits)
  then show ?case using 1 2 by (cases q) auto
qed

lemma start_body_ok:
  assumes "http_start_body data_size st = (x, st')" and "http_ok st" and "m_state st = waiting_header"
    and "m_position (m_buffer st) = ucast (m_header_size st)" and "unat (m_header_size st) \<le> unat data_size"
    and "unat data_size \<le> unat (m_size (m_buffer st))"
  shows "pass_ok x st' \<and> m_channel st' = m_channel st \<and> (x = Body \<longrightarrow> m_state st' = waiting_body) \<and> (\<forall>n. x \<noteq> Again n)"
proof -
  let ?b = "m_buffer st" and ?h = "m_header_size st" and ?n = "m_body_size st"
  have b: "local_ok ?b" "length (array ?b) = 8192" "unat ?h \<le> 8192" "m_max_request_body_size st = 10485760"
    using assms(2) by (simp_all add: http_ok_def)
  have d: "unat data_size \<le> 8192" using assms(6) b by (simp add: ok_iff)
  have dif: "unat (data_size - ucast ?h) = unat data_size - unat ?h"
    using assms(5) by (simp add: unat_sub word_le_nat_alt unat_ucast32)
  have tail: "unat (data_size - position ?b) = unat data_size - unat ?h" using dif assms(4) by (simp add: position_def)
  have pos: "unat (position ?b) = unat ?h" using assms(4) by (simp add: position_def unat_ucast32)
  consider (none) "\<not> ?n > 0" | (whole) "?n > 0" "ucast ?n \<le> data_size - ucast ?h"
    | (new) "?n > 0" "\<not> ucast ?n \<le> data_size - ucast ?h" "?n \<le> m_max_request_body_size st" "buffer_size ?b < ucast ?n"
    | (same) "?n > 0" "\<not> ucast ?n \<le> data_size - ucast ?h" "?n \<le> m_max_request_body_size st" "\<not> buffer_size ?b < ucast ?n"
    | (big) "?n > 0" "\<not> ucast ?n \<le> data_size - ucast ?h" "\<not> ?n \<le> m_max_request_body_size st" by blast
  then show ?thesis
  proof cases
    case none
    then show ?thesis using assms(1,2) by (auto simp: http_start_body_def pass_ok_def)
  next
    case whole
    have n: "unat ?n \<le> unat data_size - unat ?h" using whole(2) dif by (simp add: word_le_nat_alt unat_ucast32)
    then have "unat (?h + ?n) = unat ?h + unat ?n" using d assms(5) by (simp add: unat_add_small)
    then have "ucast ?h \<le> (ucast (?h + ?n) :: u64)" by (simp add: word_le_nat_alt unat_ucast32)
    then have k: "local_ok (set_size (ucast (?h + ?n)) ?b)" using assms(4) by (intro ok_size [OF b(1)]) simp
    then have "length (local_contents (set_size (ucast (?h + ?n)) ?b)) \<le> 10485760" by (rule ok_contents) (simp add: b(2))
    then show ?thesis using assms(1,2) whole k by (auto simp: http_start_body_def pass_ok_def http_ok_def Let_def)
  next
    case big
    then show ?thesis using assms(1,2) by (auto simp: http_start_body_def pass_ok_def)
  next
    case same
    have n: "unat ?n \<le> 10485760" using same(3) b(4) by (simp add: word_le_nat_alt)
    then show ?thesis using assms(1,2) same by (auto simp: http_start_body_def pass_ok_def http_ok_def Let_def ok_position)
  next
    case new
    let ?t = "data_size - position ?b" and ?m = "local_sized (unat ?n)"
    let ?text = "take (unat ?t) (drop (unat (position ?b)) (array ?b))"
    have n: "unat ?n \<le> 10485760" using new(3) b(4) by (simp add: word_le_nat_alt)
    have m: "local_ok ?m" using n by (intro ok_sized) simp
    have sz: "unat (m_size ?m) = unat ?n" using n by (simp add: unat_ucast32)
    have lt: "unat ?t < unat ?n" using new(2) dif tail by (simp add: word_le_nat_alt unat_ucast32)
    have room: "\<not> (length (array ?b) < unat (position ?b) + unat ?t \<or> length (array ?m) < unat ?t)"
      using lt d b(2) pos tail assms(5) by simp
    have "unat (buffer_size ?m) = unat ?n" using ok_room [OF m] sz by simp
    then have w: "local_ok (local_write ?text ?m)" "length (array (local_write ?text ?m)) = unat ?n"
      using lt ok_write [OF m, of ?text] by simp_all
    have ch: "local_ok (set_size ?t (set_position 0 (local_write ?text ?m)))" "local_ok (set_position ?t (local_write ?text ?m))"
      by (intro ok_size ok_position w; simp add: set_position_def) (intro ok_position w)
    show ?thesis
      using assms(1,2) new room w ch n m
      by (auto simp: http_start_body_def pass_ok_def http_ok_def Let_def split: if_splits)
  qed
qed

lemma head_ok:
  assumes "http_head S buf n p data_size st = (x, st')" and "side_ok S" and "http_ok st" and "m_state st = waiting_header"
    and "0 < n" and "n \<le> int (unat data_size)" and "length buf \<le> 8192" and "unat data_size \<le> unat (m_size (m_buffer st))"
  shows "pass_ok x st' \<and> m_channel st' = m_channel st \<and> (x = Body \<longrightarrow> m_state st' = waiting_body) \<and> (\<forall>n. x \<noteq> Again n)"
proof -
  let ?s0 = "st\<lparr>m_header_size := of_int n\<rparr>"
  have b: "local_ok (m_buffer st)" "length (array (m_buffer st)) = 8192" using assms(3) by (simp_all add: http_ok_def)
  have d: "unat data_size \<le> 8192" using assms(8) b by (simp add: ok_iff)
  have nn: "nat n \<le> unat data_size" using assms(6) by (simp only: nat_le_iff)
  have w: "(of_int n :: u32) = of_nat (nat n)" using assms(5) by simp
  have h: "unat (of_int n :: u32) = nat n" unfolding w using nn d by (intro unat_of_nat_eq) simp
  obtain k1 k2 k3 k4 where k: "keep_head S buf p ?s0 = ?s0\<lparr>m_method := k1, m_path := k2, m_status := k3, m_message := k4\<rparr>"
    using assms(2) unfolding side_ok_def quiet_def by blast
  have "short_head (keep_head S buf p ?s0)"
    using assms(2,3,7) unfolding side_ok_def by (auto simp: short_head_def http_ok_def)
  then have short: "length k1 \<le> 8192" "length k2 \<le> 8192" "length k4 \<le> 8192" unfolding k by (simp_all add: short_head_def)
  let ?b = "set_position (ucast (of_int n :: u32)) (m_buffer st)"
  let ?s1 = "(keep_head S buf p ?s0)\<lparr>m_buffer := ?b\<rparr>"
  have pos: "m_position ?b = ucast (of_int n :: u32)"
    using nn assms(8) h by (intro position_at) (simp add: word_le_nat_alt unat_ucast32)
  obtain r s2 where r: "http_headers (map (field_pair buf) (head_headers S p)) ?s1 = (r, s2)" by (cases "http_headers (map (field_pair buf) (head_headers S p)) ?s1")
  obtain f g c where s2: "s2 = ?s1\<lparr>m_headers := f, m_body_size := g, m_chunked := c\<rparr>" and e: "\<forall>m. r \<noteq> Inl (Undefined m)"
    using headers_ok_state [OF r] by blast
  have ok2: "http_ok s2" using assms(3,4) nn d h short by (simp add: s2 k http_ok_def ok_position)
  have head: "http_head S buf n p data_size st = (case r of Inl e \<Rightarrow> (Raise e, s2) | Inr _ \<Rightarrow> http_start_body data_size s2)"
    using r k by (simp add: http_head_def Let_def split: sum.split)
  show ?thesis
  proof (cases r)
    case (Inl q)
    then show ?thesis using assms(1) head e ok2 by (auto simp: pass_ok_def s2 k)
  next
    case (Inr u)
    have "http_start_body data_size s2 = (x, st')" using assms(1) head Inr by simp
    from start_body_ok [OF this ok2] show ?thesis using assms(4,8) nn pos h by (simp add: s2 k)
  qed
qed

context defined_channel
begin

text \<open>The text in the buffer ends at its position or before it.\<close>

lemma header_pass_ok:
  assumes "header_pass S io data_size st = Some (x, st')" and "side_ok S" and "http_ok st" and "valid (m_channel st)"
    and "m_state st = waiting_header" and "data_size \<le> position (m_buffer st)"
  shows "pass_ok x st' \<and> valid (m_channel st') \<and> (x = Body \<longrightarrow> m_state st' = waiting_body) \<and>
    (\<forall>n. x = Again n \<longrightarrow> m_state st' = waiting_header \<and> n \<le> position (m_buffer st'))"
proof -
  have b: "local_ok (m_buffer st)" "length (array (m_buffer st)) = 8192" using assms(3) by (simp_all add: http_ok_def)
  obtain r c where r: "recv_into io (m_channel st) (m_buffer st) = Some (r, c)" using assms(1) by (auto simp: header_pass_def split: option.splits)
  note ok = recv_into_ok [OF assms(4) b(1) r]
  show ?thesis
  proof (cases r)
    case (Inl e)
    then show ?thesis using assms(1,3) r ok by (auto simp: header_pass_def pass_ok_def http_ok_def)
  next
    case (Inr v)
    obtain k b' where v: "v = (k, b')" by (cases v)
    have b': "local_ok b'" "length (array b') = 8192" "m_size b' = m_size (m_buffer st)" "k \<le> int (unat (buffer_size (m_buffer st)))"
      using ok Inr v b(2) by simp_all
    let ?st = "st\<lparr>m_channel := c, m_buffer := b'\<rparr>"
    show ?thesis
    proof (cases "0 < k")
      case False
      then show ?thesis using assms(1,3) r Inr v ok b' by (auto simp: header_pass_def Let_def pass_ok_def http_ok_def)
    next
      case True
      let ?d = "data_size + of_int k" and ?st0 = "?st\<lparr>m_buffer := set_position 0 b'\<rparr>"
      let ?buf = "take (unat ?d) (array b')"
      have st0: "http_ok ?st0" using assms(3) b' by (simp add: http_ok_def ok_position)
      have "nat k \<le> unat (buffer_size (m_buffer st))" using b'(4) by (simp only: nat_le_iff)
      then have "unat data_size + nat k \<le> unat (m_size b')"
        using assms(6) ok_room [OF b(1)] b'(3) by (simp add: position_def word_le_nat_alt)
      moreover have z: "unat (m_size b') \<le> 8192" using b' by (simp add: ok_iff)
      moreover have "(of_int k :: u64) = of_nat (nat k)" using True by simp
      ultimately have d: "unat ?d = unat data_size + nat k" "unat ?d \<le> unat (m_size b')"
        by (simp_all add: unat_add_small unat_of_nat_eq)
      have len: "length ?buf = unat ?d" "\<not> length (array b') < unat ?d" using d(2) z b'(2) by simp_all
      have parse: "\<exists>n q. parse_head S ?buf 30 (unat data_size) = Some (n, q) \<and> n \<le> int (unat ?d) \<and> (q = None \<longrightarrow> n \<le> 0)"
      proof -
        have "unat data_size \<le> length ?buf" "length ?buf < 2 ^ 31" unfolding len(1) using d z by simp_all
        then have "\<exists>n q. parse_head S ?buf 30 (unat data_size) = Some (n, q) \<and> n \<le> int (length ?buf) \<and> (q = None \<longrightarrow> n \<le> 0)"
          using assms(2) unfolding side_ok_def by blast
        then show ?thesis unfolding len(1) .
      qed
      obtain n q where q: "parse_head S ?buf 30 (unat data_size) = Some (n, q)" "n \<le> int (unat ?d)" "q = None \<longrightarrow> n \<le> 0"
        using parse by blast
      have pass: "header_pass S io data_size st =
        (case if n > 0 then q else None of
           Some p \<Rightarrow> Some (http_head S ?buf n p ?d ?st0)
         | None \<Rightarrow>
             if n = - 1 then Some (Raise (http_error ''http: error parsing http headers''), ?st0)
             else if ?d = buffer_size (m_buffer ?st0) then Some (Raise (http_error ''http: request is too big''), ?st0)
             else Some (Again ?d, ?st0\<lparr>m_buffer := set_position ?d (m_buffer ?st0)\<rparr>))"
        using r Inr v True q(1) len(2) by (cases q) (simp_all add: header_pass_def Let_def)
      show ?thesis
      proof (cases "if n > 0 then q else None")
        case (Some p)
        then have "http_head S ?buf n p ?d ?st0 = (x, st')" "0 < n" using assms(1) pass by (auto split: if_splits)
        from head_ok [OF this(1) assms(2) st0 _ this(2) q(2)] show ?thesis using assms(5) d(2) ok Inr v z len(1) by auto
      next
        case None
        have "m_position (set_position ?d (set_position 0 b')) = ?d" using d(2) by (intro position_at) (simp add: word_le_nat_alt)
        then have p: "?d \<le> position (set_position ?d (set_position 0 b'))" by (simp add: position_def)
        have "http_ok (?st0\<lparr>m_buffer := set_position ?d (set_position 0 b')\<rparr>)" using st0 by (simp add: http_ok_def ok_position)
        then show ?thesis
          using assms(1,5) None ok Inr v st0 p unfolding pass by (auto simp: pass_ok_def split: if_splits)
      qed
    qed
  qed
qed

lemma choose_pass_ok:
  assumes "(if m_chunked st then chunked_pass io st else if m_new_body_buffer st then new_body_pass part io st
      else same_buffer_pass part io st) = Some (x, st')"
    and "http_ok st" and "valid (m_channel st)" and "m_state st = waiting_body" and "keeps_ok part"
  shows "pass_ok x st' \<and> valid (m_channel st') \<and> m_state st' = waiting_body"
proof -
  consider "chunked_pass io st = Some (x, st')" | "new_body_pass part io st = Some (x, st')" | "same_buffer_pass part io st = Some (x, st')"
    using assms(1) by (cases "m_chunked st"; cases "m_new_body_buffer st") simp_all
  then show ?thesis
  proof cases
    case 1
    then show ?thesis using chunked_ok [OF 1 assms(2,3)] assms(4) by simp
  next
    case 2
    then show ?thesis using new_body_ok [OF 2 assms(2,3,5)] assms(4) by simp
  next
    case 3
    then show ?thesis using same_buffer_ok [OF 3 assms(2,3,5,4)] assms(4) by simp
  qed
qed

definition outcome_ok :: "bytes option res \<times> 'c http \<Rightarrow> bool" where
  "outcome_ok y \<longleftrightarrow> http_ok (snd y) \<and> valid (m_channel (snd y)) \<and>
     (case fst y of Inl e \<Rightarrow> (\<forall>m. e \<noteq> Undefined m) | Inr None \<Rightarrow> True | Inr (Some b) \<Rightarrow> length b \<le> 10485760)"

definition body_sound :: "('c http \<Rightarrow> (pass \<times> 'c http) option) \<Rightarrow> bool" where
  "body_sound bp \<longleftrightarrow> (\<forall>st x st'. http_ok st \<longrightarrow> valid (m_channel st) \<longrightarrow> m_state st = waiting_body \<longrightarrow> bp st = Some (x, st') \<longrightarrow>
     pass_ok x st' \<and> valid (m_channel st') \<and> m_state st' = waiting_body)"

lemma bodies_sound: "body_sound (request_body_pass io)" "body_sound (response_body_pass io)"
  unfolding body_sound_def request_body_pass_def response_body_pass_def
  by (intro allI impI, rule choose_pass_ok; assumption?; rule keeps_advance)+

lemma body_loop_ok:
  assumes "body_loop bp st = Some y" and "body_sound bp" and "http_ok st" and "valid (m_channel st)" and "m_state st = waiting_body"
  shows "outcome_ok y"
proof -
  have "body_sound bp \<longrightarrow> http_ok st \<longrightarrow> valid (m_channel st) \<longrightarrow> m_state st = waiting_body \<longrightarrow> outcome_ok y"
  proof (rule body_loop.raw_induct [where P = "\<lambda>bp st y. body_sound bp \<longrightarrow> http_ok st \<longrightarrow> valid (m_channel st) \<longrightarrow>
        m_state st = waiting_body \<longrightarrow> outcome_ok y", OF _ assms(1)], goal_cases)
    case (1 loop bp st y)
    show ?case
    proof (intro impI)
      assume a: "body_sound bp" "http_ok st" "valid (m_channel st)" "m_state st = waiting_body"
      obtain x st' where x: "bp st = Some (x, st')" using 1(2) by (auto split: option.splits)
      have p: "pass_ok x st'" "valid (m_channel st')" "m_state st' = waiting_body" using a x unfolding body_sound_def by blast+
      have "outcome_ok y" if "loop bp st' = Some y" using 1(1) [OF that] a(1) p by (simp add: pass_ok_def)
      then show "outcome_ok y" using 1(2) x p by (cases x) (auto simp: outcome_ok_def pass_ok_def)
    qed
  qed
  then show ?thesis using assms(2-5) by simp
qed

lemma header_loop_ok:
  assumes "header_loop S io bp data_size st = Some y" and "side_ok S" and "body_sound bp" and "http_ok st" and "valid (m_channel st)"
    and "m_state st = waiting_header" and "data_size \<le> position (m_buffer st)"
  shows "outcome_ok y"
proof -
  have "j = io \<longrightarrow> outcome_ok y" if "header_loop S j bp data_size st = Some y" for j
  proof -
    have "T = S \<longrightarrow> j = io \<longrightarrow> bp = bp \<longrightarrow> http_ok st \<longrightarrow> valid (m_channel st) \<longrightarrow> m_state st = waiting_header \<longrightarrow>
        data_size \<le> position (m_buffer st) \<longrightarrow> outcome_ok y" if "header_loop T j bp data_size st = Some y" for T
    proof (rule header_loop.raw_induct [where P = "\<lambda>T j bq data_size st y. T = S \<longrightarrow> j = io \<longrightarrow> bq = bp \<longrightarrow> http_ok st \<longrightarrow>
          valid (m_channel st) \<longrightarrow> m_state st = waiting_header \<longrightarrow> data_size \<le> position (m_buffer st) \<longrightarrow> outcome_ok y", OF _ that], goal_cases)
      case (1 loop T j bq data_size st y)
      show ?case
      proof (intro impI)
        assume a: "T = S" "j = io" "bq = bp" "http_ok st" "valid (m_channel st)" "m_state st = waiting_header" "data_size \<le> position (m_buffer st)"
        obtain x st' where x: "header_pass S io data_size st = Some (x, st')" using 1(2) a(1,2) by (auto split: option.splits)
        note p = header_pass_ok [OF x assms(2) a(4-7)]
        have again: "outcome_ok y" if "x = Again n" for n
          using 1(1) [of S io bp n st' y] 1(2) x p that a(1-3) by (simp add: pass_ok_def)
        have body: "outcome_ok y" if "x = Body"
          using body_loop_ok [OF _ assms(3), of st' y] 1(2) x p that a(1-3) by (simp add: pass_ok_def)
        show "outcome_ok y" using 1(2) x p again body a(1-3) by (cases x) (auto simp: outcome_ok_def pass_ok_def)
      qed
    qed
    then show ?thesis using that assms(4-7) by blast
  qed
  then show ?thesis using assms(1) by blast
qed

lemma recv_ok:
  assumes "http_recv S io bp st = Some y" and "side_ok S" and "body_sound bp" and "http_ok st" and "valid (m_channel st)"
  shows "outcome_ok y"
proof (cases "m_state st")
  case waiting_header
  then show ?thesis using header_loop_ok [OF _ assms(2-5), of 0 y] assms(1) by (simp add: http_recv_def)
next
  case waiting_body
  then show ?thesis using body_loop_ok [OF _ assms(3-5)] assms(1) by (simp add: http_recv_def)
next
  case sending_body
  then show ?thesis using assms(1,4,5) by (auto simp: http_recv_def outcome_ok_def)
next
  case send_complete
  have "m_channel (http_reset st) = m_channel st" "m_state (http_reset st) = waiting_header" by (simp_all add: http_reset_def)
  then show ?thesis
    using header_loop_ok [OF _ assms(2,3) ok_reset [OF assms(4)], of 0 y] assms(1,5) send_complete by (simp add: http_recv_def)
qed

lemma push_ok:
  assumes "http_push io st = Some (r, st')" and "http_ok st" and "valid (m_channel st)"
  shows "http_ok st' \<and> valid (m_channel st') \<and> (\<forall>m. r \<noteq> Inl (Undefined m))"
proof -
  consider e c where "ch_send io (m_channel st) (local_contents (m_send_buffer st)) = Some (Inl e, c)" "r = Inl e" "st' = st\<lparr>m_channel := c\<rparr>"
    | sz c where "ch_send io (m_channel st) (local_contents (m_send_buffer st)) = Some (Inr sz, c)" "r = Inr ()"
      "st' = http_sent (st\<lparr>m_channel := c\<rparr>) sz"
    using assms(1) by (auto simp: http_push_def split: option.splits sum.splits prod.splits)
  then show ?thesis
  proof cases
    case 1
    then show ?thesis using send_fault [OF assms(3) 1(1)] send_defined [OF assms(3)] assms(2) by (auto simp: http_ok_def)
  next
    case 2
    then show ?thesis
      using send_value [OF assms(3) 2(1)] assms(2) local_empty_ok by (auto simp: http_sent_def http_ok_def local_advance_def ok_position)
  qed
qed

lemma send_ok:
  assumes "http_send io head body (st\<lparr>m_state := sending_body\<rparr>) = Some (r, st')" and "http_ok st" and "valid (m_channel st)"
    and "length (head @ body) < 2 ^ 64"
  shows "http_ok st' \<and> valid (m_channel st') \<and> (\<forall>m. r \<noteq> Inl (Undefined m))"
  using assms push_ok [of "st\<lparr>m_state := sending_body, m_send_buffer := local_of_bytes (head @ body)\<rparr>" r st']
    local_of_bytes_ok [OF assms(4)] by (simp add: http_send_buffer http_ok_def)

lemma more_ok:
  assumes "http_send_more io st = Some (r, st')" and "http_ok st" and "valid (m_channel st)"
  shows "http_ok st' \<and> valid (m_channel st') \<and> (\<forall>m. r \<noteq> Inl (Undefined m))"
  using assms push_ok by (auto simp: http_send_more_def split: if_splits)

lemma request_ok:
  assumes "recv_request io st = Some (r, st')" and "http_ok st" and "valid (m_channel st)"
  shows "http_ok st' \<and> valid (m_channel st') \<and> (\<forall>m. r \<noteq> Inl (Undefined m)) \<and> (\<forall>meth path hdrs body. r = Inr (meth, path, hdrs, body) \<longrightarrow>
    length meth \<le> 8192 \<and> length path \<le> 8192 \<and> length body \<le> 10485760)"
proof -
  obtain q s where q: "http_recv request_side io (request_body_pass io) st = Some (q, s)"
    using assms(1) by (auto simp: recv_request_def split: option.splits)
  note ok = recv_ok [OF q sides_ok(1) bodies_sound(1) assms(2,3), unfolded outcome_ok_def]
  then show ?thesis using assms(1) q by (auto simp: recv_request_def http_ok_def split: sum.splits option.splits)
qed

lemma response_ok:
  assumes "recv_response io st = Some (r, st')" and "http_ok st" and "valid (m_channel st)"
  shows "http_ok st' \<and> valid (m_channel st') \<and> (\<forall>m. r \<noteq> Inl (Undefined m)) \<and> (\<forall>status msg hdrs body. r = Inr (status, msg, hdrs, body) \<longrightarrow>
    length msg \<le> 8192 \<and> length body \<le> 10485760)"
proof -
  obtain q s where q: "http_recv response_side io (response_body_pass io) st = Some (q, s)"
    using assms(1) by (auto simp: recv_response_def split: option.splits)
  note ok = recv_ok [OF q sides_ok(2) bodies_sound(2) assms(2,3), unfolded outcome_ok_def]
  then show ?thesis using assms(1) q by (auto simp: recv_response_def http_ok_def split: sum.splits option.splits)
qed

end

section \<open>What a program does with an object\<close>

inductive http_reached :: "'c channel \<Rightarrow> ('c \<Rightarrow> bool) \<Rightarrow> 'c http \<Rightarrow> bool" for io valid where
  constructed: "valid c \<Longrightarrow> http_reached io valid (http_new c)"
| channel_set: "http_reached io valid st \<Longrightarrow> valid c \<Longrightarrow> http_reached io valid (set_channel c st)"
| was_reset: "http_reached io valid st \<Longrightarrow> http_reached io valid (http_reset st)"
| request_received: "http_reached io valid st \<Longrightarrow> recv_request io st = Some (r, st') \<Longrightarrow> http_reached io valid st'"
| response_received: "http_reached io valid st \<Longrightarrow> recv_response io st = Some (r', st') \<Longrightarrow> http_reached io valid st'"
| request_sent: "http_reached io valid st \<Longrightarrow> length (request_head meth path hdrs body @ body) < 2 ^ 64 \<Longrightarrow>
    send_request io meth path hdrs body st = Some (u, st') \<Longrightarrow> http_reached io valid st'"
| response_sent: "http_reached io valid st \<Longrightarrow> length (response_head (unat code) msg hdrs body @ body) < 2 ^ 64 \<Longrightarrow>
    send_response io code msg hdrs body st = Some (u, st') \<Longrightarrow> http_reached io valid st'"
| more_sent: "http_reached io valid st \<Longrightarrow> http_send_more io st = Some (u, st') \<Longrightarrow> http_reached io valid st'"

context defined_channel
begin

lemma message_ok: "http_reached io valid st \<Longrightarrow> http_ok st \<and> valid (m_channel st)"
proof (induction rule: http_reached.induct)
  case (constructed c)
  then show ?case using ok_new [of c] by (simp add: http_new_def http_reset_def)
next
  case (channel_set st c)
  then show ?case by (simp add: set_channel_def http_ok_def)
next
  case (was_reset st)
  then show ?case using ok_reset [of st] by (simp add: http_reset_def)
next
  case (request_received st r st')
  then show ?case using request_ok by blast
next
  case (response_received st r' st')
  then show ?case using response_ok by blast
next
  case (request_sent st meth path hdrs body u st')
  then show ?case using send_ok [of "request_head meth path hdrs body" body st u st'] by (simp add: send_request_def)
next
  case (response_sent st code msg hdrs body u st')
  then show ?case using send_ok [of "response_head (unat code) msg hdrs body" body st u st'] by (simp add: send_response_def)
next
  case (more_sent st u st')
  then show ?case using more_ok by blast
qed

end

section \<open>Properties\<close>



text \<open>C33: The memory that a peer can make an object use for one message is bounded: the head is received into 8192 bytes, the body
  into at most 10 MB, and a message handed out has a method, a path and a reason of at most 8192 bytes and a body of
  at most 10 MB, chunked or not, whatever lengths it announces.\<close>

theorem http_messages_bounded:
  assumes "defined_channel io valid sent incoming" and "http_reached io valid st"
  shows "length (array (m_buffer st)) = 8192 \<and> length (array (m_body st)) \<le> 10485760 \<and>
    (recv_request io st = Some (Inr (meth, path, hdrs, body), st') \<longrightarrow>
      length meth \<le> 8192 \<and> length path \<le> 8192 \<and> length body \<le> 10485760) \<and>
    (recv_response io st = Some (Inr (status, msg, hdrs, body), st') \<longrightarrow> length msg \<le> 8192 \<and> length body \<le> 10485760)"
proof -
  note ok = defined_channel.message_ok [OF assms]
  note st = conjunct1 [OF ok] conjunct2 [OF ok]
  show ?thesis
    using st(1) defined_channel.request_ok [OF assms(1) _ st] defined_channel.response_ok [OF assms(1) _ st]
    by (simp add: http_ok_def)
qed

theorem http_messages_bounded_witness:
  "\<exists>st'. recv_request loopback (http_new (request_head [71] [47] [] [1, 2] @ [1, 2], [])) =
      Some (Inr ([71], [47], mset [(str ''Content-Length'', [50])], [1, 2]), st') \<and> length [1, 2 :: u8] \<le> 10485760 \<and>
    length (array (m_buffer st')) = 8192"
proof -
  let ?c = "(request_head [71] [47] [] [1, 2] @ [1, 2], []) :: bytes \<times> bytes"
  have c: "fst (m_channel (http_new ?c)) = request_head [71] [47] [] [1, 2] @ [1, 2]" by (simp add: http_new_def http_reset_def)
  have ok: "request_ok [71] [47] [] [1, 2]"
    by (simp add: request_ok_def token_chars_def token_char_map_def path_chars_def advance_act_def IS_PRINTABLE_ASCII_def
        headers_ok_def request_head_def content_length_def to_string.simps CRLF_def)
  obtain st' where r: "recv_request loopback (http_new ?c) = Some (Inr ([71], [47], mset [(str ''Content-Length'', [50])], [1, 2]), st')"
    using loop_prompt.request_received [OF http_new_idle TrueI c ok] by (auto simp: with_length_def to_string.simps)
  have h: "http_reached loopback (\<lambda>_. True) (http_new ?c)" by (rule constructed) simp
  then have "http_reached loopback (\<lambda>_. True) st'" by (rule request_received) (rule r)
  from http_messages_bounded [OF loopback_defined this] http_messages_bounded [OF loopback_defined h] show ?thesis using r by blast
qed

end
