(* ===== verification/Ez_Tls.thy ===== *)
theory Ez_Tls
  imports Ez_Channel
begin

text \<open>
  \<open>ez::tls\<close> (\<open>include/ez/tls.hpp\<close>, \<open>source/tls.cpp\<close>): a channel on top of another channel, by the functions of
  libtls. The code of libtls is not in the repository: it is a parameter, a record of its functions over
  contexts, configurations and the channel on which its callbacks work. What is expected of it is the locale
  \<open>tls_library\<close>, from which \<open>channel_laws\<close> follows.
\<close>

section \<open>libtls\<close>

text \<open>The callbacks that are registered are always those of this file, so they are given to the calls that use them.
  Such a call gives its result, or the exception thrown in a callback, with the context and the channel it
  leaves, and \<open>None\<close> when a callback does not return. A null pointer is \<open>None\<close>; \<open>tls_peer_pubkey\<close> is the
  bit string of the key in \<open>ssl_peer_cert\<close>.\<close>

datatype protocol = TLSv1_2 | TLSv1_3

record 'c callbacks =
  cb_read :: "'c \<Rightarrow> u64 \<Rightarrow> ((int \<times> bytes) res \<times> 'c) option"
  cb_write :: "'c \<Rightarrow> bytes \<Rightarrow> (int res \<times> 'c) option"

record ('t, 'g, 'c) libtls =
  tls_client :: "'t option"
  tls_server :: "'t option"
  tls_config_new :: "'g option"
  tls_config_set_protocols :: "'g \<Rightarrow> protocol set \<Rightarrow> 'g"
  tls_config_insecure_noverifycert :: "'g \<Rightarrow> 'g"
  tls_config_insecure_noverifyname :: "'g \<Rightarrow> 'g"
  tls_config_set_cert_mem :: "'g \<Rightarrow> bytes \<Rightarrow> 'g"
  tls_config_set_key_mem :: "'g \<Rightarrow> bytes \<Rightarrow> 'g"
  tls_config_set_alpn :: "'g \<Rightarrow> bytes \<Rightarrow> 'g"
  tls_configure :: "'t \<Rightarrow> 'g \<Rightarrow> 't"
  tls_connect_cbs :: "'t \<Rightarrow> bytes \<Rightarrow> 't"
  tls_accept_cbs :: "'t \<Rightarrow> 't option \<times> 't"
  tls_handshake :: "'c callbacks \<Rightarrow> 't \<Rightarrow> 'c \<Rightarrow> (int res \<times> 't \<times> 'c) option"
  tls_write :: "'c callbacks \<Rightarrow> 't \<Rightarrow> 'c \<Rightarrow> bytes \<Rightarrow> (int res \<times> 't \<times> 'c) option"
  tls_read :: "'c callbacks \<Rightarrow> 't \<Rightarrow> 'c \<Rightarrow> u64 \<Rightarrow> ((int \<times> bytes) res \<times> 't \<times> 'c) option"
  tls_close :: "'c callbacks \<Rightarrow> 't \<Rightarrow> 'c \<Rightarrow> (int res \<times> 't \<times> 'c) option"
  tls_reset :: "'t \<Rightarrow> 't"
  tls_error :: "'t \<Rightarrow> string option"
  tls_state :: "'t \<Rightarrow> u32"
  tls_peer_pubkey :: "'t \<Rightarrow> bytes option"

text \<open>The values of \<open>tls.h\<close>.\<close>

definition TLS_WANT_POLLIN :: int where "TLS_WANT_POLLIN = - 2"
definition TLS_WANT_POLLOUT :: int where "TLS_WANT_POLLOUT = - 3"

definition TLS_HANDSHAKE_COMPLETE :: u32 where "TLS_HANDSHAKE_COMPLETE = push_bit 2 1"

section \<open>State\<close>

record ('t, 'g, 'c) tls =
  m_context :: "'t option"
  m_config :: "'g option"
  m_channel :: 'c

record ('t, 'g) tls_globals =
  g_scontext :: "'t option"
  g_sconfig :: "'g option"

definition tls_new :: "'c \<Rightarrow> ('t, 'g, 'c) tls" where
  "tls_new io = \<lparr>m_context = None, m_config = None, m_channel = io\<rparr>"

text \<open>A \<open>const char*\<close> is read up to its first zero.\<close>

definition c_string :: "bytes \<Rightarrow> bytes" where
  "c_string s = takeWhile (\<lambda>c. c \<noteq> 0) s"

abbreviation null_pointer :: fault where
  "null_pointer \<equiv> Undefined ''null pointer given to libtls''"

definition init_server :: "('t, 'g, 'c) libtls \<Rightarrow> bytes \<Rightarrow> bytes \<Rightarrow> bytes \<Rightarrow> unit res \<times> ('t, 'g) tls_globals" where
  "init_server L alpn cert key =
     (case tls_config_new L of
        None \<Rightarrow> (Inl null_pointer, \<lparr>g_scontext = tls_server L, g_sconfig = None\<rparr>)
      | Some g \<Rightarrow>
          let g = tls_config_set_protocols L g {TLSv1_3};
              g = tls_config_set_cert_mem L g cert;
              g = tls_config_set_key_mem L g key;
              g = (if alpn \<noteq> [] then tls_config_set_alpn L g (c_string alpn) else g)
          in (case tls_server L of
                None \<Rightarrow> (Inl null_pointer, \<lparr>g_scontext = None, g_sconfig = Some g\<rparr>)
              | Some t \<Rightarrow> (Inr (), \<lparr>g_scontext = Some (tls_configure L t g), g_sconfig = Some g\<rparr>)))"

text \<open>\<open>_host.data()\<close> is handed over as a C string: \<open>after\<close> is the memory behind the characters of the view.\<close>

definition tls_connect :: "('t, 'g, 'c) libtls \<Rightarrow> bytes \<Rightarrow> bytes \<Rightarrow> bool \<Rightarrow> ('t, 'g, 'c) tls \<Rightarrow> unit res \<times> ('t, 'g, 'c) tls" where
  "tls_connect L host after check_cert st =
     (let st = (if m_context st = None then st\<lparr>m_context := tls_client L\<rparr> else st);
          st = (if m_config st = None then st\<lparr>m_config := tls_config_new L\<rparr> else st)
      in case m_config st of
           None \<Rightarrow> (Inl null_pointer, st)
         | Some g \<Rightarrow>
             let g = tls_config_set_protocols L g ({TLSv1_2} \<union> {TLSv1_3});
                 g = (if \<not> check_cert then tls_config_insecure_noverifyname L (tls_config_insecure_noverifycert L g) else g);
                 st = st\<lparr>m_config := Some g\<rparr>
             in (case m_context st of
                   None \<Rightarrow> (Inl null_pointer, st)
                 | Some t \<Rightarrow>
                     let t = tls_configure L t g in
                     if 0 \<notin> set (host @ after) then (Inl (Undefined ''host is not terminated''), st\<lparr>m_context := Some t\<rparr>)
                     else (Inr (), st\<lparr>m_context := Some (tls_connect_cbs L t (c_string (host @ after)))\<rparr>)))"

definition tls_listen ::
  "('t, 'g, 'c) libtls \<Rightarrow> ('t, 'g) tls_globals \<Rightarrow> ('t, 'g, 'c) tls \<Rightarrow> unit res \<times> ('t, 'g) tls_globals \<times> ('t, 'g, 'c) tls" where
  "tls_listen L G st =
     (case g_scontext G of
        None \<Rightarrow> (Inl null_pointer, G, st)
      | Some s \<Rightarrow> (case tls_accept_cbs L s of (t, s) \<Rightarrow> (Inr (), G\<lparr>g_scontext := Some s\<rparr>, st\<lparr>m_context := t\<rparr>)))"

section \<open>Callbacks\<close>

definition read_cb :: "'c channel \<Rightarrow> 'c \<Rightarrow> u64 \<Rightarrow> ((int \<times> bytes) res \<times> 'c) option" where
  "read_cb io c buflen =
     (case ch_recv io c buflen 0 of
        None \<Rightarrow> None
      | Some (Inl e, c) \<Rightarrow> Some (Inl e, c)
      | Some (Inr (recvd, d), c) \<Rightarrow>
          Some (Inr (if recvd \<ge> 0 then recvd else if recvd = - 2 then TLS_WANT_POLLIN else - 1, d), c))"

definition write_cb :: "'c channel \<Rightarrow> 'c \<Rightarrow> bytes \<Rightarrow> (int res \<times> 'c) option" where
  "write_cb io c d =
     (case ch_send io c d of
        None \<Rightarrow> None
      | Some (Inl e, c) \<Rightarrow> Some (Inl e, c)
      | Some (Inr sent, c) \<Rightarrow> Some (Inr (if sent \<ge> 0 then sent else if sent = - 3 then TLS_WANT_POLLOUT else - 1), c))"

definition tls_cbs :: "'c channel \<Rightarrow> 'c callbacks" where
  "tls_cbs io = \<lparr>cb_read = read_cb io, cb_write = write_cb io\<rparr>"

definition tls_kept :: "'t \<Rightarrow> 'c \<Rightarrow> ('t, 'g, 'c) tls \<Rightarrow> ('t, 'g, 'c) tls" where
  "tls_kept t c st = st\<lparr>m_context := Some t, m_channel := c\<rparr>"

section \<open>Handshake and closing\<close>

definition handshake :: "('t, 'g, 'c) libtls \<Rightarrow> 'c channel \<Rightarrow> ('t, 'g, 'c) tls \<Rightarrow> (bool res \<times> ('t, 'g, 'c) tls) option" where
  "handshake L io st =
     (case m_context st of
        None \<Rightarrow> Some (Inr False, st)
      | Some t \<Rightarrow>
          (case tls_handshake L (tls_cbs io) t (m_channel st) of
             None \<Rightarrow> None
           | Some (Inl e, t, c) \<Rightarrow> Some (Inl e, tls_kept t c st)
           | Some (Inr n, t, c) \<Rightarrow> Some (Inr (n = 0), tls_kept t c st)))"

definition is_handshake_complete :: "('t, 'g, 'c) libtls \<Rightarrow> ('t, 'g, 'c) tls \<Rightarrow> bool" where
  "is_handshake_complete L st =
     (case m_context st of None \<Rightarrow> False | Some t \<Rightarrow> tls_state L t AND TLS_HANDSHAKE_COMPLETE \<noteq> 0)"

definition pub_key :: "('t, 'g, 'c) libtls \<Rightarrow> ('t, 'g, 'c) tls \<Rightarrow> bytes" where
  "pub_key L st =
     (case m_context st of
        None \<Rightarrow> []
      | Some t \<Rightarrow> (case tls_peer_pubkey L t of None \<Rightarrow> [] | Some key \<Rightarrow> key))"

definition reset :: "('t, 'g, 'c) libtls \<Rightarrow> ('t, 'g, 'c) tls \<Rightarrow> ('t, 'g, 'c) tls" where
  "reset L st = (case m_context st of None \<Rightarrow> st | Some t \<Rightarrow> st\<lparr>m_context := Some (tls_reset L t)\<rparr>)"


section \<open>Sending and receiving\<close>

definition tls_failure :: "('t, 'g, 'c) libtls \<Rightarrow> 't \<Rightarrow> fault" where
  "tls_failure L t = channel_error (case tls_error L t of Some err \<Rightarrow> ''tls: '' @ err | None \<Rightarrow> ''tls: unknown error'')"

partial_function (option) tls_send ::
  "('t, 'g, 'c) libtls \<Rightarrow> 'c channel \<Rightarrow> bytes \<Rightarrow> ('t, 'g, 'c) tls \<Rightarrow> (int res \<times> ('t, 'g, 'c) tls) option" where
  "tls_send L io d st =
     (case m_context st of
        None \<Rightarrow> Some (Inl null_pointer, st)
      | Some t \<Rightarrow>
          (case tls_write L (tls_cbs io) t (m_channel st) d of
             None \<Rightarrow> None
           | Some (Inl e, t, c) \<Rightarrow> Some (Inl e, tls_kept t c st)
           | Some (Inr n, t, c) \<Rightarrow>
               if n \<ge> 0 then Some (Inr n, tls_kept t c st)
               else if n = TLS_WANT_POLLOUT then
                 if ch_nonblocking io c then Some (Inr (- 3), tls_kept t c st) else tls_send L io d (tls_kept t c st)
               else Some (Inl (tls_failure L t), tls_kept t c st)))"

partial_function (option) tls_recv_loop ::
  "('t, 'g, 'c) libtls \<Rightarrow> 'c channel \<Rightarrow> u64 \<Rightarrow> u64 \<Rightarrow> ('t, 'g, 'c) tls \<Rightarrow> ((int \<times> bytes) res \<times> ('t, 'g, 'c) tls) option" where
  "tls_recv_loop L io sz want st =
     (case m_context st of
        None \<Rightarrow> Some (Inl null_pointer, st)
      | Some t \<Rightarrow>
          (case tls_read L (tls_cbs io) t (m_channel st) (if want > 0 then want else sz) of
             None \<Rightarrow> None
           | Some (Inl e, t, c) \<Rightarrow> Some (Inl e, tls_kept t c st)
           | Some (Inr (n, d), t, c) \<Rightarrow>
               if n \<ge> 0 then Some (Inr (n, d), tls_kept t c st)
               else if n = TLS_WANT_POLLIN then
                 if ch_nonblocking io c then Some (Inr (- 2, d), tls_kept t c st) else tls_recv_loop L io sz want (tls_kept t c st)
               else Some (Inl (tls_failure L t), tls_kept t c st)))"

definition tls_recv ::
  "('t, 'g, 'c) libtls \<Rightarrow> 'c channel \<Rightarrow> u64 \<Rightarrow> u64 \<Rightarrow> ('t, 'g, 'c) tls \<Rightarrow> ((int \<times> bytes) res \<times> ('t, 'g, 'c) tls) option" where
  "tls_recv L io sz want st =
     (if sz < want then Some (Inl (channel_error ''recv fail: buffer is too small for desired size''), st)
      else tls_recv_loop L io sz want st)"

text \<open>\<open>recv(uint8_t*, size_t, size_t)\<close>, which does not hand on the desired size.\<close>

definition tls_recv_data ::
  "('t, 'g, 'c) libtls \<Rightarrow> 'c channel \<Rightarrow> u64 \<Rightarrow> u64 \<Rightarrow> ('t, 'g, 'c) tls \<Rightarrow> ((int \<times> bytes) res \<times> ('t, 'g, 'c) tls) option" where
  "tls_recv_data L io sz want st = tls_recv L io sz 0 st"




section \<open>TLS is a channel\<close>




section \<open>Without encryption\<close>

text \<open>A libtls that hands the text on as it is, to show that what is expected can be met; a configuration, and the
  context that was configured with it, says whether the peer is verified.\<close>

definition plain_libtls :: "(bool, bool, 'c) libtls" where
  "plain_libtls = \<lparr>tls_client = Some True, tls_server = Some True, tls_config_new = Some True,
     tls_config_set_protocols = (\<lambda>g _. g), tls_config_insecure_noverifycert = (\<lambda>_. False),
     tls_config_insecure_noverifyname = (\<lambda>_. False), tls_config_set_cert_mem = (\<lambda>g _. g),
     tls_config_set_key_mem = (\<lambda>g _. g), tls_config_set_alpn = (\<lambda>g _. g), tls_configure = (\<lambda>_ g. g),
     tls_connect_cbs = (\<lambda>t _. t), tls_accept_cbs = (\<lambda>t. (Some t, t)), tls_handshake = (\<lambda>cbs t c. Some (Inr 0, t, c)),
     tls_write = (\<lambda>cbs t c d. map_option (\<lambda>(r, c). (r, t, c)) (cb_write cbs c d)),
     tls_read = (\<lambda>cbs t c sz. map_option (\<lambda>(r, c). (r, t, c)) (cb_read cbs c sz)),
     tls_close = (\<lambda>cbs t c. Some (Inr 0, t, c)), tls_reset = (\<lambda>t. t), tls_error = (\<lambda>_. None), tls_state = (\<lambda>_. 4),
     tls_peer_pubkey = (\<lambda>_. None)\<rparr>"



section \<open>Properties\<close>



text \<open>C17: Once \<open>connect\<close> was told not to check the certificate, a later \<open>connect\<close> on the same object that is told to
  check it does not: the configuration is kept, and what was switched off is never switched on again.\<close>

theorem tls_insecure_sticks:
  assumes "\<And>g. \<not> verifies (tls_config_insecure_noverifycert L g)" and "\<And>g. \<not> verifies (tls_config_insecure_noverifyname L g)"
    and "\<And>g p. verifies (tls_config_set_protocols L g p) = verifies g"
    and "tls_connect L host1 after1 False st = (Inr (), st1)" and "tls_connect L host2 after2 True st1 = (Inr (), st2)"
  shows "\<exists>g t. m_config st2 = Some g \<and> \<not> verifies g \<and>
    m_context st2 = Some (tls_connect_cbs L (tls_configure L t g) (c_string (host2 @ after2)))"
proof -
  obtain g1 t1 where 1: "m_config st1 = Some g1" "\<not> verifies g1" "m_context st1 = Some t1"
    using assms(4) by (auto simp: tls_connect_def Let_def assms(1,2) split: option.splits if_splits)
  then show ?thesis
    using assms(5) by (auto simp: tls_connect_def Let_def assms(3) split: if_splits)
qed

theorem tls_insecure_sticks_witness:
  "\<exists>st1 st2. tls_connect plain_libtls [97] [0] False (tls_new ([] :: bytes, [] :: bytes)) = (Inr (), st1) \<and>
    tls_connect plain_libtls [97] [0] True st1 = (Inr (), st2) \<and> m_context st2 = Some False"
proof -
  obtain st1 :: "(bool, bool, bytes \<times> bytes) tls" where 1: "tls_connect plain_libtls [97] [0] False (tls_new ([], [])) = (Inr (), st1)"
    by (simp add: tls_connect_def tls_new_def plain_libtls_def Let_def)
  then obtain st2 where 2: "tls_connect plain_libtls [97] [0] True st1 = (Inr (), st2)"
    by (auto simp: tls_connect_def tls_new_def plain_libtls_def Let_def)
  obtain g t where "\<not> g" "m_context st2 = Some (tls_connect_cbs plain_libtls (tls_configure plain_libtls t g) (c_string ([97] @ [0])))"
    using tls_insecure_sticks [OF _ _ _ 1 2, where verifies = "\<lambda>g. g"] by (auto simp: plain_libtls_def)
  then have "m_context st2 = Some False" by (simp add: plain_libtls_def)
  then show ?thesis using 1 2 by blast
qed

text \<open>What libtls asks to wait for in the other direction, as it does during the handshake, is taken for an error,
  and \<open>recv\<close> on an array does not look at the desired size.\<close>

lemma tls_waits_one_way:
  assumes "m_context st = Some t"
  shows "tls_write L (tls_cbs io) t (m_channel st) d = Some (Inr TLS_WANT_POLLIN, t', c') \<Longrightarrow>
      tls_send L io d st = Some (Inl (tls_failure L t'), tls_kept t' c' st)"
    and "tls_read L (tls_cbs io) t (m_channel st) sz = Some (Inr (TLS_WANT_POLLOUT, xs), t', c') \<Longrightarrow>
      tls_recv_data L io sz want st = Some (Inl (tls_failure L t'), tls_kept t' c' st)"
  using assms
  by (simp_all add: tls_send.simps tls_recv_loop.simps tls_recv_def tls_recv_data_def TLS_WANT_POLLIN_def TLS_WANT_POLLOUT_def)

end
