(* ===== verification/Ez_Events.thy ===== *)
theory Ez_Events
  imports Ez_System
begin

text \<open>
  What the two implementations of \<open>ez::event_loop\<close> (\<open>include/ez/events.hpp\<close>) share: the events and the handlers
  that the application registers. A handler is a function on the state of the system and the
  application, \<open>'k\<close>; it may throw. It cannot register other handlers while it runs.
\<close>

datatype event_e = Event_error | Event_read | Event_write | Event_closed

text \<open>\<open>new impl\<close> leaves the two function pointers without a value.\<close>

datatype 'f pointer = Uninitialised | Null | Points_to 'f

type_synonym 'k on_event_t = "u64 \<Rightarrow> int \<Rightarrow> event_e \<Rightarrow> u32 \<Rightarrow> 'k \<Rightarrow> unit res \<times> 'k"
type_synonym 'k on_timeout_t = "u64 \<Rightarrow> u32 \<Rightarrow> 'k \<Rightarrow> unit res \<times> 'k"

record 'k handlers =
  m_event_fn :: "'k on_event_t pointer"
  m_timeout_fn :: "'k on_timeout_t pointer"
  m_param :: u64

definition on_event :: "u64 \<Rightarrow> 'k on_event_t pointer \<Rightarrow> ('k, 'a) handlers_scheme \<Rightarrow> ('k, 'a) handlers_scheme" where
  "on_event param ev im = im\<lparr>m_param := param, m_event_fn := ev\<rparr>"

definition on_timeout :: "'k on_timeout_t pointer \<Rightarrow> ('k, 'a) handlers_scheme \<Rightarrow> ('k, 'a) handlers_scheme" where
  "on_timeout ev im = im\<lparr>m_timeout_fn := ev\<rparr>"

text \<open>\<open>m_event_fn(m_param, fd, e, worker)\<close>, and \<open>if (m_timeout_fn) m_timeout_fn(m_param, worker)\<close>.\<close>

definition call_event :: "('k, 'a) handlers_scheme \<Rightarrow> int \<Rightarrow> u32 \<Rightarrow> event_e \<Rightarrow> 'k \<Rightarrow> unit res \<times> 'k" where
  "call_event im fd w e k =
     (case m_event_fn im of
        Uninitialised \<Rightarrow> (Inl (Undefined ''m_event_fn is not initialised''), k)
      | Null \<Rightarrow> (Inl (Undefined ''m_event_fn is null''), k)
      | Points_to f \<Rightarrow> f (m_param im) fd e w k)"

definition call_timeout :: "('k, 'a) handlers_scheme \<Rightarrow> u32 \<Rightarrow> 'k \<Rightarrow> unit res \<times> 'k" where
  "call_timeout im w k =
     (case m_timeout_fn im of
        Uninitialised \<Rightarrow> (Inl (Undefined ''m_timeout_fn is not initialised''), k)
      | Null \<Rightarrow> (Inr (), k)
      | Points_to f \<Rightarrow> f (m_param im) w k)"

text \<open>Actions one after the other, until one throws.\<close>

fun in_turn :: "('k \<Rightarrow> unit res \<times> 'k) list \<Rightarrow> 'k \<Rightarrow> unit res \<times> 'k" where
  "in_turn [] k = (Inr (), k)"
| "in_turn (f # fs) k = (case f k of (Inl e, k) \<Rightarrow> (Inl e, k) | (Inr _, k) \<Rightarrow> in_turn fs k)"

lemma in_turn_one: "in_turn [f] k = f k"
  by (cases "f k"; cases "fst (f k)") auto

lemma in_turn_two: "in_turn [f, g] k = (case f k of (Inl e, k) \<Rightarrow> (Inl e, k) | (Inr _, k) \<Rightarrow> g k)"
  by (cases "f k"; cases "fst (f k)"; cases "g (snd (f k))"; cases "fst (g (snd (f k)))") auto

text \<open>A loop over the events of one call of the system: the body says whether to return from the function.\<close>

fun until_stop :: "('e \<Rightarrow> 'k \<Rightarrow> bool res \<times> 'k) \<Rightarrow> 'e list \<Rightarrow> 'k \<Rightarrow> bool res \<times> 'k" where
  "until_stop body [] k = (Inr False, k)"
| "until_stop body (ev # evs) k =
     (case body ev k of
        (Inl e, k) \<Rightarrow> (Inl e, k)
      | (Inr stop, k) \<Rightarrow> if stop then (Inr True, k) else until_stop body evs k)"

lemma until_stop_append:
  "until_stop body xs k = (Inr False, k1) \<Longrightarrow> until_stop body (xs @ ys) k = until_stop body ys k1"
  by (induction xs arbitrary: k) (auto split: prod.splits sum.splits if_splits)

lemma until_stop_at:
  "until_stop body evs k = (Inr True, k') \<longleftrightarrow>
    (\<exists>pre ev post k1. evs = pre @ ev # post \<and> until_stop body pre k = (Inr False, k1) \<and> body ev k1 = (Inr True, k'))"
proof
  assume "\<exists>pre ev post k1. evs = pre @ ev # post \<and> until_stop body pre k = (Inr False, k1) \<and> body ev k1 = (Inr True, k')"
  then show "until_stop body evs k = (Inr True, k')" by (auto simp: until_stop_append)
next
  show "until_stop body evs k = (Inr True, k') \<Longrightarrow>
    \<exists>pre ev post k1. evs = pre @ ev # post \<and> until_stop body pre k = (Inr False, k1) \<and> body ev k1 = (Inr True, k')"
  proof (induction evs arbitrary: k)
    case (Cons ev evs)
    consider k1 where "body ev k = (Inr True, k1)" "k1 = k'" | k1 where "body ev k = (Inr False, k1)" "until_stop body evs k1 = (Inr True, k')"
      using Cons.prems by (auto split: prod.splits sum.splits if_splits)
    then show ?case
    proof cases
      case 1
      then show ?thesis by (intro exI [of _ "[]"] exI [of _ ev] exI [of _ evs] exI [of _ k]) simp
    next
      case 2
      from Cons.IH [OF 2(2)] obtain pre e post k2
        where "evs = pre @ e # post" "until_stop body pre k1 = (Inr False, k2)" "body e k2 = (Inr True, k')" by blast
      then show ?thesis using 2(1) by (intro exI [of _ "ev # pre"] exI [of _ e] exI [of _ post] exI [of _ k2]) simp
    qed
  qed simp
qed

section \<open>Loops over passes\<close>

text \<open>Both \<open>process_events\<close> are a loop over a body that says whether to return; a result that is an exception leaves
  it as well. \<open>None\<close> is a loop that never ends, as it is meant to when nobody calls \<open>stop\<close>.\<close>

partial_function (option) pass_loop :: "('k \<Rightarrow> bool res \<times> 'k) \<Rightarrow> 'k \<Rightarrow> (unit res \<times> 'k) option" where
  "pass_loop body k =
     (case body k of
        (Inl e, k) \<Rightarrow> Some (Inl e, k)
      | (Inr stop, k) \<Rightarrow> if stop then Some (Inr (), k) else pass_loop body k)"

fun passes :: "('k \<Rightarrow> bool res \<times> 'k) \<Rightarrow> nat \<Rightarrow> 'k \<Rightarrow> 'k option" where
  "passes body 0 k = Some k"
| "passes body (Suc n) k = (case body k of (Inr False, k) \<Rightarrow> passes body n k | _ \<Rightarrow> None)"

lemma pass_loop_passes: "passes body n k = Some k1 \<Longrightarrow> pass_loop body k = pass_loop body k1"
proof (induction n arbitrary: k)
  case (Suc n)
  then show ?case by (subst pass_loop.simps) (auto split: prod.splits sum.splits bool.splits)
qed simp

definition last_pass :: "('k \<Rightarrow> bool res \<times> 'k) \<Rightarrow> 'k \<Rightarrow> unit res \<times> 'k \<Rightarrow> bool" where
  "last_pass body k y \<longleftrightarrow>
     (case body k of (Inl e, k') \<Rightarrow> y = (Inl e, k') | (Inr stop, k') \<Rightarrow> stop \<and> y = (Inr (), k'))"

lemma pass_loop_last: "last_pass body k y \<Longrightarrow> pass_loop body k = Some y"
  by (subst pass_loop.simps) (auto simp: last_pass_def split: prod.splits sum.splits)

lemma pass_loop_ends:
  assumes "pass_loop body k = Some y"
  shows "\<exists>n k1. passes body n k = Some k1 \<and> last_pass body k1 y"
proof (rule pass_loop.raw_induct [where P = "\<lambda>body k y. \<exists>n k1. passes body n k = Some k1 \<and> last_pass body k1 y", OF _ assms],
    goal_cases)
  case (1 loop body k y)
  show ?case
  proof (cases "\<exists>k1. body k = (Inr False, k1)")
    case True
    then obtain k1 where b: "body k = (Inr False, k1)" by blast
    then have "loop body k1 = Some y" using 1(2) by simp
    from 1(1) [OF this] obtain n k2 where "passes body n k1 = Some k2" "last_pass body k2 y" by blast
    then show ?thesis using b by (intro exI [of _ "Suc n"] exI [of _ k2]) simp
  next
    case False
    then have "last_pass body k y" using 1(2) by (auto simp: last_pass_def split: prod.splits sum.splits bool.splits)
    then show ?thesis by (intro exI [of _ 0]) simp
  qed
qed

text \<open>What a loop does is decided by its first pass that does not go on.\<close>

lemma pass_loop_iff: "pass_loop body k = Some y \<longleftrightarrow> (\<exists>n k1. passes body n k = Some k1 \<and> last_pass body k1 y)"
  using pass_loop_ends pass_loop_last pass_loop_passes by metis

end
