(* ===== verification/Ez_Epoll.thy ===== *)
theory Ez_Epoll
  imports Ez_Events
begin

text \<open>
  \<open>ez::event_loop\<close> on Linux (\<open>source/epoll.cpp\<close>). The system calls are a parameter, a record of functions on the
  state of the system; a call that fails gives the \<open>errno\<close>, or no descriptor. What the threads do to each other is
  in \<open>Ez_Workers\<close>.
\<close>

section \<open>System calls\<close>

text \<open>\<open>ep_read8\<close> is \<open>read(fd, &c, 8)\<close>: \<open>None\<close> when it does not return 8.\<close>

record 'k epoll_os =
  ep_create1 :: "'k \<Rightarrow> int option \<times> 'k"
  ep_ctl_add :: "'k \<Rightarrow> int \<Rightarrow> int \<Rightarrow> u32 \<Rightarrow> (int + unit) \<times> 'k"
  ep_wait :: "'k \<Rightarrow> int \<Rightarrow> nat \<Rightarrow> int \<Rightarrow> (int + (int \<times> u32) list) \<times> 'k"
  ep_eventfd :: "'k \<Rightarrow> int option \<times> 'k"
  ep_read8 :: "'k \<Rightarrow> int \<Rightarrow> u64 option \<times> 'k"
  ep_write8 :: "'k \<Rightarrow> int \<Rightarrow> u64 \<Rightarrow> 'k"
  ep_close :: "'k \<Rightarrow> int \<Rightarrow> 'k"

text \<open>The values of \<open>sys/epoll.h\<close>.\<close>

definition EPOLLIN :: u32 where "EPOLLIN = 0x001"
definition EPOLLOUT :: u32 where "EPOLLOUT = 0x004"
definition EPOLLERR :: u32 where "EPOLLERR = 0x008"
definition EPOLLHUP :: u32 where "EPOLLHUP = 0x010"
definition EPOLLRDHUP :: u32 where "EPOLLRDHUP = 0x2000"
definition EPOLLET :: u32 where "EPOLLET = push_bit 31 1"

definition epoll_add :: "'k epoll_os \<Rightarrow> int \<Rightarrow> int \<Rightarrow> u32 \<Rightarrow> 'k \<Rightarrow> (int + unit) \<times> 'k" where
  "epoll_add os epoll fd ev k =
     ep_ctl_add os k epoll fd (if ev = 0 then EPOLLIN OR EPOLLOUT OR EPOLLRDHUP OR EPOLLHUP OR EPOLLET else ev)"

section \<open>State\<close>

record worker =
  stop_fd :: int
  epoll_fd :: int
  running :: bool
  stopping :: bool

definition new_worker :: worker where
  "new_worker = \<lparr>stop_fd = - 1, epoll_fd = - 1, running = False, stopping = False\<rparr>"

record 'k impl = "'k handlers" +
  m_worker :: "worker list option"
  m_epoll :: int
  m_stop_fd :: int
  m_workers :: u32

abbreviation loop_error :: "string \<Rightarrow> fault" where
  "loop_error msg \<equiv> Throw (Runtime_error msg)"

definition event_loop :: "'k impl" where
  "event_loop = \<lparr>m_event_fn = Uninitialised, m_timeout_fn = Uninitialised, m_param = 0, m_worker = None,
     m_epoll = - 1, m_stop_fd = - 1, m_workers = 0\<rparr>"

definition init :: "'k epoll_os \<Rightarrow> 'k impl \<Rightarrow> 'k \<Rightarrow> unit res \<times> 'k impl \<times> 'k" where
  "init os im k =
     (case ep_create1 os k of
        (None, k) \<Rightarrow> (Inl (loop_error ''epoll_create() error''), im\<lparr>m_epoll := - 1\<rparr>, k)
      | (Some fd, k) \<Rightarrow> (Inr (), im\<lparr>m_epoll := fd\<rparr>, k))"

definition event_loop_delete :: "'k epoll_os \<Rightarrow> 'k impl \<Rightarrow> 'k \<Rightarrow> 'k" where
  "event_loop_delete os im k = (if m_epoll im \<noteq> - 1 then ep_close os k (m_epoll im) else k)"

definition workers :: "'k impl \<Rightarrow> u32" where
  "workers im = m_workers im"

definition stop :: "'k epoll_os \<Rightarrow> 'k impl \<Rightarrow> 'k \<Rightarrow> 'k" where
  "stop os im k = (if m_stop_fd im = - 1 then k else ep_write8 os k (m_stop_fd im) 1)"

definition add_fd :: "'k epoll_os \<Rightarrow> 'k impl \<Rightarrow> int \<Rightarrow> 'k \<Rightarrow> unit res \<times> 'k" where
  "add_fd os im fd k =
     (case epoll_add os (m_epoll im) fd 0 k of
        (Inl _, k) \<Rightarrow> (Inl (loop_error ''can't add fd to epoll''), k)
      | (Inr _, k) \<Rightarrow> (Inr (), k))"

definition add_fd_to :: "'k epoll_os \<Rightarrow> 'k impl \<Rightarrow> int \<Rightarrow> u32 \<Rightarrow> 'k \<Rightarrow> unit res \<times> 'k" where
  "add_fd_to os im fd w k =
     (if w < m_workers im then
        (case m_worker im of
           None \<Rightarrow> (Inl (Undefined ''m_worker is null''), k)
         | Some ws \<Rightarrow>
             if unat w < length ws then
               let efd = epoll_fd (ws ! unat w) in
               (case epoll_add os efd fd 0 k of
                  (Inl errno, k) \<Rightarrow>
                    (Inl (loop_error (''can't add client: '' @ int_text fd @ '' to worker epoll: '' @ int_text efd @
                       '', errno: '' @ int_text errno)), k)
                | (Inr _, k) \<Rightarrow> (Inr (), k))
             else (Inl (Undefined ''read past m_worker''), k))
      else (Inl (loop_error ''wrong worker''), k))"

section \<open>Events\<close>

definition process_fd :: "'k impl \<Rightarrow> int \<Rightarrow> u32 \<Rightarrow> u32 \<Rightarrow> 'k \<Rightarrow> unit res \<times> 'k" where
  "process_fd im fd flags w k =
     (case m_event_fn im of
        Uninitialised \<Rightarrow> (Inl (Undefined ''m_event_fn is not initialised''), k)
      | Null \<Rightarrow> (Inr (), k)
      | Points_to _ \<Rightarrow>
          if flags AND EPOLLRDHUP \<noteq> 0 then call_event im fd w Event_closed k
          else if flags AND EPOLLERR \<noteq> 0 \<or> flags AND EPOLLHUP \<noteq> 0 then call_event im fd w Event_error k
          else case (if flags AND EPOLLIN \<noteq> 0 then call_event im fd w Event_read k else (Inr (), k)) of
              (Inl e, k) \<Rightarrow> (Inl e, k)
            | (Inr _, k) \<Rightarrow> if flags AND EPOLLOUT \<noteq> 0 then call_event im fd w Event_write k else (Inr (), k))"

text \<open>One event of an \<open>epoll_wait\<close>: does it make the function return?\<close>

definition process_event :: "'k epoll_os \<Rightarrow> 'k impl \<Rightarrow> int \<Rightarrow> u32 \<Rightarrow> int \<times> u32 \<Rightarrow> 'k \<Rightarrow> bool res \<times> 'k" where
  "process_event os im stopfd w ev k =
     (let fd = fst ev; flags = snd ev;
          (token, k) = (if fd > 0 \<and> fd = stopfd \<and> flags AND EPOLLIN \<noteq> 0 then ep_read8 os k fd else (None, k)) in
      if token = Some 1 then (Inr True, k)
      else case process_fd im fd flags w k of (Inl e, k) \<Rightarrow> (Inl e, k) | (Inr _, k) \<Rightarrow> (Inr False, k))"

definition events_pass :: "'k epoll_os \<Rightarrow> 'k impl \<Rightarrow> int \<Rightarrow> int \<Rightarrow> u32 \<Rightarrow> int \<Rightarrow> 'k \<Rightarrow> bool res \<times> 'k" where
  "events_pass os im ep stopfd w timeout k =
     (case ep_wait os k ep 100 (if timeout > 0 then timeout else - 1) of
        (Inl errno, k) \<Rightarrow>
          if errno = EINTR then (Inr False, k)
          else if errno = EFAULT then (Inl (loop_error ''epoll_wait() worker error EFAULT''), k)
          else if errno = EBADF then (Inl (loop_error ''epoll_wait() worker error EBADF''), k)
          else if errno = EINVAL then (Inl (loop_error ''epoll_wait() worker error EINVAL''), k)
          else (Inr False, k)
      | (Inr evs, k) \<Rightarrow>
          if evs = [] then
            (case call_timeout im w k of (Inl e, k) \<Rightarrow> (Inl e, k) | (Inr _, k) \<Rightarrow> (Inr False, k))
          else until_stop (process_event os im stopfd w) evs k)"

definition process_events ::
  "'k epoll_os \<Rightarrow> 'k impl \<Rightarrow> int \<Rightarrow> int \<Rightarrow> u32 \<Rightarrow> int \<Rightarrow> 'k \<Rightarrow> (unit res \<times> 'k) option" where
  "process_events os im ep stopfd w timeout = pass_loop (events_pass os im ep stopfd w timeout)"

section \<open>Starting\<close>

text \<open>The threads are started by \<open>spawn\<close>, a function on the state of the system.\<close>

definition start_workers :: "(nat \<Rightarrow> 'k \<Rightarrow> 'k) \<Rightarrow> u32 \<Rightarrow> 'k impl \<Rightarrow> 'k \<Rightarrow> 'k impl \<times> 'k" where
  "start_workers spawn n im k =
     (im\<lparr>m_workers := n, m_worker := Some (replicate (unat n) new_worker)\<rparr>, fold spawn [0..<unat n] k)"

text \<open>\<open>start\<close> up to the loop that waits for the workers, which is the main thread of \<open>Ez_Workers\<close>: is it reached?\<close>

definition start ::
  "'k epoll_os \<Rightarrow> (nat \<Rightarrow> 'k \<Rightarrow> 'k) \<Rightarrow> u32 \<Rightarrow> int \<Rightarrow> 'k impl \<Rightarrow> 'k \<Rightarrow> (bool res \<times> 'k impl \<times> 'k) option" where
  "start os spawn n timeout im k =
     (if m_epoll im = - 1 then Some (Inl (loop_error ''epoll_create() main error''), im, k)
      else case ep_eventfd os k of
          (None, k) \<Rightarrow> Some (Inl (loop_error ''eventfd() main error''), im\<lparr>m_stop_fd := - 1\<rparr>, k)
        | (Some fd, k) \<Rightarrow>
            let im = im\<lparr>m_stop_fd := fd\<rparr>;
                (_, k) = epoll_add os (m_epoll im) fd EPOLLIN k;
                (im, k) = start_workers spawn n im k
            in case process_events os im (m_epoll im) fd (- 1) timeout k of
                 None \<Rightarrow> None
               | Some (Inl e, k) \<Rightarrow> Some (Inl e, im, k)
               | Some (Inr _, k) \<Rightarrow>
                   let k = ep_close os k fd; im = im\<lparr>m_stop_fd := - 1\<rparr>
                   in Some (Inr (m_workers im \<noteq> 0), im, k))"

section \<open>What is reported\<close>

text \<open>The events that the flags of a descriptor stand for.\<close>

definition reported :: "u32 \<Rightarrow> event_e list" where
  "reported flags =
     (if flags AND EPOLLRDHUP \<noteq> 0 then [Event_closed]
      else if flags AND (EPOLLERR OR EPOLLHUP) \<noteq> 0 then [Event_error]
      else (if flags AND EPOLLIN \<noteq> 0 then [Event_read] else []) @ (if flags AND EPOLLOUT \<noteq> 0 then [Event_write] else []))"

lemma mask_or: "(flags AND (a OR b) = 0) \<longleftrightarrow> (flags AND a = 0) \<and> (flags AND b = (0 :: u32))"
  by (auto simp: bit_eq_iff bit_simps)

lemma process_fd_reports:
  assumes "m_event_fn im = Points_to f"
  shows "process_fd im fd flags w = in_turn (map (\<lambda>e. f (m_param im) fd e w) (reported flags))"
proof
  fix k
  have c: "call_event im fd w e k = f (m_param im) fd e w k" for e k using assms by (simp add: call_event_def)
  note def = process_fd_def assms pointer.case c reported_def mask_or
  consider "flags AND EPOLLRDHUP \<noteq> 0" | "flags AND EPOLLRDHUP = 0" "\<not> (flags AND EPOLLERR = 0 \<and> flags AND EPOLLHUP = 0)"
    | "flags AND EPOLLRDHUP = 0" "flags AND EPOLLERR = 0" "flags AND EPOLLHUP = 0" by blast
  then show "process_fd im fd flags w k = in_turn (map (\<lambda>e. f (m_param im) fd e w) (reported flags)) k"
  proof cases
    case 3
    then show ?thesis
      by (cases "flags AND EPOLLIN = 0"; cases "flags AND EPOLLOUT = 0"; cases "f (m_param im) fd Event_read w k";
          cases "fst (f (m_param im) fd Event_read w k)") (simp_all add: def in_turn_one in_turn_two del: in_turn.simps(2))
  qed (simp_all add: def in_turn_one del: in_turn.simps(2))
qed

section \<open>When the loop returns\<close>

lemma process_event_stops:
  "process_event os im stopfd w ev k = (Inr True, k') \<longleftrightarrow>
    fst ev = stopfd \<and> stopfd > 0 \<and> snd ev AND EPOLLIN \<noteq> 0 \<and> ep_read8 os k stopfd = (Some 1, k')"
proof -
  obtain token k1 where t: "(if fst ev > 0 \<and> fst ev = stopfd \<and> snd ev AND EPOLLIN \<noteq> 0 then ep_read8 os k (fst ev) else (None, k)) = (token, k1)"
    by (cases "if fst ev > 0 \<and> fst ev = stopfd \<and> snd ev AND EPOLLIN \<noteq> 0 then ep_read8 os k (fst ev) else (None, k)")
  have p: "process_event os im stopfd w ev k = (if token = Some 1 then (Inr True, k1)
      else case process_fd im (fst ev) (snd ev) w k1 of (Inl e, k) \<Rightarrow> (Inl e, k) | (Inr _, k) \<Rightarrow> (Inr False, k))"
    by (simp only: process_event_def Let_def t prod.case)
  then have "process_event os im stopfd w ev k = (Inr True, k') \<longleftrightarrow> token = Some 1 \<and> k1 = k'"
    by (auto split: prod.splits sum.splits)
  then show ?thesis using t by (auto split: if_splits)
qed

lemma events_pass_stops:
  "events_pass os im ep stopfd w timeout k = (Inr True, k') \<longleftrightarrow>
    (\<exists>evs k1. ep_wait os k ep 100 (if timeout > 0 then timeout else - 1) = (Inr evs, k1) \<and>
      until_stop (process_event os im stopfd w) evs k1 = (Inr True, k'))"
proof -
  obtain r k1 where "ep_wait os k ep 100 (if timeout > 0 then timeout else - 1) = (r, k1)"
    by (cases "ep_wait os k ep 100 (if timeout > 0 then timeout else - 1)")
  moreover obtain q k2 where "call_timeout im w k1 = (q, k2)" by (cases "call_timeout im w k1")
  ultimately show ?thesis by (cases r; cases q) (auto simp: events_pass_def)
qed

section \<open>Stop requests\<close>

text \<open>The documented behaviour of \<open>eventfd\<close>: a write of 8 bytes adds to the counter, a read gives it and sets it to 0.
  (A counter that would pass 2^64 - 2, and a read of 0, block; neither is used.)\<close>

locale event_counter =
  fixes os :: "'k epoll_os"
    and counter :: "'k \<Rightarrow> int \<Rightarrow> nat"
  assumes write_adds: "counter k fd + unat c < 2 ^ 64 - 1 \<Longrightarrow> counter (ep_write8 os k fd c) = (counter k)(fd := counter k fd + unat c)"
    and read_takes: "0 < counter k fd \<Longrightarrow> counter k fd < 2 ^ 64 \<Longrightarrow>
      \<exists>k'. ep_read8 os k fd = (Some (of_nat (counter k fd)), k') \<and> counter k' = (counter k)(fd := 0)"
begin

lemma stops_add:
  assumes "m_stop_fd im = fd" and "fd \<noteq> - 1"
  shows "counter k fd + n < 2 ^ 64 - 1 \<Longrightarrow> counter ((stop os im ^^ n) k) fd = counter k fd + n"
proof (induction n)
  case (Suc n)
  let ?k = "(stop os im ^^ n) k"
  have c: "counter ?k fd = counter k fd + n" using Suc by simp
  have "stop os im ?k = ep_write8 os ?k fd 1" using assms by (simp add: stop_def)
  then show ?case using write_adds [of ?k fd 1] c Suc.prems by simp
qed simp

lemma token_read:
  assumes "0 < counter k fd" and "counter k fd < 2 ^ 64" and "0 < fd" and "flags AND EPOLLIN \<noteq> 0"
  shows "\<exists>k'. counter k' = (counter k)(fd := 0) \<and> process_event os im fd w (fd, flags) k =
    (if counter k fd = 1 then (Inr True, k')
     else case process_fd im fd flags w k' of (Inl e, k) \<Rightarrow> (Inl e, k) | (Inr _, k) \<Rightarrow> (Inr False, k))"
proof -
  obtain k' where r: "ep_read8 os k fd = (Some (of_nat (counter k fd)), k')" "counter k' = (counter k)(fd := 0)"
    using read_takes [OF assms(1,2)] by blast
  have "(of_nat (counter k fd) :: u64) = 1 \<longleftrightarrow> unat (of_nat (counter k fd) :: u64) = 1" by (simp add: word_unat_eq_iff)
  then have "(of_nat (counter k fd) :: u64) = 1 \<longleftrightarrow> counter k fd = 1" using assms(2) by (simp add: unat_of_nat_eq)
  then show ?thesis using r assms(3,4) by (intro exI [of _ k']) (simp add: process_event_def)
qed

end

text \<open>A system that is only its counters.\<close>

definition counting_os :: "(int \<Rightarrow> nat) epoll_os" where
  "counting_os = \<lparr>ep_create1 = (\<lambda>k. (Some 3, k)), ep_ctl_add = (\<lambda>k _ _ _. (Inr (), k)), ep_wait = (\<lambda>k _ _ _. (Inr [], k)),
     ep_eventfd = (\<lambda>k. (Some 4, k(4 := 0))),
     ep_read8 = (\<lambda>k fd. if k fd = 0 then (None, k) else (Some (of_nat (k fd)), k(fd := 0))),
     ep_write8 = (\<lambda>k fd c. k(fd := k fd + unat c)), ep_close = (\<lambda>k _. k)\<rparr>"

interpretation counting: event_counter counting_os "\<lambda>k. k"
  by unfold_locales (auto simp: counting_os_def)

section \<open>Properties\<close>

text \<open>For a descriptor with the given flags the handler is called with what they stand for and with nothing else:
  a hangup of the peer alone, otherwise an error alone, otherwise that it can be read and then that it can be written; a
  handler that throws ends it.\<close>

theorem process_fd_dispatch:
  assumes "m_event_fn im = Points_to f"
  shows "process_fd im fd flags w = in_turn (map (\<lambda>e. f (m_param im) fd e w) (reported flags))"
  using assms by (rule process_fd_reports)

theorem process_fd_dispatch_witness:
  "process_fd (on_event 0 (Points_to (\<lambda>p fd e w k. (Inr (), k @ [(fd, e, w)]))) event_loop) 7 (EPOLLIN OR EPOLLOUT) 2 [] =
    (Inr (), [(7, Event_read, 2), (7, Event_write, 2)])"
  by (subst process_fd_dispatch [where f = "\<lambda>p fd e w k. (Inr (), k @ [(fd, e, w)])"])
    (simp_all add: on_event_def event_loop_def reported_def EPOLLIN_def EPOLLOUT_def EPOLLRDHUP_def EPOLLERR_def EPOLLHUP_def)

text \<open>A stop descriptor 0 is never looked at: the loop does not return whatever is written to it. (\<open>switch_to_daemon\<close>
  frees descriptor 0, so that the next descriptor made can be it.)\<close>

theorem stop_descriptor_zero: "process_events os im ep 0 w timeout k \<noteq> Some (Inr (), k')"
proof
  assume "process_events os im ep 0 w timeout k = Some (Inr (), k')"
  then obtain k1 where "last_pass (events_pass os im ep 0 w timeout) k1 (Inr (), k')"
    by (auto simp: process_events_def pass_loop_iff)
  then have "events_pass os im ep 0 w timeout k1 = (Inr True, k')" by (auto simp: last_pass_def split: prod.splits sum.splits)
  then show False by (auto simp: events_pass_stops until_stop_at process_event_stops)
qed

text \<open>C22: \<open>process_events\<close> returns if and only if, after finitely many rounds in which nothing threw, the events of a
  round hold the stop descriptor as readable, the handlers of the events before it return, and exactly 1 is read
  from it. In particular no other event, no interrupted call and no timeout makes it return.\<close>

theorem process_events_returns:
  "process_events os im ep stopfd w timeout k = Some (Inr (), k') \<longleftrightarrow>
    (\<exists>n k1 evs k2 pre flags post k3. passes (events_pass os im ep stopfd w timeout) n k = Some k1 \<and>
      ep_wait os k1 ep 100 (if timeout > 0 then timeout else - 1) = (Inr evs, k2) \<and> evs = pre @ (stopfd, flags) # post \<and>
      until_stop (process_event os im stopfd w) pre k2 = (Inr False, k3) \<and> 0 < stopfd \<and> flags AND EPOLLIN \<noteq> 0 \<and>
      ep_read8 os k3 stopfd = (Some 1, k'))"
proof -
  have "last_pass (events_pass os im ep stopfd w timeout) k1 (Inr (), k') \<longleftrightarrow> events_pass os im ep stopfd w timeout k1 = (Inr True, k')" for k1
    by (auto simp: last_pass_def split: prod.splits sum.splits)
  then have "process_events os im ep stopfd w timeout k = Some (Inr (), k') \<longleftrightarrow>
    (\<exists>n k1. passes (events_pass os im ep stopfd w timeout) n k = Some k1 \<and> events_pass os im ep stopfd w timeout k1 = (Inr True, k'))"
    by (simp only: process_events_def pass_loop_iff)
  then show ?thesis unfolding events_pass_stops until_stop_at process_event_stops by (auto 0 8)
qed

text \<open>C23: Requests to stop that are made before the loop looks at them are added up, and only a sum of 1 makes it return: a
  second call of \<open>stop\<close> undoes the first one. The loop then goes on, the requests are gone, and the
  handler is told that the stop descriptor can be read.\<close>

theorem stop_requests_cancel:
  assumes "event_counter os counter" and "m_stop_fd im = fd" and "0 < fd" and "counter k fd = 0" and "0 < n" and "n < 2 ^ 63"
    and "m_event_fn im = Points_to f"
  shows "\<exists>k'. counter k' fd = 0 \<and> until_stop (process_event os im fd w) [(fd, EPOLLIN)] ((stop os im ^^ n) k) =
    (if n = 1 then (Inr True, k')
     else case f (m_param im) fd Event_read w k' of (Inl e, k) \<Rightarrow> (Inl e, k) | (Inr _, k) \<Rightarrow> (Inr False, k))"
proof -
  have c: "counter ((stop os im ^^ n) k) fd = n"
    using event_counter.stops_add [OF assms(1,2), of k n] assms(3,4,6) by simp
  have e: "EPOLLIN AND EPOLLIN \<noteq> 0" by (simp add: EPOLLIN_def)
  have "reported EPOLLIN = [Event_read]"
    by (simp add: reported_def EPOLLIN_def EPOLLOUT_def EPOLLRDHUP_def EPOLLERR_def EPOLLHUP_def)
  then have p: "process_fd im fd EPOLLIN w k' = f (m_param im) fd Event_read w k'" for k'
    using process_fd_reports [OF assms(7)] by (simp add: in_turn_one del: in_turn.simps(2))
  have b: "0 < counter ((stop os im ^^ n) k) fd" "counter ((stop os im ^^ n) k) fd < 2 ^ 64"
    unfolding c using assms(5,6) by simp_all
  obtain k' where k': "counter k' = (counter ((stop os im ^^ n) k))(fd := 0)"
    "process_event os im fd w (fd, EPOLLIN) ((stop os im ^^ n) k) = (if n = 1 then (Inr True, k')
      else case process_fd im fd EPOLLIN w k' of (Inl e, k) \<Rightarrow> (Inl e, k) | (Inr _, k) \<Rightarrow> (Inr False, k))"
    using event_counter.token_read [OF assms(1) b assms(3) e, of im w] unfolding c by blast
  then show ?thesis by (intro exI [of _ k']) (auto simp: p split: prod.split sum.split)
qed

theorem stop_requests_cancel_witness:
  "\<exists>k'. k' 4 = 0 \<and> until_stop (process_event counting_os
      (on_event 0 (Points_to (\<lambda>p fd e w k. (Inr (), k))) event_loop\<lparr>m_stop_fd := 4\<rparr>) 4 0) [(4, EPOLLIN)]
    ((stop counting_os (event_loop\<lparr>m_stop_fd := 4\<rparr>) ^^ 2) (\<lambda>_. 0)) = (Inr False, k')"
proof -
  let ?im = "on_event 0 (Points_to (\<lambda>p fd e w k. (Inr (), k))) event_loop\<lparr>m_stop_fd := 4\<rparr> :: (int \<Rightarrow> nat) impl"
  have "stop counting_os ?im = stop counting_os (event_loop\<lparr>m_stop_fd := 4\<rparr>)" by (simp add: fun_eq_iff stop_def on_event_def)
  then show ?thesis
    using stop_requests_cancel [OF counting.event_counter_axioms, of ?im 4 "\<lambda>_. 0" 2 "\<lambda>p fd e w k. (Inr (), k)" 0]
    by (auto simp: on_event_def)
qed

text \<open>Without \<open>on_timeout\<close> a timeout calls a pointer that was never given a value.\<close>

lemma timeout_without_handler:
  "ep_wait os k ep 100 (if timeout > 0 then timeout else - 1) = (Inr [], k') \<Longrightarrow>
    events_pass os (on_event param fn event_loop) ep stopfd w timeout k = (Inl (Undefined ''m_timeout_fn is not initialised''), k')"
  by (simp add: events_pass_def call_timeout_def on_event_def event_loop_def)

end
