(* ===== verification/Ez_Kqueue.thy ===== *)
theory Ez_Kqueue
  imports Ez_Events
begin

text \<open>
  \<open>ez::event_loop\<close> on BSD and macOS (\<open>source/kqueue.cpp\<close>), over a record of its system calls. The loops are those of
  \<open>Ez_Events\<close>; what the threads do to each other is in \<open>Ez_Workers\<close>.
\<close>

section \<open>System calls\<close>

record kevent =
  ident :: u64
  event_filter :: int
  event_flags :: u16
  event_data :: int

record timespec =
  tv_sec :: int
  tv_nsec :: int

text \<open>\<open>kq_change\<close> is \<open>kevent\<close> with a list of changes (did it succeed?), \<open>kq_wait\<close> with a list for events.\<close>

record 'k kqueue_os =
  kq_create :: "'k \<Rightarrow> int \<times> 'k"
  kq_change :: "'k \<Rightarrow> int \<Rightarrow> kevent list \<Rightarrow> bool \<times> 'k"
  kq_wait :: "'k \<Rightarrow> int \<Rightarrow> nat \<Rightarrow> timespec option \<Rightarrow> (int + kevent list) \<times> 'k"
  kq_pipe :: "'k \<Rightarrow> (int \<times> int) option \<times> 'k"
  kq_write8 :: "'k \<Rightarrow> int \<Rightarrow> u64 \<Rightarrow> 'k"
  kq_close :: "'k \<Rightarrow> int \<Rightarrow> 'k"

text \<open>The values of \<open>sys/event.h\<close>.\<close>

definition EVFILT_READ :: int where "EVFILT_READ = - 1"
definition EVFILT_WRITE :: int where "EVFILT_WRITE = - 2"
definition EV_ADD :: u16 where "EV_ADD = 0x0001"
definition EV_CLEAR :: u16 where "EV_CLEAR = 0x0020"
definition EV_ERROR :: u16 where "EV_ERROR = 0x4000"
definition EV_EOF :: u16 where "EV_EOF = 0x8000"

definition ev_add :: "int \<Rightarrow> int \<Rightarrow> kevent" where
  "ev_add fd filt = \<lparr>ident = of_int fd, event_filter = filt, event_flags = EV_ADD OR EV_CLEAR, event_data = 0\<rparr>"

definition kqueue_add :: "'k kqueue_os \<Rightarrow> int \<Rightarrow> int \<Rightarrow> bool \<Rightarrow> 'k \<Rightarrow> bool \<times> 'k" where
  "kqueue_add os kq fd both k =
     (if both then kq_change os k kq [ev_add fd EVFILT_READ, ev_add fd EVFILT_WRITE]
      else kq_change os k kq [ev_add fd EVFILT_READ])"

section \<open>State\<close>

record worker =
  stop_fd :: "int \<times> int"
  kqueue_fd :: int
  running :: bool
  stopping :: bool

definition new_worker :: worker where
  "new_worker = \<lparr>stop_fd = (- 1, - 1), kqueue_fd = - 1, running = False, stopping = False\<rparr>"

definition worker_stop :: "'k kqueue_os \<Rightarrow> worker \<Rightarrow> 'k \<Rightarrow> 'k" where
  "worker_stop os w k = kq_close os (kq_close os (kq_close os k (kqueue_fd w)) (fst (stop_fd w))) (snd (stop_fd w))"

record 'k impl = "'k handlers" +
  m_kqueue :: int
  m_stop_fd :: "int \<times> int"
  m_workers :: u32
  m_worker :: "worker list option"

abbreviation loop_error :: "string \<Rightarrow> fault" where
  "loop_error msg \<equiv> Throw (Runtime_error msg)"

definition event_loop :: "'k impl" where
  "event_loop = \<lparr>m_event_fn = Uninitialised, m_timeout_fn = Uninitialised, m_param = 0, m_kqueue = - 1,
     m_stop_fd = (- 1, - 1), m_workers = 0, m_worker = None\<rparr>"

definition init :: "'k kqueue_os \<Rightarrow> 'k impl \<Rightarrow> 'k \<Rightarrow> 'k impl \<times> 'k" where
  "init os im k = (case kq_create os k of (fd, k) \<Rightarrow> (im\<lparr>m_kqueue := fd\<rparr>, k))"

definition event_loop_delete :: "'k kqueue_os \<Rightarrow> 'k impl \<Rightarrow> 'k \<Rightarrow> 'k" where
  "event_loop_delete os im k = (if m_kqueue im \<noteq> - 1 then kq_close os k (m_kqueue im) else k)"

definition workers :: "'k impl \<Rightarrow> u32" where
  "workers im = m_workers im"

definition add_fd :: "'k kqueue_os \<Rightarrow> 'k impl \<Rightarrow> int \<Rightarrow> 'k \<Rightarrow> unit res \<times> 'k" where
  "add_fd os im fd k =
     (case kqueue_add os (m_kqueue im) fd True k of
        (ok, k) \<Rightarrow> (if ok then Inr () else Inl (loop_error ''can't add server to kqueue''), k))"

text \<open>A worker that does not exist is not an error.\<close>

definition add_fd_to :: "'k kqueue_os \<Rightarrow> 'k impl \<Rightarrow> int \<Rightarrow> u32 \<Rightarrow> 'k \<Rightarrow> unit res \<times> 'k" where
  "add_fd_to os im fd w k =
     (if w < m_workers im then
        (case m_worker im of
           None \<Rightarrow> (Inl (Undefined ''m_worker is null''), k)
         | Some ws \<Rightarrow>
             if unat w < length ws then
               (case kqueue_add os (kqueue_fd (ws ! unat w)) fd True k of
                  (ok, k) \<Rightarrow> (if ok then Inr () else Inl (loop_error ''can't add client to worker kqueue''), k))
             else (Inl (Undefined ''read past m_worker''), k))
      else (Inr (), k))"

definition stop :: "'k kqueue_os \<Rightarrow> 'k impl \<Rightarrow> 'k \<Rightarrow> 'k" where
  "stop os im k =
     (if fst (m_stop_fd im) \<noteq> - 1 \<and> snd (m_stop_fd im) \<noteq> - 1 then kq_write8 os k (snd (m_stop_fd im)) 1 else k)"

section \<open>Events\<close>

text \<open>The value is what the function returns: may the descriptor be used further?\<close>

definition process_fd :: "'k impl \<Rightarrow> int \<Rightarrow> kevent \<Rightarrow> u32 \<Rightarrow> 'k \<Rightarrow> bool res \<times> 'k" where
  "process_fd im fd ev w k =
     (if event_flags ev AND EV_ERROR \<noteq> 0 \<and> event_data ev \<in> {ENOENT, EINVAL, EBADF, EPERM, EPIPE} then
        (case call_event im fd w Event_error k of (Inl e, k) \<Rightarrow> (Inl e, k) | (Inr _, k) \<Rightarrow> (Inr False, k))
      else
        case (if event_filter ev = EVFILT_READ then call_event im fd w Event_read k
              else if event_filter ev = EVFILT_WRITE then call_event im fd w Event_write k
              else (Inr (), k)) of
          (Inl e, k) \<Rightarrow> (Inl e, k)
        | (Inr _, k) \<Rightarrow>
            if event_flags ev AND EV_EOF \<noteq> 0 then
              (case call_event im fd w Event_closed k of (Inl e, k) \<Rightarrow> (Inl e, k) | (Inr _, k) \<Rightarrow> (Inr False, k))
            else (Inr True, k))"

text \<open>\<open>static_cast<int>(ident)\<close>\<close>

definition event_fd :: "kevent \<Rightarrow> int" where
  "event_fd ev = sint (ucast (ident ev) :: u32)"

definition process_event :: "'k impl \<Rightarrow> int \<Rightarrow> u32 \<Rightarrow> kevent \<Rightarrow> 'k \<Rightarrow> bool res \<times> 'k" where
  "process_event im stopfd w ev k =
     (let fd = event_fd ev in
      if fd = stopfd then (Inr True, k)
      else case process_fd im fd ev w k of (Inl e, k) \<Rightarrow> (Inl e, k) | (Inr _, k) \<Rightarrow> (Inr False, k))"

definition wait_time :: "int \<Rightarrow> timespec" where
  "wait_time timeout =
     (if timeout < 1000 then \<lparr>tv_sec = 0, tv_nsec = timeout * 1000000\<rparr>
      else let sec = timeout div 1000 in \<lparr>tv_sec = sec, tv_nsec = (timeout - sec * 1000) * 1000000\<rparr>)"

definition kevent_failure :: "int \<Rightarrow> string option" where
  "kevent_failure errno =
     map_option (\<lambda>e. ''kevent() worker error '' @ e)
       (map_of [(EACCES, ''EACCES''), (EFAULT, ''EFAULT''), (EBADF, ''EBADF''), (EINVAL, ''EINVAL''), (ENOENT, ''ENOENT''),
          (ENOMEM, ''ENOMEM''), (ESRCH, ''ESRCH'')] errno)"

definition events_pass :: "'k kqueue_os \<Rightarrow> 'k impl \<Rightarrow> int \<Rightarrow> int \<Rightarrow> u32 \<Rightarrow> int \<Rightarrow> 'k \<Rightarrow> bool res \<times> 'k" where
  "events_pass os im kq stopfd w timeout k =
     (case kq_wait os k kq 100 (if timeout > 0 then Some (wait_time timeout) else None) of
        (Inl errno, k) \<Rightarrow>
          if errno = EINTR then (Inr False, k)
          else (case kevent_failure errno of Some msg \<Rightarrow> (Inl (loop_error msg), k) | None \<Rightarrow> (Inr False, k))
      | (Inr evs, k) \<Rightarrow>
          if evs = [] then
            (case call_timeout im w k of (Inl e, k) \<Rightarrow> (Inl e, k) | (Inr _, k) \<Rightarrow> (Inr False, k))
          else until_stop (process_event im stopfd w) evs k)"

definition process_events ::
  "'k kqueue_os \<Rightarrow> 'k impl \<Rightarrow> int \<Rightarrow> int \<Rightarrow> u32 \<Rightarrow> int \<Rightarrow> 'k \<Rightarrow> (unit res \<times> 'k) option" where
  "process_events os im kq stopfd w timeout = pass_loop (events_pass os im kq stopfd w timeout)"

section \<open>Starting\<close>

definition start_workers :: "(nat \<Rightarrow> 'k \<Rightarrow> 'k) \<Rightarrow> u32 \<Rightarrow> 'k impl \<Rightarrow> 'k \<Rightarrow> 'k impl \<times> 'k" where
  "start_workers spawn n im k =
     (let im = im\<lparr>m_workers := n\<rparr> in
      if n = 0 then (im, k)
      else (im\<lparr>m_worker := Some (replicate (unat n) new_worker)\<rparr>, fold spawn [0..<unat n] k))"

text \<open>\<open>start\<close> up to the loop that waits for the workers: is it reached?\<close>

definition start ::
  "'k kqueue_os \<Rightarrow> (nat \<Rightarrow> 'k \<Rightarrow> 'k) \<Rightarrow> u32 \<Rightarrow> int \<Rightarrow> 'k impl \<Rightarrow> 'k \<Rightarrow> (bool res \<times> 'k impl \<times> 'k) option" where
  "start os spawn n timeout im k =
     (if m_kqueue im = - 1 then Some (Inl (loop_error ''kqueue() main error''), im, k)
      else case kq_pipe os k of
          (None, k) \<Rightarrow> Some (Inl (loop_error ''can't create main pipe()''), im, k)
        | (Some fds, k) \<Rightarrow>
            let im = im\<lparr>m_stop_fd := fds\<rparr>;
                (_, k) = kqueue_add os (m_kqueue im) (fst fds) True k;
                (im, k) = start_workers spawn n im k
            in case process_events os im (m_kqueue im) (fst fds) (- 1) timeout k of
                 None \<Rightarrow> None
               | Some (Inl e, k) \<Rightarrow> Some (Inl e, im, k)
               | Some (Inr _, k) \<Rightarrow>
                   let k = kq_close os (kq_close os k (fst fds)) (snd fds); im = im\<lparr>m_stop_fd := (- 1, - 1)\<rparr>
                   in Some (Inr (m_workers im \<noteq> 0), im, k))"

section \<open>What is reported, and when the loop returns\<close>

definition reported :: "kevent \<Rightarrow> event_e list" where
  "reported ev =
     (if event_flags ev AND EV_ERROR \<noteq> 0 \<and> event_data ev \<in> {ENOENT, EINVAL, EBADF, EPERM, EPIPE} then [Event_error]
      else (if event_filter ev = EVFILT_READ then [Event_read] else if event_filter ev = EVFILT_WRITE then [Event_write] else []) @
        (if event_flags ev AND EV_EOF \<noteq> 0 then [Event_closed] else []))"

lemma kq_event_stops: "process_event im stopfd w ev k = (Inr True, k') \<longleftrightarrow> event_fd ev = stopfd \<and> k = k'"
  by (auto simp: process_event_def Let_def split: prod.splits sum.splits)

lemma kq_pass_stops:
  "events_pass os im kq stopfd w timeout k = (Inr True, k') \<longleftrightarrow>
    (\<exists>evs k1. kq_wait os k kq 100 (if timeout > 0 then Some (wait_time timeout) else None) = (Inr evs, k1) \<and>
      until_stop (process_event im stopfd w) evs k1 = (Inr True, k'))"
proof -
  obtain r k1 where "kq_wait os k kq 100 (if timeout > 0 then Some (wait_time timeout) else None) = (r, k1)"
    by (cases "kq_wait os k kq 100 (if timeout > 0 then Some (wait_time timeout) else None)")
  moreover obtain q k2 where "call_timeout im w k1 = (q, k2)" by (cases "call_timeout im w k1")
  ultimately show ?thesis by (cases r; cases q) (auto simp: events_pass_def split: option.splits)
qed

lemma wait_time_bounds: "0 < timeout \<Longrightarrow> 0 \<le> tv_nsec (wait_time timeout) \<and> tv_nsec (wait_time timeout) < 1000000000"
proof -
  assume t: "0 < timeout"
  have m: "timeout = timeout div 1000 * 1000 + timeout mod 1000" "0 \<le> timeout mod 1000" "timeout mod 1000 < 1000" by simp_all
  show ?thesis
  proof (cases "timeout < 1000")
    case False
    have "(timeout - timeout div 1000 * 1000) * 1000000 = timeout mod 1000 * 1000000" by (simp only: minus_div_mult_eq_mod)
    then show ?thesis using m(2,3) False by (simp only: wait_time_def Let_def if_False timespec.simps) linarith
  qed (use t in \<open>simp add: wait_time_def\<close>)
qed

section \<open>Properties\<close>

text \<open>\<open>process_events\<close> returns if and only if, after finitely many rounds in which nothing threw, the events of a
  round hold one of the stop descriptor, whatever its filter and flags, and the handlers of the events before it
  return; requests to stop cannot cancel each other. The time that is waited for is \<open>_timeout\<close> milliseconds.\<close>

theorem kqueue_events_return:
  "(process_events os im kq stopfd w timeout k = Some (Inr (), k') \<longleftrightarrow>
    (\<exists>n k1 evs k2 pre ev post. passes (events_pass os im kq stopfd w timeout) n k = Some k1 \<and>
      kq_wait os k1 kq 100 (if timeout > 0 then Some (wait_time timeout) else None) = (Inr evs, k2) \<and>
      evs = pre @ ev # post \<and> until_stop (process_event im stopfd w) pre k2 = (Inr False, k') \<and> event_fd ev = stopfd)) \<and>
   tv_sec (wait_time timeout) * 1000000000 + tv_nsec (wait_time timeout) = timeout * 1000000"
proof -
  have "last_pass (events_pass os im kq stopfd w timeout) k1 (Inr (), k') \<longleftrightarrow> events_pass os im kq stopfd w timeout k1 = (Inr True, k')" for k1
    by (auto simp: last_pass_def split: prod.splits sum.splits)
  then have "process_events os im kq stopfd w timeout k = Some (Inr (), k') \<longleftrightarrow>
    (\<exists>n k1. passes (events_pass os im kq stopfd w timeout) n k = Some k1 \<and> events_pass os im kq stopfd w timeout k1 = (Inr True, k'))"
    by (simp only: process_events_def pass_loop_iff)
  moreover have "timeout - timeout div 1000 * 1000 = timeout mod 1000" by (simp add: minus_div_mult_eq_mod)
  ultimately show ?thesis unfolding kq_pass_stops until_stop_at kq_event_stops by (auto 0 8 simp: wait_time_def Let_def)
qed

text \<open>For an event the handler is called with what it stands for and nothing else: one of five errors
  alone, otherwise that the descriptor can be read or written, and then that it was closed at its other end; the value
  says whether it is still open.\<close>

theorem kqueue_fd_dispatch:
  assumes "m_event_fn im = Points_to f"
  shows "process_fd im fd ev w k =
    (case in_turn (map (\<lambda>e. f (m_param im) fd e w) (reported ev)) k of
       (Inl e, k) \<Rightarrow> (Inl e, k)
     | (Inr _, k) \<Rightarrow> (Inr (set (reported ev) \<inter> {Event_error, Event_closed} = {}), k))"
proof -
  have c: "call_event im fd w e k = f (m_param im) fd e w k" for e k using assms by (simp add: call_event_def)
  note def = process_fd_def reported_def c in_turn_one in_turn_two
  show ?thesis
    by (auto simp: def EVFILT_READ_def EVFILT_WRITE_def simp del: in_turn.simps(2) split: prod.split sum.split)
qed

theorem kqueue_fd_dispatch_witness:
  "process_fd (on_event 0 (Points_to (\<lambda>p fd e w k. (Inr (), k @ [(fd, e, w)]))) event_loop) 7
     \<lparr>ident = 7, event_filter = EVFILT_READ, event_flags = EV_EOF, event_data = 0\<rparr> 2 [] =
    (Inr False, [(7, Event_read, 2), (7, Event_closed, 2)])"
  by (subst kqueue_fd_dispatch [where f = "\<lambda>p fd e w k. (Inr (), k @ [(fd, e, w)])"])
    (simp_all add: on_event_def event_loop_def reported_def EVFILT_READ_def EV_EOF_def EV_ERROR_def)

end
