(* ===== verification/Ez_Workers.thy ===== *)
theory Ez_Workers
  imports Ez_Events
begin

text \<open>
  The threads of \<open>ez::event_loop\<close>: the workers that \<open>start_workers\<close> detaches, and the main thread, which in \<open>start\<close>
  runs \<open>process_events\<close> and then signals the workers and deletes what they share (\<open>source/epoll.cpp\<close>,
  \<open>source/kqueue.cpp\<close>). A step is one access of a thread to the shared array, or a call; they are interleaved
  without any order. The two files differ in one thing, the place at which a worker says that it runs, so the
  program of a worker is a parameter.
\<close>

section \<open>The threads\<close>

text \<open>What a worker does. \<open>Enter\<close> reads the arguments of \<open>process_events\<close>, \<open>Process\<close> is its return. A call that fails
  throws in the thread, which ends the process: there is no further step then. Descriptor 0 is in use, so no worker
  gets it (what it would do as a stop descriptor is in \<open>Ez_Epoll\<close>).\<close>

datatype action = Set_running | Create_poll | Create_stop | Add_stop | Enter | Process | Close_fds | Clear_running

definition epoll_worker :: "action list" where
  "epoll_worker = [Set_running, Create_poll, Create_stop, Add_stop, Enter, Process, Close_fds, Clear_running]"

definition kqueue_worker :: "action list" where
  "kqueue_worker = [Create_poll, Create_stop, Add_stop, Set_running, Enter, Process, Close_fds, Clear_running]"

text \<open>A \<open>worker\<close> of the array \<open>m_worker\<close>; \<open>stop_fd\<close> is where the main thread writes.\<close>

record worker =
  poll_fd :: int
  stop_fd :: int
  running :: bool
  stopping :: bool

definition new_worker :: worker where
  "new_worker = \<lparr>poll_fd = - 1, stop_fd = - 1, running = False, stopping = False\<rparr>"

text \<open>The main thread: in \<open>process_events\<close>; in the loop of \<open>start\<close> before the test of \<open>running\<close> of worker \<open>i\<close>, before the
  test of its \<open>stopping\<close>, before the write to its descriptor; before \<open>delete[]\<close>; after it. The flag is \<open>found\<close>.\<close>

datatype main_pc = Events | Scan bool nat | Test nat | Signal nat | Delete | Returned

text \<open>\<open>signals\<close> are the sums of what has been written to the stop descriptors of the workers and not been read. The
  flag \<open>fault\<close> is set by an access to the array after it was deleted.\<close>

record threads =
  m_worker :: "worker list"
  rest :: "action list list"
  signals :: "nat list"
  main :: main_pc
  deleted :: bool
  fault :: bool

fun act :: "action \<Rightarrow> int \<Rightarrow> worker \<Rightarrow> worker" where
  "act Set_running fd w = w\<lparr>running := True\<rparr>"
| "act Create_poll fd w = w\<lparr>poll_fd := fd\<rparr>"
| "act Create_stop fd w = w\<lparr>stop_fd := fd\<rparr>"
| "act Clear_running fd w = w\<lparr>running := False\<rparr>"
| "act _ fd w = w"

definition started :: "action list \<Rightarrow> nat \<Rightarrow> threads" where
  "started prog n = \<lparr>m_worker = replicate n new_worker, rest = replicate n prog, signals = replicate n 0, main = Events,
     deleted = False, fault = False\<rparr>"

inductive step :: "threads \<Rightarrow> threads \<Rightarrow> bool" where
  worker_acts: "i < length (rest s) \<Longrightarrow> rest s ! i = a # as \<Longrightarrow> a \<noteq> Process \<Longrightarrow> \<not> deleted s \<Longrightarrow> 0 < fd \<Longrightarrow>
    step s (s\<lparr>m_worker := (m_worker s)[i := act a fd (m_worker s ! i)], rest := (rest s)[i := as]\<rparr>)"
| worker_late: "i < length (rest s) \<Longrightarrow> rest s ! i = a # as \<Longrightarrow> a \<noteq> Process \<Longrightarrow> deleted s \<Longrightarrow> step s (s\<lparr>fault := True\<rparr>)"
| worker_returns: "i < length (rest s) \<Longrightarrow> rest s ! i = Process # as \<Longrightarrow> signals s ! i = 1 \<Longrightarrow>
    step s (s\<lparr>signals := (signals s)[i := 0], rest := (rest s)[i := as]\<rparr>)"
| worker_ignores: "i < length (rest s) \<Longrightarrow> rest s ! i = Process # as \<Longrightarrow> 1 < signals s ! i \<Longrightarrow>
    step s (s\<lparr>signals := (signals s)[i := 0]\<rparr>)"
| events_end: "main s = Events \<Longrightarrow> m_worker s \<noteq> [] \<Longrightarrow> step s (s\<lparr>main := Scan False 0\<rparr>)"
| scan_idle: "main s = Scan found i \<Longrightarrow> i < length (m_worker s) \<Longrightarrow> \<not> running (m_worker s ! i) \<Longrightarrow>
    step s (s\<lparr>main := Scan found (i + 1)\<rparr>)"
| scan_running: "main s = Scan found i \<Longrightarrow> i < length (m_worker s) \<Longrightarrow> running (m_worker s ! i) \<Longrightarrow> step s (s\<lparr>main := Test i\<rparr>)"
| test_told: "main s = Test i \<Longrightarrow> stopping (m_worker s ! i) \<Longrightarrow> step s (s\<lparr>main := Scan True (i + 1)\<rparr>)"
| test_new: "main s = Test i \<Longrightarrow> \<not> stopping (m_worker s ! i) \<Longrightarrow>
    step s (s\<lparr>m_worker := (m_worker s)[i := (m_worker s ! i)\<lparr>stopping := True\<rparr>], main := Signal i\<rparr>)"
| signal_sent: "main s = Signal i \<Longrightarrow> stop_fd (m_worker s ! i) \<noteq> - 1 \<Longrightarrow>
    step s (s\<lparr>signals := (signals s)[i := signals s ! i + 1], main := Scan True (i + 1)\<rparr>)"
| signal_lost: "main s = Signal i \<Longrightarrow> stop_fd (m_worker s ! i) = - 1 \<Longrightarrow> step s (s\<lparr>main := Scan True (i + 1)\<rparr>)"
| scan_end: "main s = Scan found i \<Longrightarrow> length (m_worker s) \<le> i \<Longrightarrow> step s (s\<lparr>main := if found then Delete else Scan False 0\<rparr>)"
| delete: "main s = Delete \<Longrightarrow> step s (s\<lparr>main := Returned, deleted := True\<rparr>)"

inductive_cases step_cases: "step s t"

inductive steps :: "threads \<Rightarrow> threads \<Rightarrow> bool" where
  steps_refl: "steps s s"
| steps_step: "steps s t \<Longrightarrow> step t u \<Longrightarrow> steps s u"

lemma steps_trans: "steps t u \<Longrightarrow> steps s t \<Longrightarrow> steps s u"
  by (induction rule: steps.induct) (auto intro: steps_step)

lemma steps_one: "step s t \<Longrightarrow> steps s t"
  by (auto intro: steps.intros)

text \<open>An invariant of every step holds in every state that can be reached.\<close>

lemma steps_keep: "steps s t \<Longrightarrow> (\<And>s t. I s \<Longrightarrow> step s t \<Longrightarrow> I t) \<Longrightarrow> I s \<Longrightarrow> I t"
  by (induction rule: steps.induct) auto

section \<open>What every interleaving keeps\<close>

text \<open>The order of the actions in what a worker still has to do: each once, and where they are left, those that follow.\<close>

fun ordered :: "action list \<Rightarrow> bool" where
  "ordered [] \<longleftrightarrow> True"
| "ordered (a # as) \<longleftrightarrow> a \<notin> set as \<and> (a = Set_running \<longrightarrow> Enter \<in> set as) \<and> (a = Create_stop \<longrightarrow> Enter \<in> set as) \<and>
     (a = Enter \<longrightarrow> Process \<in> set as) \<and> (a = Process \<longrightarrow> Clear_running \<in> set as) \<and> ordered as"



lemma ordered_later:
  "ordered r \<Longrightarrow> (Set_running \<in> set r \<longrightarrow> Enter \<in> set r) \<and> (Create_stop \<in> set r \<longrightarrow> Enter \<in> set r) \<and>
    (Enter \<in> set r \<longrightarrow> Process \<in> set r) \<and> (Process \<in> set r \<longrightarrow> Clear_running \<in> set r)"
  by (induction r) auto


text \<open>The state of one worker; \<open>sig\<close> says that the main thread is about to write to its descriptor.\<close>

definition worker_ok :: "bool \<Rightarrow> worker \<Rightarrow> action list \<Rightarrow> nat \<Rightarrow> bool" where
  "worker_ok sig w r g \<longleftrightarrow> ordered r \<and> (stop_fd w = - 1 \<longleftrightarrow> Create_stop \<in> set r) \<and>
     (running w \<longleftrightarrow> Set_running \<notin> set r \<and> Clear_running \<in> set r) \<and> g \<le> 1 \<and>
     (g = 1 \<or> Process \<notin> set r \<longrightarrow> stopping w \<and> \<not> sig) \<and> (g = 1 \<longrightarrow> Process \<in> set r) \<and> (sig \<longrightarrow> stopping w)"

text \<open>What the position of the main thread says of the flags \<open>stopping\<close>.\<close>

fun main_ok :: "main_pc \<Rightarrow> bool list \<Rightarrow> bool" where
  "main_ok Events told \<longleftrightarrow> True \<notin> set told"
| "main_ok (Scan found i) told \<longleftrightarrow> (found \<longleftrightarrow> True \<in> set told)"
| "main_ok (Test i) told \<longleftrightarrow> i < length told"
| "main_ok (Signal i) told \<longleftrightarrow> i < length told"
| "main_ok Delete told \<longleftrightarrow> True \<in> set told"
| "main_ok Returned told \<longleftrightarrow> True \<in> set told"

definition told :: "threads \<Rightarrow> bool list" where
  "told s = map stopping (m_worker s)"

definition threads_ok :: "nat \<Rightarrow> threads \<Rightarrow> bool" where
  "threads_ok n s \<longleftrightarrow> length (m_worker s) = n \<and> length (rest s) = n \<and> length (signals s) = n \<and>
     (\<forall>i<n. worker_ok (main s = Signal i) (m_worker s ! i) (rest s ! i) (signals s ! i)) \<and> main_ok (main s) (told s) \<and>
     (deleted s \<longleftrightarrow> main s = Returned) \<and> (fault s \<longrightarrow> deleted s)"

lemma act_stopping [simp]: "stopping (act a fd w) = stopping w"
  by (cases a) simp_all

lemma worker_ok_act:
  assumes "worker_ok sig w (a # as) g" and "a \<noteq> Process" and "0 \<le> fd"
  shows "worker_ok sig (act a fd w) as g"
  using assms ordered_later [of as] by (cases a) (auto simp: worker_ok_def)

lemma worker_ok_return: "worker_ok sig w (Process # as) (Suc 0) \<Longrightarrow> worker_ok sig w as 0"
  using ordered_later [of as] by (auto simp: worker_ok_def)

lemma worker_ok_sent: "worker_ok True w r g \<Longrightarrow> worker_ok False w r (Suc g)"
  and worker_ok_lost: "worker_ok sig w r g \<Longrightarrow> worker_ok False w r g"
  and worker_ok_sig: "worker_ok True w r g \<Longrightarrow> stopping w"
  and worker_ok_told: "worker_ok False w r g \<Longrightarrow> \<not> stopping w \<Longrightarrow> worker_ok True (w\<lparr>stopping := True\<rparr>) r g"
  by (auto simp: worker_ok_def)

lemma map_same: "i < length xs \<Longrightarrow> f x = f (xs ! i) \<Longrightarrow> map f (xs[i := x]) = map f xs"
  by (simp add: map_update list_update_same_conv)

lemma told_true: "i < length (m_worker s) \<Longrightarrow> stopping (m_worker s ! i) \<Longrightarrow> True \<in> set (told s)"
  unfolding told_def set_map by (rule image_eqI [where x = "m_worker s ! i"]) simp_all

lemma step_ok: "step s t \<Longrightarrow> threads_ok n s \<Longrightarrow> threads_ok n t"
proof (induction rule: step.induct)
  case (worker_acts i s a as fd)
  then have "worker_ok (main s = Signal i) (act a fd (m_worker s ! i)) as (signals s ! i)"
    by (intro worker_ok_act) (auto simp: threads_ok_def)
  then show ?case
    using worker_acts by (simp add: threads_ok_def told_def map_same nth_list_update)
next
  case (worker_returns i s as)
  then have "worker_ok (main s = Signal i) (m_worker s ! i) as 0"
    by (intro worker_ok_return) (auto simp: threads_ok_def dest: spec [of _ i])
  then show ?case using worker_returns by (auto simp: threads_ok_def told_def nth_list_update)
next
  case (worker_ignores i s as)
  then have "signals s ! i \<le> 1" by (auto simp: threads_ok_def worker_ok_def)
  then show ?case using worker_ignores by simp
next
  case (test_told s i)
  then show ?case using told_true [of i s] by (auto simp: threads_ok_def told_def)
next
  case (test_new s i)
  then show ?case using worker_ok_told by (auto simp: threads_ok_def told_def nth_list_update)
next
  case (signal_sent s i)
  then have w: "worker_ok True (m_worker s ! i) (rest s ! i) (signals s ! i)" "i < length (m_worker s)"
    by (auto simp: threads_ok_def told_def)
  show ?case
    using signal_sent told_true [OF w(2) worker_ok_sig [OF w(1)]] worker_ok_sent [OF w(1)] worker_ok_lost
    by (auto simp: threads_ok_def told_def nth_list_update)
next
  case (signal_lost s i)
  then have w: "worker_ok True (m_worker s ! i) (rest s ! i) (signals s ! i)" "i < length (m_worker s)"
    by (auto simp: threads_ok_def told_def)
  show ?case
    using signal_lost told_true [OF w(2) worker_ok_sig [OF w(1)]] worker_ok_lost
    by (auto simp: threads_ok_def told_def)
qed (auto simp: threads_ok_def told_def)

text \<open>The threads of the two files.\<close>

definition loop_program :: "action list \<Rightarrow> bool" where
  "loop_program prog \<longleftrightarrow> prog = epoll_worker \<or> prog = kqueue_worker"

lemma started_ok: "loop_program prog \<Longrightarrow> threads_ok n (started prog n)"
  by (auto simp: loop_program_def started_def threads_ok_def told_def worker_ok_def new_worker_def epoll_worker_def kqueue_worker_def)


section \<open>Signals of careful workers\<close>


lemma threads_worker:
  assumes "threads_ok n s" and "i < n"
  shows "worker_ok (main s = Signal i) (m_worker s ! i) (rest s ! i) (signals s ! i)"
    and "i < length (m_worker s)" and "i < length (rest s)" and "i < length (signals s)"
  using assms by (auto simp: threads_ok_def)



section \<open>The main thread can always return\<close>

lemma steps_ok: "steps s t \<Longrightarrow> threads_ok n s \<Longrightarrow> threads_ok n t"
  using steps_keep [of s t "threads_ok n"] step_ok by blast

lemma not_deleted: "threads_ok n s \<Longrightarrow> main s \<noteq> Returned \<Longrightarrow> \<not> deleted s"
  by (simp add: threads_ok_def)

lemma run_prefix:
  "threads_ok n s \<Longrightarrow> i < n \<Longrightarrow> main s \<noteq> Returned \<Longrightarrow> rest s ! i = as @ bs \<Longrightarrow> Process \<notin> set as \<Longrightarrow>
    \<exists>t. steps s t \<and> main t = main s \<and> rest t ! i = bs \<and> signals t = signals s \<and> told t = told s"
proof (induction as arbitrary: s)
  case Nil
  then show ?case using steps_refl by auto
next
  case (Cons a as)
  let ?t = "s\<lparr>m_worker := (m_worker s)[i := act a 1 (m_worker s ! i)], rest := (rest s)[i := as @ bs]\<rparr>"
  have st: "step s ?t"
    by (rule worker_acts) (use Cons.prems not_deleted [OF Cons.prems(1,3)] threads_worker [OF Cons.prems(1,2)] in auto)
  have "rest ?t ! i = as @ bs" "told ?t = told s"
    using threads_worker(2,3) [OF Cons.prems(1,2)] by (simp_all add: told_def map_same)
  then obtain u where "steps ?t u" "main u = main s" "rest u ! i = bs" "signals u = signals s" "told u = told s"
    using Cons.IH [of ?t] Cons.prems step_ok [OF st Cons.prems(1)] by auto
  then show ?case using steps_trans steps_one [OF st] by blast
qed

lemma run_to_process:
  assumes "threads_ok n s" and "i < n" and "main s \<noteq> Returned" and "Process \<in> set (rest s ! i)"
  shows "\<exists>t as. steps s t \<and> main t = main s \<and> rest t ! i = Process # as \<and> signals t = signals s \<and> told t = told s"
proof -
  obtain as bs where "rest s ! i = as @ Process # bs" "Process \<notin> set as" using assms(4) by (auto dest: split_list_first)
  then show ?thesis using run_prefix [OF assms(1-3)] by blast
qed


text \<open>The main thread alone finishes a round of its loop, and finds a worker that runs.\<close>

lemma round_ends:
  "threads_ok n s \<Longrightarrow> main s = Scan found i \<Longrightarrow> i \<le> n \<Longrightarrow>
    \<exists>t found'. steps s t \<and> rest t = rest s \<and> main t = Scan found' n \<and> (found \<or> (\<exists>j. i \<le> j \<and> j < n \<and> running (m_worker s ! j)) \<longrightarrow> found')"
proof (induction "n - i" arbitrary: s found i)
  case 0
  then show ?case using steps_refl by force
next
  case (Suc k)
  then have i: "i < n" "i < length (m_worker s)" by (auto simp: threads_ok_def)
  obtain u found' where u: "steps s u" "main u = Scan found' (i + 1)" "found \<or> running (m_worker s ! i) \<longrightarrow> found'"
    "\<forall>j. running (m_worker u ! j) = running (m_worker s ! j)" "rest u = rest s"
  proof (cases "running (m_worker s ! i)")
    case False
    then show ?thesis using that steps_one [OF scan_idle [OF Suc.prems(2) i(2)]] by fastforce
  next
    case True
    note run = steps_one [OF scan_running [OF Suc.prems(2) i(2) True]]
    let ?t = "s\<lparr>main := Test i\<rparr>"
    show ?thesis
    proof (cases "stopping (m_worker s ! i)")
      case True
      have "steps ?t (?t\<lparr>main := Scan True (i + 1)\<rparr>)" by (rule steps_one, rule test_told) (use True in auto)
      from that [OF steps_trans [OF this run]] show ?thesis by simp
    next
      case False
      let ?u = "?t\<lparr>m_worker := (m_worker ?t)[i := (m_worker ?t ! i)\<lparr>stopping := True\<rparr>], main := Signal i\<rparr>"
      have "steps ?t ?u" by (rule steps_one, rule test_new) (use False in auto)
      then have v: "steps s ?u" using steps_trans run by blast
      have r: "running (m_worker ?u ! j) = running (m_worker s ! j)" for j using i(2) by (simp add: nth_list_update)
      show ?thesis
      proof (cases "stop_fd (m_worker ?u ! i) = - 1")
        case True
        have "steps ?u (?u\<lparr>main := Scan True (i + 1)\<rparr>)" by (rule steps_one, rule signal_lost) (use True in auto)
        from that [OF steps_trans [OF this v]] r show ?thesis by simp
      next
        case False
        have "steps ?u (?u\<lparr>signals := (signals ?u)[i := signals ?u ! i + 1], main := Scan True (i + 1)\<rparr>)"
          by (rule steps_one, rule signal_sent) (use False in auto)
        from that [OF steps_trans [OF this v]] r show ?thesis by simp
      qed
    qed
  qed
  have k: "k = n - (i + 1)" "i + 1 \<le> n" using Suc.hyps(2) i(1) by simp_all
  obtain t f where t: "steps u t" "main t = Scan f n" "rest t = rest u" "found' \<or> (\<exists>j. i + 1 \<le> j \<and> j < n \<and> running (m_worker u ! j)) \<longrightarrow> f"
    using Suc.hyps(1) [OF k(1) steps_ok [OF u(1) Suc.prems(1)] u(2) k(2)] by blast
  have "found \<or> (\<exists>j. i \<le> j \<and> j < n \<and> running (m_worker s ! j)) \<longrightarrow> f"
    using t(4) u(3,4) by (metis Suc_eq_plus1 not_less_eq_eq le_antisym)
  then show ?case using t(1-3) steps_trans u(1,5) by metis
qed

lemma found_returns:
  assumes "main s = Scan True n" and "threads_ok n s"
  shows "\<exists>t. steps s t \<and> main t = Returned \<and> rest t = rest s \<and> signals t = signals s \<and> told t = told s \<and> fault t = fault s"
proof -
  let ?d = "s\<lparr>main := if True then Delete else Scan False 0\<rparr>"
  have "step s ?d" by (rule scan_end) (use assms in \<open>auto simp: threads_ok_def\<close>)
  moreover have "step ?d (?d\<lparr>main := Returned, deleted := True\<rparr>)" by (rule delete) simp
  ultimately have "steps s (?d\<lparr>main := Returned, deleted := True\<rparr>)" using steps_one steps_step by blast
  then show ?thesis by (intro exI [of _ "?d\<lparr>main := Returned, deleted := True\<rparr>"]) (simp add: told_def)
qed

lemma main_alone:
  assumes "threads_ok n s" and "i < n" and "running (m_worker s ! i)" and "main s = Events \<or> main s = Scan False 0"
  shows "\<exists>t. steps s t \<and> main t = Returned \<and> rest t = rest s"
proof -
  obtain u where u: "steps s u" "main u = Scan False 0" "m_worker u = m_worker s" "rest u = rest s"
  proof (cases "main s = Events")
    case True
    have "step s (s\<lparr>main := Scan False 0\<rparr>)" by (rule events_end [OF True]) (use assms in \<open>auto simp: threads_ok_def\<close>)
    then show ?thesis using that steps_one by force
  next
    case False
    then show ?thesis using that [of s] steps_refl assms(4) by simp
  qed
  note ok = steps_ok [OF u(1) assms(1)]
  obtain v where v: "steps u v" "main v = Scan True n" "rest v = rest u"
    using round_ends [OF ok u(2)] assms(2,3) u(3) by auto
  obtain w where "steps v w" "main w = Returned" "rest w = rest v" using found_returns [OF v(2) steps_ok [OF v(1) ok]] by blast
  then show ?thesis using steps_trans v(1,3) u(1,4) by metis
qed



section \<open>Properties\<close>






text \<open>C20: The main thread does not wait for the workers: with any number of them, in both files, there is an interleaving
  in which \<open>start\<close> deletes the array while a worker still runs, and the worker then accesses it.\<close>

theorem workers_outlive_array:
  assumes "loop_program prog" and "0 < n"
  shows "\<exists>s. steps (started prog n) s \<and> main s = Returned \<and> fault s"
proof -
  let ?s = "started prog n" and ?tail = "[Enter, Process, Close_fds, Clear_running]"
  note ok = started_ok [OF assms(1)]
  obtain as where as: "prog = as @ ?tail" "Process \<notin> set as"
    using assms(1) that [of "take 4 prog"] by (auto simp: loop_program_def epoll_worker_def kqueue_worker_def)
  then have "rest ?s ! 0 = as @ ?tail" "main ?s = Events" using assms(2) by (simp_all add: started_def)
  then obtain t where t: "steps ?s t" "main t = Events" "rest t ! 0 = ?tail"
    using run_prefix [OF ok assms(2) _ _ as(2)] by auto
  note okt = steps_ok [OF t(1) ok]
  have "running (m_worker t ! 0)" using threads_worker(1) [OF okt assms(2)] t(3) by (simp add: worker_ok_def)
  then obtain u where u: "steps t u" "main u = Returned" "rest u ! 0 = ?tail" using main_alone [OF okt assms(2)] t(2,3) by force
  note oku = steps_ok [OF u(1) okt]
  have "step u (u\<lparr>fault := True\<rparr>)"
    by (rule worker_late) (use u(2,3) oku threads_worker(3) [OF oku assms(2)] in \<open>auto simp: threads_ok_def\<close>)
  then show ?thesis using steps_trans u(1,2) t(1) steps_one by (intro exI [of _ "u\<lparr>fault := True\<rparr>"]) (simp, blast)
qed

theorem workers_outlive_array_witness:
  "\<exists>s. steps (started kqueue_worker 1) s \<and> main s = Returned \<and> fault s"
  using workers_outlive_array [of kqueue_worker 1] by (simp add: loop_program_def)

text \<open>C21: The worker of \<open>epoll.cpp\<close> says that it runs before it has a descriptor for the signal. There is an interleaving in
  which the main thread tells it to stop in between: the signal goes to descriptor -1, the worker is marked as told, and
  it stays in its loop for ever, whatever happens then.\<close>

theorem epoll_signal_lost:
  "\<exists>s. steps (started epoll_worker 1) s \<and> main s = Returned \<and> \<not> fault s \<and> stopping (m_worker s ! 0) \<and>
    (\<forall>t. steps s t \<longrightarrow> hd (rest t ! 0) = Process \<and> signals t ! 0 = 0)"
proof -
  let ?s = "started epoll_worker 1"
  have ok: "threads_ok 1 ?s" by (rule started_ok) (simp add: loop_program_def)
  obtain a where a: "steps ?s a" "main a = Events" "rest a ! 0 = tl epoll_worker" "told a = [False]" "signals a = [0]"
    using run_prefix [OF ok, of 0 "[Set_running]" "tl epoll_worker"]
    by (auto simp: started_def epoll_worker_def told_def new_worker_def)
  note oka = steps_ok [OF a(1) ok]
  note wa = threads_worker(1,2) [OF oka, of 0, unfolded a(3), simplified]
  have w: "running (m_worker a ! 0)" "stop_fd (m_worker a ! 0) = - 1" "\<not> stopping (m_worker a ! 0)"
    using wa a(2,4) by (auto simp: worker_ok_def epoll_worker_def told_def)
  let ?b = "a\<lparr>main := Scan False 0\<rparr>"
  let ?c = "?b\<lparr>main := Test 0\<rparr>"
  let ?d = "?c\<lparr>m_worker := (m_worker ?c)[0 := (m_worker ?c ! 0)\<lparr>stopping := True\<rparr>], main := Signal 0\<rparr>"
  let ?e = "?d\<lparr>main := Scan True (0 + 1)\<rparr>"
  have "step a ?b" by (rule events_end) (use a(2) wa in auto)
  moreover have "step ?b ?c" by (rule scan_running) (use w wa in auto)
  moreover have "step ?c ?d" by (rule test_new) (use w in auto)
  moreover have "step ?d ?e" by (rule signal_lost) (use w wa in auto)
  ultimately have e: "steps ?s ?e" using a(1) steps_step by blast
  note oke = steps_ok [OF e ok]
  have "Process \<in> set (rest ?e ! 0)" using a(3) by (simp add: epoll_worker_def)
  then obtain f as where f: "steps ?e f" "main f = Scan True 1" "rest f ! 0 = Process # as" "told f = told ?e" "signals f = [0]"
    using run_to_process [OF oke, of 0] a(5) by auto
  note okf = steps_ok [OF f(1) oke]
  have "\<not> fault f" using okf f(2) by (auto simp: threads_ok_def)
  then obtain g where g: "steps f g" "main g = Returned" "rest g = rest f" "told g = told f" "signals g = [0]" "\<not> fault g"
    using found_returns [OF f(2) okf] f(5) by metis
  have sg: "steps ?s g" using steps_trans e f(1) g(1) by blast
  note okg = steps_ok [OF sg ok]
  have st: "stopping (m_worker g ! 0)"
    using g(4) f(4) wa threads_worker(2) [OF okg, of 0] by (auto simp: told_def dest!: arg_cong [where f = "\<lambda>xs. xs ! 0"])
  have r: "rest g = [Process # as]" using g(3) f(3) okg by (auto simp: threads_ok_def length_Suc_conv)
  have "rest t = [Process # as] \<and> signals t = [0] \<and> main t = Returned" if "steps g t" for t
    by (rule steps_keep [OF that]) (use r g(2,5) in \<open>auto elim!: step_cases\<close>)
  then show ?thesis using sg g(2,6) st by (intro exI [of _ g]) simp
qed

theorem epoll_signal_lost_witness:
  "\<exists>s :: threads. main s = Returned \<and> stopping (m_worker s ! 0) \<and> hd (rest s ! 0) = Process \<and> signals s ! 0 = 0"
proof -
  obtain s where s: "main s = Returned" "stopping (m_worker s ! 0)"
    and later: "\<forall>t. steps s t \<longrightarrow> hd (rest t ! 0) = Process \<and> signals t ! 0 = 0"
    using epoll_signal_lost by blast
  from later [rule_format, OF steps_refl] s show ?thesis by (intro exI [of _ s]) simp
qed

end
