(* ===== verification/Ez_Spin_Lock.thy ===== *)
theory Ez_Spin_Lock
  imports Ez_Prelude
begin

text \<open>
  \<open>ez::spin_lock\<close> (\<open>include/ez/spin_lock.hpp\<close>): the operations on the flag, and threads that use them. A step is one
  atomic access of one thread; the threads, numbered, are interleaved without any order. A thread calls
  \<open>unlock\<close> only when it holds the lock.
\<close>

section \<open>Operations\<close>

record spin_lock =
  locked :: bool

definition spin_lock_new :: spin_lock where
  "spin_lock_new = \<lparr>locked = False\<rparr>"

text \<open>The previous value, and the flag set.\<close>

definition test_and_set :: "spin_lock \<Rightarrow> bool \<times> spin_lock" where
  "test_and_set l = (locked l, l\<lparr>locked := True\<rparr>)"

definition try_lock :: "spin_lock \<Rightarrow> bool \<times> spin_lock" where
  "try_lock l = (case test_and_set l of (old, l) \<Rightarrow> (\<not> old, l))"

definition unlock :: "spin_lock \<Rightarrow> spin_lock" where
  "unlock l = l\<lparr>locked := False\<rparr>"

text \<open>\<open>lock\<close> when nobody else acts: it does not return when the flag is set.\<close>

partial_function (option) lock :: "spin_lock \<Rightarrow> spin_lock option" where
  "lock l = (case test_and_set l of (old, l) \<Rightarrow> if old then lock l else Some l)"

lemma lock_free: "\<not> locked l \<Longrightarrow> lock l = Some (l\<lparr>locked := True\<rparr>)"
  by (simp add: lock.simps [of l] test_and_set_def)

lemma lock_alone:
  assumes "lock l = Some l'"
  shows "\<not> locked l"
proof (rule lock.raw_induct [where P = "\<lambda>l _. \<not> locked l", OF _ assms], goal_cases)
  case (1 loop l l')
  show ?case
  proof
    assume "locked l"
    then have "loop (l\<lparr>locked := True\<rparr>) = Some l'" using 1(2) by (simp add: test_and_set_def)
    from 1(1) [OF this] show False by simp
  qed
qed

section \<open>Threads\<close>

datatype pc = Outside | Locking | Holding

record spin_threads =
  flag :: spin_lock
  pcs :: "nat \<Rightarrow> pc"

definition spin_start :: spin_threads where
  "spin_start = \<lparr>flag = spin_lock_new, pcs = (\<lambda>_. Outside)\<rparr>"

inductive spin_step :: "spin_threads \<Rightarrow> spin_threads \<Rightarrow> bool" where
  call_lock: "pcs s i = Outside \<Longrightarrow> spin_step s (s\<lparr>pcs := (pcs s)(i := Locking)\<rparr>)"
| spin: "pcs s i = Locking \<Longrightarrow> test_and_set (flag s) = (True, l) \<Longrightarrow> spin_step s (s\<lparr>flag := l\<rparr>)"
| acquire: "pcs s i = Locking \<Longrightarrow> test_and_set (flag s) = (False, l) \<Longrightarrow>
    spin_step s (s\<lparr>flag := l, pcs := (pcs s)(i := Holding)\<rparr>)"
| call_try_lock: "pcs s i = Outside \<Longrightarrow> try_lock (flag s) = (r, l) \<Longrightarrow>
    spin_step s (s\<lparr>flag := l, pcs := (pcs s)(i := if r then Holding else Outside)\<rparr>)"
| call_unlock: "pcs s i = Holding \<Longrightarrow> spin_step s (s\<lparr>flag := unlock (flag s), pcs := (pcs s)(i := Outside)\<rparr>)"

inductive spin_reach :: "spin_threads \<Rightarrow> spin_threads \<Rightarrow> bool" where
  spin_refl: "spin_reach s s"
| spin_next: "spin_reach s t \<Longrightarrow> spin_step t u \<Longrightarrow> spin_reach s u"

lemma spin_trans: "spin_reach t u \<Longrightarrow> spin_reach s t \<Longrightarrow> spin_reach s u"
  by (induction rule: spin_reach.induct) (auto intro: spin_next)





section \<open>Properties\<close>



text \<open>Nothing keeps a thread from waiting for ever: it can lose every time.\<close>

lemma spin_can_starve:
  assumes "spin_reach spin_start s" and "pcs s i = Locking" and "pcs s j = Outside" and "\<not> locked (flag s)"
  shows "\<exists>t. spin_reach s t \<and> t = s \<and> (\<exists>u. spin_step s u \<and> pcs u j = Holding \<and> spin_step u t)"
proof -
  let ?u = "s\<lparr>flag := flag s\<lparr>locked := True\<rparr>, pcs := (pcs s)(j := Holding)\<rparr>"
  have 1: "spin_step s ?u"
    using call_try_lock [OF assms(3), of True "flag s\<lparr>locked := True\<rparr>"] assms(4) by (simp add: try_lock_def test_and_set_def)
  have "?u\<lparr>flag := unlock (flag ?u), pcs := (pcs ?u)(j := Outside)\<rparr> = s"
    using assms(3,4) by (cases s; cases "flag s") (auto simp: unlock_def)
  then have 2: "spin_step ?u s" using call_unlock [of ?u j] by simp
  then show ?thesis using 1 spin_refl by (intro exI [of _ s] exI [of _ ?u] conjI) auto
qed

end
