(* ===== verification/Ez_Daemon.thy ===== *)
theory Ez_Daemon
  imports Ez_Events
begin

text \<open>
  \<open>switch_to_daemon\<close> and \<open>self_restart_loop\<close> (\<open>source/daemon.cpp\<close>) over a record of system calls. After \<open>fork\<close> there are
  two processes; a run of the functions here is that of one of them, chosen by the value of \<open>fork\<close>.
\<close>

section \<open>System calls\<close>

text \<open>What \<open>waitpid\<close> tells of a process that has ended. \<open>None\<close> is its failure; a failing \<open>execlp\<close> returns.\<close>

datatype wait_status = Exited nat | Signaled int

record 'k process_os =
  sys_fork :: "'k \<Rightarrow> int \<times> 'k"
  sys_waitpid :: "'k \<Rightarrow> int \<Rightarrow> wait_status option \<times> 'k"
  sys_execlp :: "'k \<Rightarrow> bytes \<Rightarrow> bytes \<Rightarrow> bool \<times> 'k"
  sys_sleep :: "'k \<Rightarrow> nat \<Rightarrow> 'k"
  sys_close :: "'k \<Rightarrow> int \<Rightarrow> 'k"

definition switch_to_daemon :: "'k process_os \<Rightarrow> 'k \<Rightarrow> bool res \<times> 'k" where
  "switch_to_daemon os k =
     (case sys_fork os k of (pid, k) \<Rightarrow>
        if pid < 0 then (Inl (Throw (Runtime_error ''Unable to fork()'')), k)
        else if pid > 0 then (Inr True, k)
        else (Inr False, sys_close os (sys_close os (sys_close os k 0) 1) 2))"

section \<open>The loop\<close>

text \<open>How a pass of the loop ends: \<open>return true\<close>, \<open>break\<close>, or another program has taken the place of this one.\<close>

datatype left = Returned_true | Broken | Replaced

definition restart_pass :: "'k process_os \<Rightarrow> bytes \<Rightarrow> bytes \<Rightarrow> left option \<times> 'k \<Rightarrow> bool res \<times> (left option \<times> 'k)" where
  "restart_pass os executable param st =
     (let (pid, k) = sys_fork os (snd st) in
      if pid > 0 then
        (case sys_waitpid os k pid of
           (None, k) \<Rightarrow> (Inl (Undefined ''status is not initialised''), (None, k))
         | (Some status, k) \<Rightarrow>
             if status = Exited 0 then (Inr True, (Some Returned_true, k))
             else
               let (replaced, k) = (if status = Exited 1 then sys_execlp os k executable param else (False, k)) in
               if replaced then (Inr True, (Some Replaced, k)) else (Inr False, (None, sys_sleep os k 5)))
      else if pid = - 1 then (Inl (Throw (Runtime_error ''Unable to fork()'')), (None, k))
      else (Inr True, (Some Broken, k)))"

definition self_restart_loop :: "'k process_os \<Rightarrow> bytes \<Rightarrow> bytes \<Rightarrow> 'k \<Rightarrow> (left res \<times> 'k) option" where
  "self_restart_loop os executable param k =
     (case pass_loop (restart_pass os executable param) (None, k) of
        None \<Rightarrow> None
      | Some (Inl e, (_, k)) \<Rightarrow> Some (Inl e, k)
      | Some (Inr _, (v, k)) \<Rightarrow> Some (Inr (the v), k))"

section \<open>When the loop ends\<close>

text \<open>A round: a child is started, and what is known of its end asks for the next one.\<close>

definition restarts :: "'k process_os \<Rightarrow> bytes \<Rightarrow> bytes \<Rightarrow> 'k \<Rightarrow> 'k \<Rightarrow> bool" where
  "restarts os executable param k k' \<longleftrightarrow>
     (\<exists>pid k1 status k2. sys_fork os k = (pid, k1) \<and> pid > 0 \<and> sys_waitpid os k1 pid = (Some status, k2) \<and> status \<noteq> Exited 0 \<and>
        (if status = Exited 1 then \<exists>k3. sys_execlp os k2 executable param = (False, k3) \<and> k' = sys_sleep os k3 5
         else k' = sys_sleep os k2 5))"

fun rounds :: "'k process_os \<Rightarrow> bytes \<Rightarrow> bytes \<Rightarrow> nat \<Rightarrow> 'k \<Rightarrow> 'k \<Rightarrow> bool" where
  "rounds os executable param 0 k k' \<longleftrightarrow> k = k'"
| "rounds os executable param (Suc n) k k' \<longleftrightarrow> (\<exists>k1. restarts os executable param k k1 \<and> rounds os executable param n k1 k')"

lemma pass_restarts:
  "restart_pass os executable param (v, k) = (Inr False, (v', k')) \<longleftrightarrow> v' = None \<and> restarts os executable param k k'"
proof -
  obtain pid k1 where f: "sys_fork os k = (pid, k1)" by (cases "sys_fork os k")
  obtain w k2 where w: "sys_waitpid os k1 pid = (w, k2)" by (cases "sys_waitpid os k1 pid")
  obtain r k3 where x: "sys_execlp os k2 executable param = (r, k3)" by (cases "sys_execlp os k2 executable param")
  show ?thesis using f w x by (cases w; cases r) (auto simp: restart_pass_def restarts_def Let_def)
qed

lemma passes_rounds:
  "passes (restart_pass os executable param) n (None, k) = Some (v, k') \<longleftrightarrow> v = None \<and> rounds os executable param n k k'"
proof (induction n arbitrary: k)
  case (Suc n)
  have "passes (restart_pass os executable param) (Suc n) (None, k) = Some (v, k') \<longleftrightarrow>
      (\<exists>k1. restart_pass os executable param (None, k) = (Inr False, (None, k1)) \<and>
        passes (restart_pass os executable param) n (None, k1) = Some (v, k'))"
  proof -
    obtain r v1 k1 where p: "restart_pass os executable param (None, k) = (r, (v1, k1))"
      by (cases "restart_pass os executable param (None, k)") auto
    have "r = Inr False \<Longrightarrow> v1 = None" using p pass_restarts [of os executable param None k v1 k1] by simp
    then show ?thesis using p by (cases r) (auto split: bool.splits)
  qed
  then show ?case using Suc by (auto simp: pass_restarts)
qed auto

section \<open>Properties\<close>

text \<open>\<open>self_restart_loop\<close> returns true if and only if after finitely many rounds a child exits with 0: a child that
  ends in any other way, by a signal included, is started again, unless it exits with 1 and the program
  replaces itself.\<close>

theorem restart_loop_returns:
  "self_restart_loop os executable param k = Some (Inr Returned_true, k') \<longleftrightarrow>
    (\<exists>n k1 pid k2. rounds os executable param n k k1 \<and> sys_fork os k1 = (pid, k2) \<and> pid > 0 \<and>
      sys_waitpid os k2 pid = (Some (Exited 0), k'))"
proof -
  have last: "last_pass (restart_pass os executable param) (None, k1) (Inr (), (v, k')) \<and> the v = Returned_true \<longleftrightarrow>
    v = Some Returned_true \<and> (\<exists>pid k2. sys_fork os k1 = (pid, k2) \<and> pid > 0 \<and> sys_waitpid os k2 pid = (Some (Exited 0), k'))" for k1 v
  proof -
    obtain pid k2 where f: "sys_fork os k1 = (pid, k2)" by (cases "sys_fork os k1")
    obtain w k3 where w: "sys_waitpid os k2 pid = (w, k3)" by (cases "sys_waitpid os k2 pid")
    obtain r k4 where x: "sys_execlp os k3 executable param = (r, k4)" by (cases "sys_execlp os k3 executable param")
    show ?thesis using f w x by (cases w; cases r) (auto simp: last_pass_def restart_pass_def Let_def)
  qed
  have "self_restart_loop os executable param k = Some (Inr Returned_true, k') \<longleftrightarrow>
      (\<exists>v. pass_loop (restart_pass os executable param) (None, k) = Some (Inr (), (v, k')) \<and> the v = Returned_true)"
    by (auto simp: self_restart_loop_def split: option.splits prod.splits sum.splits)
  also have "\<dots> \<longleftrightarrow> (\<exists>n k1. rounds os executable param n k k1 \<and>
      (\<exists>v. last_pass (restart_pass os executable param) (None, k1) (Inr (), (v, k')) \<and> the v = Returned_true))"
    unfolding pass_loop_iff by (auto simp: passes_rounds split: prod.splits)
  finally show ?thesis unfolding last by auto
qed

end
