(* ===== verification/Ez_Timer.thy ===== *)
theory Ez_Timer
  imports Ez_Prelude
begin

text \<open>
  \<open>ez::timer\<close> (\<open>include/ez/timer.hpp\<close>). The clock is a parameter: each operation that reads it gets its value, the
  nanoseconds of \<open>std::chrono::steady_clock\<close>. Durations are milliseconds.
\<close>

record timer =
  m_start :: int
  m_started :: bool

definition timer_new :: timer where
  "timer_new = \<lparr>m_start = 0, m_started = False\<rparr>"

definition reset :: "int \<Rightarrow> timer \<Rightarrow> timer" where
  "reset now t = t\<lparr>m_start := now, m_started := True\<rparr>"

definition stop :: "timer \<Rightarrow> timer" where
  "stop t = t\<lparr>m_started := False\<rparr>"

text \<open>\<open>duration_cast\<close> cuts towards zero.\<close>

definition elapsed :: "int \<Rightarrow> timer \<Rightarrow> int" where
  "elapsed now t = (if \<not> m_started t then 0 else sgn (now - m_start t) * (\<bar>now - m_start t\<bar> div 1000000))"

definition timer_eq :: "int \<Rightarrow> timer \<Rightarrow> int \<Rightarrow> bool" where "timer_eq now t d \<longleftrightarrow> elapsed now t = d"
definition timer_le :: "int \<Rightarrow> timer \<Rightarrow> int \<Rightarrow> bool" where "timer_le now t d \<longleftrightarrow> elapsed now t \<le> d"
definition timer_ge :: "int \<Rightarrow> timer \<Rightarrow> int \<Rightarrow> bool" where "timer_ge now t d \<longleftrightarrow> elapsed now t \<ge> d"
definition timer_less :: "int \<Rightarrow> timer \<Rightarrow> int \<Rightarrow> bool" where "timer_less now t d \<longleftrightarrow> elapsed now t < d"
definition timer_greater :: "int \<Rightarrow> timer \<Rightarrow> int \<Rightarrow> bool" where "timer_greater now t d \<longleftrightarrow> elapsed now t > d"

definition started :: "timer \<Rightarrow> bool" where
  "started t = m_started t"

text \<open>On a clock that does not go back the time grows and is exact to the millisecond; a stopped timer shows none.\<close>

lemma elapsed_exact:
  "m_start t \<le> now \<Longrightarrow> m_started t \<Longrightarrow> elapsed now t * 1000000 \<le> now - m_start t \<and> now - m_start t < (elapsed now t + 1) * 1000000"
  using pos_mod_bound [of 1000000 "now - m_start t"] pos_mod_sign [of 1000000 "now - m_start t"]
    div_mult_mod_eq [of "now - m_start t" 1000000] by (auto simp: elapsed_def sgn_if)

lemma elapsed_mono: "m_start t \<le> now \<Longrightarrow> now \<le> later \<Longrightarrow> elapsed now t \<le> elapsed later t"
  by (auto simp: elapsed_def sgn_if intro!: zdiv_mono1)

lemma elapsed_reset: "elapsed now (reset now t) = 0" and elapsed_stop: "elapsed now (stop t) = 0"
  by (simp_all add: elapsed_def reset_def stop_def)

lemma timer_reaches: "m_start t \<le> now \<Longrightarrow> m_started t \<Longrightarrow> timer_ge now t d \<longleftrightarrow> m_start t + d * 1000000 \<le> now"
  using elapsed_exact [of t now] by (auto simp: timer_ge_def)

end
