(* ===== verification/Spec2Isabelle.thy ===== *)
theory Spec2Isabelle
  imports Ez_Hex Ez_Base64 Ez_Url Ez_Ip Ez_Hmac Ez_Aead Ez_Smp Ez_Socket Ez_Phr_Sse Ez_Http_Safe Ez_Tls
    Ez_Epoll Ez_Kqueue Ez_Workers Ez_Spin_Lock Ez_Daemon Ez_Timer
begin

text \<open>
  A verification library for \<open>ez\<close>, a C++ library of codecs, cryptographic primitives,
  reference-counted buffers, network channels, event loops and the process and thread tools around them.

  \<^item> Codecs. \<open>Ez_Bytes\<close> models the byte-order and rotation macros of \<open>include/ez/common.hpp\<close>.
    \<open>Ez_Codec\<close> is the contract of a text encoding, a locale; \<open>Ez_Hex\<close>, \<open>Ez_Base64\<close> and
    \<open>Ez_Url\<close> model \<open>source/hex.cpp\<close>, \<open>source/base64.cpp\<close> and \<open>source/url.cpp\<close>,
    interpret it, and show round trips and the exact behaviour on every input.
  \<^item> Addresses. \<open>Ez_Ip\<close> models \<open>source/ip.cpp\<close>: the parser with its 8-bit index, which accepts
    exactly the dotted quads, and does not return on some texts of 256 characters or more.
  \<^item> Buffers. \<open>Ez_Buffer\<close> models \<open>source/buffer.cpp\<close> on an explicit heap of \<open>impl\<close>
    objects and arrays; a step relation for programs using buffers has the invariant that reference
    counts are exact, from which the absence of dangling pointers, double frees and leaks follows.
  \<^item> Hashes and MACs. \<open>Ez_Block\<close> holds what the block-wise functions share: the locale
    \<open>block_feeder\<close> of the \<open>update\<close> loops. \<open>Ez_Sha1\<close>, \<open>Ez_Sha2\<close>, \<open>Ez_Poly1305\<close> and
    \<open>Ez_Hmac\<close> model \<open>source/sha1.cpp\<close>, \<open>source/sha2.cpp\<close>, \<open>source/poly1305.cpp\<close> and
    \<open>include/ez/hmac.hpp\<close> on machine words, and show that they refine the standards (FIPS 180-4,
    FIPS 198-1, RFC 8439) for every way of cutting the data into calls.
  \<^item> Ciphers. \<open>Ez_Chacha20\<close> and \<open>Ez_Aead\<close> model \<open>source/chacha20.cpp\<close> and
    \<open>source/chacha20_poly1305.cpp\<close>, and show that they refine RFC 8439, the round trip, and what
    decryption accepts.
  \<^item> Channels. \<open>Ez_Channel\<close> holds the abstract class of \<open>include/ez/channel.hpp\<close> as a record of operations
    and its contract as the locales \<open>channel_laws\<close>, \<open>eager_channel\<close> and \<open>defined_channel\<close> (calls are never undefined). \<open>Ez_Smp\<close> models the message
    protocol of \<open>source/smp.cpp\<close> over any channel: what is sent, the round trip, and the inputs on which the
    framing is lost. \<open>Ez_System\<close> holds the numbers of \<open>errno\<close>; \<open>Ez_Socket\<close> models \<open>source/socket.cpp\<close> over a
    record of system calls; the locale \<open>connection\<close> is what is expected of the system, and gives \<open>channel_laws\<close> by
    \<open>sublocale\<close>. \<open>Ez_Tls\<close> models \<open>source/tls.cpp\<close>, a channel over a channel, over a record of the functions of
    libtls, with the locale \<open>tls_library\<close> in the same place. Below, the protocols are put on top of these channels.
  \<^item> HTTP. \<open>Ez_Phr\<close> models the parsers of \<open>source/picohttpparser.c\<close> as functions on an array and a position:
    a Hoare triple \<open>sound\<close>, proved for each macro and loop and composed over the calls, shows that nothing outside
    the array is read and that an answer is final; a printed request or response is parsed back.
    \<open>Ez_Phr_Sse\<close> models the build of them for SSE 4.2, the instruction being a parameter with the locale
    \<open>range_compare\<close>, and shows that it is the same function.
    \<open>Ez_Chunked\<close> models the chunked decoder of the same file and shows that it is an automaton on single
    characters, whatever the calls. \<open>Ez_Http\<close> models \<open>source/http.cpp\<close> over any channel; \<open>Ez_Http_Receive\<close> shows
    what is received: on a channel that delivers what is there the messages that were sent, and on any channel what
    happens to messages that come in parts, some of which are lost. \<open>Ez_Http_Safe\<close> is about any use of an object:
    a well-formedness invariant of its state by rule induction, from which no operation is undefined and the memory
    for a message is bounded, on every channel of the locale \<open>defined_channel\<close>, sockets among them.
  \<^item> Event loops. \<open>Ez_Events\<close> holds the handlers of \<open>include/ez/events.hpp\<close> and the two loops that
    \<open>source/epoll.cpp\<close> and \<open>source/kqueue.cpp\<close> share; \<open>Ez_Epoll\<close> and \<open>Ez_Kqueue\<close> model these files as one thread
    runs them, over records of system calls: when \<open>process_events\<close> returns (it is a \<open>partial_function\<close>, \<open>None\<close>
    when it does not), what it hands to the handlers, and how calls of \<open>stop\<close> cancel each other. \<open>Ez_Workers\<close> is
    the step relation of the main thread and the workers with the array they share, for any program of a worker
    and so for both files: invariants by rule induction (a worker is told to stop at most once), that \<open>start\<close> can
    always still return, and the two races. In it a call that fails ends the process, and a worker's pipe is
    treated like its counter, since it gets at most one signal.
  \<^item> Tools. \<open>Ez_Spin_Lock\<close> models \<open>include/ez/spin_lock.hpp\<close> and threads that use it: mutual exclusion, and that a
    thread can starve. \<open>Ez_Daemon\<close> models \<open>source/daemon.cpp\<close> over a record of system calls, \<open>Ez_Timer\<close> the
    \<open>include/ez/timer.hpp\<close> over a clock.

  Conventions. Machine integers are words of their width (\<open>size_t\<close> is \<open>u64\<close>). A C++ exception is
  \<open>Inl (Throw e)\<close> and undefined behaviour (a read past an array, a write through a dangling
  pointer) is \<open>Inl (Undefined _)\<close>, both of the type \<open>fault\<close> of \<open>Ez_Prelude\<close>. Uninitialised
  memory is a parameter (\<open>junk\<close>, \<open>old\<close>). The host is little-endian.

  Not modelled: destructors that only free memory; the declarations of \<open>include/tls_internal.h\<close> (the internals of
  libtls, whose code is elsewhere; \<open>source/tls.cpp\<close> uses one flag of them); the Windows and BSD branches of
  \<open>source/socket.cpp\<close>; the program \<open>test.cpp\<close>.
\<close>

section \<open>SMP over a socket\<close>

text \<open>Over a socket, on every system that keeps the contract of a connection, however often calls are
  interrupted, cut short or refused: when the state says \<open>send_complete\<close> the system has accepted exactly the
  frame, and until then what it has accepted and what is left in the send buffer make up the frame.\<close>

theorem smp_over_socket:
  assumes "connection os fd out inq" and "socket_on fd (Ez_Smp.m_channel st)" and "sizes_ok h b"
    and "smp_send (socket_channel os) h b st = Some (r, st1)" and "smp_send_runs (socket_channel os) n st1 = Some st2"
  shows "(Ez_Smp.m_state st2 = Ez_Smp.send_complete \<longrightarrow> out (snd (Ez_Smp.m_channel st2)) = out (snd (Ez_Smp.m_channel st)) @ frame h b) \<and>
    (Ez_Smp.m_state st2 \<noteq> Ez_Smp.send_complete \<longrightarrow>
      out (snd (Ez_Smp.m_channel st2)) @ local_contents (Ez_Smp.m_send_buffer st2) = out (snd (Ez_Smp.m_channel st)) @ frame h b)"
  using channel_laws.send_all [OF connection.socket_channel_laws [OF assms(1)] assms(4,3,5,2)] by simp

theorem smp_over_socket_witness:
  "\<exists>r st1. smp_send (socket_channel pipe_os) [1] [2] (smp_new [] (socket_of_fd 3 connected,
      \<lparr>p_in = [], p_out = [], p_signals = 1, p_flags = 0\<rparr>)) = Some (r, st1) \<and>
    (Ez_Smp.m_state st1 \<noteq> Ez_Smp.send_complete \<longrightarrow>
      p_out (snd (Ez_Smp.m_channel st1)) @ local_contents (Ez_Smp.m_send_buffer st1) = frame [1] [2])"
proof -
  let ?k = "\<lparr>p_in = [], p_out = [], p_signals = 1, p_flags = 0\<rparr>"
  let ?c = "(socket_of_fd 3 connected, ?k)"
  let ?st = "smp_new [] ?c"
  have s: "sizes_ok [1] [2]" by (simp add: sizes_ok_def)
  have on: "socket_on 3 (Ez_Smp.m_channel ?st)" by (simp add: new_between(2) socket_on_def socket_of_fd_def)
  have "frame [1] [2] \<noteq> []" by (simp add: frame_def)
  then have "\<exists>n. socket_send pipe_os (socket_of_fd 3 connected) ?k (frame [1] [2]) = Some (Inr n, socket_of_fd 3 connected,
      ?k\<lparr>p_signals := 0, p_out := take 4 (frame [1] [2])\<rparr>)"
    by (simp add: socket_send_def socket_of_fd_def socket_new_def socket_send_loop.simps pipe_os_def interruptible_def
        length_frame)
  then have "\<exists>r st1. smp_send (socket_channel pipe_os) [1] [2] ?st = Some (r, st1)"
    using unat_sizes [OF s] smp_frame_frame [OF s] local_contents_of_bytes [of "frame [1] [2]"]
    by (auto simp: smp_send_def smp_push_def socket_channel_def new_between(2) length_frame Let_def)
  then obtain r st1 where 1: "smp_send (socket_channel pipe_os) [1] [2] ?st = Some (r, st1)" by blast
  from smp_over_socket [OF pipe_connection on s 1, of 0 st1] show ?thesis
    using 1 by (auto simp: new_between(2))
qed

section \<open>HTTP over TLS\<close>




end
